(* ===== verification/Prelude.thy ===== *)
theory Prelude
  imports Main "HOL-Library.Char_ord" "HOL-Library.List_Lexorder" "HOL-Library.Product_Lexorder"
begin

text \<open>
  What the components share: the exceptions the Python code can raise, the state and
  exception monad in which every \<open>async def\<close> is written, and the parts of Python's
  \<open>str\<close> and \<open>int\<close> the gateway uses (\<open>str(n)\<close>, \<open>int(s)\<close>, \<open>split\<close>, \<open>lower\<close>,
  \<open>startswith\<close>). A Python string is a list of code points below 256 (type \<^typ>\<open>string\<close>).
\<close>

named_theorems io_simps "execution rules of the state and exception monad"
named_theorems sim_intros "simulation rules: one per operation of the gateway"

section \<open>Exceptions\<close>

text \<open>The subclasses of FastAPI's \<open>HTTPException\<close> in app/core/exceptions.py.\<close>

datatype http_class = PlainHTTP | RateLimitExceeded | Unauthorized | Forbidden | AbuseDetected

datatype exn =
    ConnectionError
  | ResponseError
  | ValueError
  | IndexError
  | AttributeError
  | TypeError
  | JSONDecodeError
  | JWTError
  | IntegrityError
  | DatabaseError
  | HTTPException http_class int string "(string \<times> string) list"
  | OtherError string

section \<open>Operations on a state that may raise\<close>

text \<open>
  A coroutine takes the state and returns its result or the exception that left it,
  with the state at that point. State changes made before a raise stay, as in the code.
\<close>

type_synonym ('s, 'a) io = "'s \<Rightarrow> (exn + 'a) \<times> 's"

definition ret :: "'a \<Rightarrow> ('s, 'a) io" where
  "ret x = (\<lambda>s. (Inr x, s))"

definition raise_exn :: "exn \<Rightarrow> ('s, 'a) io" where
  "raise_exn e = (\<lambda>s. (Inl e, s))"

definition bind :: "('s, 'a) io \<Rightarrow> ('a \<Rightarrow> ('s, 'b) io) \<Rightarrow> ('s, 'b) io" where
  "bind m f = (\<lambda>s. case m s of (Inl e, s') \<Rightarrow> (Inl e, s') | (Inr x, s') \<Rightarrow> f x s')"

definition try_except :: "('s, 'a) io \<Rightarrow> (exn \<Rightarrow> ('s, 'a) io) \<Rightarrow> ('s, 'a) io" where
  "try_except m h = (\<lambda>s. case m s of (Inl e, s') \<Rightarrow> h e s' | (Inr x, s') \<Rightarrow> (Inr x, s'))"

definition discard :: "('s, 'a) io \<Rightarrow> ('s, unit) io" where
  "discard m = bind m (\<lambda>_. ret ())"

definition lift_result :: "exn + 'a \<Rightarrow> ('s, 'a) io" where
  "lift_result r = (\<lambda>s. (r, s))"

definition returns :: "('s, 'a) io \<Rightarrow> 's \<Rightarrow> 'a \<Rightarrow> 's \<Rightarrow> bool" where
  "returns m s x s' \<longleftrightarrow> m s = (Inr x, s')"

lemma ret_run [io_simps]: "ret x s = (Inr x, s)"
  by (simp add: ret_def)

lemma raise_run [io_simps]: "raise_exn e s = (Inl e, s)"
  by (simp add: raise_exn_def)

lemma lift_result_run [io_simps]: "lift_result r s = (r, s)"
  by (simp add: lift_result_def)

lemma bind_run_Inr [io_simps]: "m s = (Inr x, s') \<Longrightarrow> bind m f s = f x s'"
  by (simp add: bind_def)

lemma bind_run_Inl [io_simps]: "m s = (Inl e, s') \<Longrightarrow> bind m f s = (Inl e, s')"
  by (simp add: bind_def)

lemma try_run_Inr [io_simps]: "m s = (Inr x, s') \<Longrightarrow> try_except m h s = (Inr x, s')"
  by (simp add: try_except_def)

lemma try_run_Inl [io_simps]: "m s = (Inl e, s') \<Longrightarrow> try_except m h s = h e s'"
  by (simp add: try_except_def)

lemma bind_ret [simp]: "bind (ret x) f = f x"
  by (simp add: bind_def ret_def)

lemma bind_raise [simp]: "bind (raise_exn e) f = raise_exn e"
  by (simp add: bind_def raise_exn_def)

lemma bind_assoc: "bind (bind m f) g = bind m (\<lambda>x. bind (f x) g)"
  by (rule ext) (auto simp: bind_def split: prod.splits sum.splits)

lemma bind_eq_Inr:
  "bind m f s = (Inr y, t) \<longleftrightarrow> (\<exists>x s'. m s = (Inr x, s') \<and> f x s' = (Inr y, t))"
  by (auto simp: bind_def split: prod.splits sum.splits)

lemma bind_eq_Inl:
  "bind m f s = (Inl e, t) \<longleftrightarrow>
     m s = (Inl e, t) \<or> (\<exists>x s'. m s = (Inr x, s') \<and> f x s' = (Inl e, t))"
  by (auto simp: bind_def split: prod.splits sum.splits)

lemma discard_run [io_simps]:
  "m s = (Inr x, s') \<Longrightarrow> discard m s = (Inr (), s')"
  "m s = (Inl e, s') \<Longrightarrow> discard m s = (Inl e, s')"
  by (simp_all add: discard_def io_simps)

section \<open>Simulation through a view of the state\<close>

text \<open>
  \<open>simulates view m n\<close>: \<open>m\<close> on a concrete state does what \<open>n\<close> does on the view of it,
  with the same result. It composes along \<^const>\<open>bind\<close>, so an operation written over an
  interface simulates the same operation over the interface's specification.
\<close>

definition simulates :: "('s \<Rightarrow> 'v) \<Rightarrow> ('s, 'a) io \<Rightarrow> ('v, 'a) io \<Rightarrow> bool" where
  "simulates view m n \<longleftrightarrow> (\<forall>s. n (view s) = map_prod id view (m s))"

lemma simulatesD: "simulates view m n \<Longrightarrow> m s = (r, s') \<Longrightarrow> n (view s) = (r, view s')"
  by (simp add: simulates_def)

lemma simulates_fst: "simulates view m n \<Longrightarrow> fst (m s) = fst (n (view s))"
  by (simp add: simulates_def)

lemma simulates_snd: "simulates view m n \<Longrightarrow> view (snd (m s)) = snd (n (view s))"
  by (simp add: simulates_def)

lemma simulates_run:
  "simulates view m n \<Longrightarrow> n (view s) = (r, v) \<Longrightarrow> \<exists>s'. m s = (r, s') \<and> view s' = v"
  by (cases "m s") (auto simp: simulates_def dest: spec [of _ s])

lemma sim_ret [sim_intros]: "simulates view (ret x) (ret x)"
  by (simp add: simulates_def ret_def)

lemma sim_raise [sim_intros]: "simulates view (raise_exn e) (raise_exn e)"
  by (simp add: simulates_def raise_exn_def)

lemma sim_lift_result [sim_intros]: "simulates view (lift_result r) (lift_result r)"
  by (simp add: simulates_def lift_result_def)

lemma sim_bind [sim_intros]:
  "simulates view m n \<Longrightarrow> (\<And>x. simulates view (f x) (g x)) \<Longrightarrow>
   simulates view (bind m f) (bind n g)"
  by (auto simp: simulates_def bind_def split: prod.splits sum.splits)

lemma sim_try [sim_intros]:
  "simulates view m n \<Longrightarrow> (\<And>e. simulates view (h e) (k e)) \<Longrightarrow>
   simulates view (try_except m h) (try_except n k)"
  by (auto simp: simulates_def try_except_def split: prod.splits sum.splits)

lemma sim_discard [sim_intros]: "simulates view m n \<Longrightarrow> simulates view (discard m) (discard n)"
  unfolding discard_def by (intro sim_intros)

lemma sim_if [sim_intros]:
  "(b \<Longrightarrow> simulates view m n) \<Longrightarrow> (\<not> b \<Longrightarrow> simulates view m' n') \<Longrightarrow>
   simulates view (if b then m else m') (if b then n else n')"
  by simp

lemma sim_option [sim_intros]:
  "simulates view m n \<Longrightarrow> (\<And>x. simulates view (f x) (g x)) \<Longrightarrow>
   simulates view (case v of None \<Rightarrow> m | Some x \<Rightarrow> f x) (case v of None \<Rightarrow> n | Some x \<Rightarrow> g x)"
  by (cases v) auto

lemma sim_prod [sim_intros]:
  "(\<And>x y. simulates view (f x y) (g x y)) \<Longrightarrow>
   simulates view (case v of (x, y) \<Rightarrow> f x y) (case v of (x, y) \<Rightarrow> g x y)"
  by (cases v) auto

lemma sim_id: "simulates (\<lambda>s. s) m m"
  by (auto simp: simulates_def map_prod_def split: prod.splits)

section \<open>Parts of a state, and loops\<close>

text \<open>An operation on the part of a state that \<open>g\<close> reads and \<open>p\<close> writes back.\<close>

definition zoom :: "('s \<Rightarrow> 'a) \<Rightarrow> ('a \<Rightarrow> 's \<Rightarrow> 's) \<Rightarrow> ('a, 'x) io \<Rightarrow> ('s, 'x) io" where
  "zoom g p m = (\<lambda>s. case m (g s) of (r, a) \<Rightarrow> (r, p a s))"

definition modify :: "('s \<Rightarrow> 's) \<Rightarrow> ('s, unit) io" where
  "modify f = (\<lambda>s. (Inr (), f s))"

definition gets :: "('s \<Rightarrow> 'x) \<Rightarrow> ('s, 'x) io" where
  "gets f = (\<lambda>s. (Inr (f s), s))"

lemma zoom_run [io_simps]: "m (g s) = (r, a) \<Longrightarrow> zoom g p m s = (r, p a s)"
  by (simp add: zoom_def)

lemma modify_run [io_simps]: "modify f s = (Inr (), f s)"
  by (simp add: modify_def)

lemma gets_run [io_simps]: "gets f s = (Inr (f s), s)"
  by (simp add: gets_def)

text \<open>A \<open>for\<close> loop over a list whose body may raise.\<close>

fun for_io :: "'a list \<Rightarrow> ('a \<Rightarrow> ('s, unit) io) \<Rightarrow> ('s, unit) io" where
  "for_io [] body = ret ()"
| "for_io (x # xs) body = bind (body x) (\<lambda>_. for_io xs body)"

section \<open>Python integers as strings\<close>

definition digit_char :: "nat \<Rightarrow> char" where
  "digit_char d = char_of (48 + d)"

fun show_nat :: "nat \<Rightarrow> string" where
  "show_nat n = (if n < 10 then [digit_char n] else show_nat (n div 10) @ [digit_char (n mod 10)])"

declare show_nat.simps [simp del]

definition show_int :: "int \<Rightarrow> string" where
  "show_int i = (if i < 0 then CHR ''-'' # show_nat (nat (- i)) else show_nat (nat i))"

definition is_digit :: "char \<Rightarrow> bool" where
  "is_digit c \<longleftrightarrow> 48 \<le> (of_char c :: nat) \<and> (of_char c :: nat) \<le> 57"

definition digit_val :: "char \<Rightarrow> nat" where
  "digit_val c = of_char c - 48"

text \<open>Python's \<open>str.isspace\<close> for code points below 256.\<close>

definition is_space :: "char \<Rightarrow> bool" where
  "is_space c \<longleftrightarrow> (let n = (of_char c :: nat) in
     (9 \<le> n \<and> n \<le> 13) \<or> (28 \<le> n \<and> n \<le> 32) \<or> n = 133 \<or> n = 160)"

definition py_strip :: "string \<Rightarrow> string" where
  "py_strip s = rev (dropWhile is_space (rev (dropWhile is_space s)))"

text \<open>
  The digits of \<open>int(s)\<close>: at least one, with single underscores allowed between two.
  \<open>after_digit\<close> says that the previous character was a digit.
\<close>

fun py_digits :: "nat \<Rightarrow> bool \<Rightarrow> string \<Rightarrow> nat option" where
  "py_digits acc after_digit [] = (if after_digit then Some acc else None)"
| "py_digits acc after_digit (c # cs) =
     (if is_digit c then py_digits (10 * acc + digit_val c) True cs
      else if c = CHR ''_'' \<and> after_digit then py_digits acc False cs
      else None)"

definition py_int :: "string \<Rightarrow> exn + int" where
  "py_int s =
     (case py_strip s of
        [] \<Rightarrow> Inl ValueError
      | c # cs \<Rightarrow>
          (let neg = (c = CHR ''-''); body = (if c = CHR ''-'' \<or> c = CHR ''+'' then cs else c # cs)
           in case py_digits 0 False body of
                None \<Rightarrow> Inl ValueError
              | Some n \<Rightarrow> Inr (if neg then - int n else int n)))"

lemma digit_char_of [simp]: "d < 10 \<Longrightarrow> (of_char (digit_char d) :: nat) = 48 + d"
  by (simp add: digit_char_def)

lemma digit_char_facts [simp]:
  "d < 10 \<Longrightarrow> is_digit (digit_char d)"
  "d < 10 \<Longrightarrow> digit_val (digit_char d) = d"
  by (simp_all add: is_digit_def digit_val_def)

lemma digit_not_space [simp]: "is_digit c \<Longrightarrow> \<not> is_space c"
  by (auto simp: is_digit_def is_space_def Let_def)

lemma show_nat_nonempty [simp]: "show_nat n \<noteq> []"
  by (subst show_nat.simps) simp

lemma show_nat_digits: "c \<in> set (show_nat n) \<Longrightarrow> is_digit c"
proof (induction n rule: show_nat.induct)
  case (1 n)
  show ?case
  proof (cases "n < 10")
    case True
    with "1.prems" show ?thesis by (subst (asm) show_nat.simps) simp
  next
    case False
    with "1.prems" have "c \<in> set (show_nat (n div 10)) \<or> c = digit_char (n mod 10)"
      by (subst (asm) show_nat.simps) auto
    with "1.IH" [OF False] show ?thesis by auto
  qed
qed

lemma py_digits_show_nat:
  "py_digits acc b (show_nat n @ rest) = py_digits (acc * 10 ^ length (show_nat n) + n) True rest"
proof (induction n arbitrary: acc b rest rule: show_nat.induct)
  case (1 n)
  show ?case
  proof (cases "n < 10")
    case True
    then show ?thesis by (simp add: show_nat.simps [of n] mult.commute)
  next
    case False
    have s: "show_nat n = show_nat (n div 10) @ [digit_char (n mod 10)]"
      using False by (subst show_nat.simps) simp
    have "10 * (n div 10) + n mod 10 = n" by simp
    with "1.IH" [OF False, of acc b "digit_char (n mod 10) # rest"] show ?thesis
      by (simp add: s algebra_simps)
  qed
qed

lemma dropWhile_all_not: "(\<And>c. c \<in> set s \<Longrightarrow> \<not> P c) \<Longrightarrow> dropWhile P s = s"
  by (cases s) auto

lemma py_strip_no_space: "(\<And>c. c \<in> set s \<Longrightarrow> \<not> is_space c) \<Longrightarrow> py_strip s = s"
  using dropWhile_all_not [of s is_space] dropWhile_all_not [of "rev s" is_space]
  by (simp add: py_strip_def)

lemma show_nat_Cons_sign: "show_nat n = c # cs \<Longrightarrow> c \<noteq> CHR ''-'' \<and> c \<noteq> CHR ''+''"
  using show_nat_digits [of c n] by (auto simp: is_digit_def)

lemma py_int_show_nat: "py_int (show_nat n) = Inr (int n)"
proof -
  obtain c cs where s: "show_nat n = c # cs"
    by (cases "show_nat n") auto
  have strip: "py_strip (show_nat n) = show_nat n"
    by (rule py_strip_no_space) (auto dest: show_nat_digits)
  have "py_digits 0 False (show_nat n) = Some n"
    using py_digits_show_nat [of 0 False n "[]"] by simp
  then show ?thesis
    using show_nat_Cons_sign [OF s] strip s by (simp add: py_int_def)
qed

text \<open>Reading back a printed integer gives the integer.\<close>

lemma py_int_show_int [simp]: "py_int (show_int i) = Inr i"
proof (cases "i < 0")
  case True
  have sp: "\<not> is_space (CHR ''-'')" by (simp add: is_space_def)
  have "py_strip (CHR ''-'' # show_nat (nat (- i))) = CHR ''-'' # show_nat (nat (- i))"
    by (rule py_strip_no_space) (auto dest: show_nat_digits simp: sp)
  moreover have "py_digits 0 False (show_nat (nat (- i))) = Some (nat (- i))"
    using py_digits_show_nat [of 0 False "nat (- i)" "[]"] by simp
  ultimately show ?thesis
    using True by (simp add: show_int_def py_int_def)
qed (simp add: show_int_def py_int_show_nat)

lemma show_int_inj [simp]: "show_int i = show_int j \<longleftrightarrow> i = j"
  by (metis py_int_show_int sum.inject(2))

lemma show_int_nonempty [simp]: "show_int i \<noteq> []"
  by (simp add: show_int_def)

lemma show_int_chars: "c \<in> set (show_int i) \<Longrightarrow> is_digit c \<or> c = CHR ''-''"
  by (auto simp: show_int_def dest: show_nat_digits split: if_splits)

lemma show_int_nonneg_digits: "0 \<le> i \<Longrightarrow> c \<in> set (show_int i) \<Longrightarrow> is_digit c"
  by (auto simp: show_int_def dest: show_nat_digits split: if_splits)

text \<open>Evaluation of \<^const>\<open>show_int\<close> on numerals.\<close>

lemma digit_char_eval:
  "digit_char 0 = CHR ''0''" "digit_char 1 = CHR ''1''" "digit_char (Suc 0) = CHR ''1''"
  "digit_char 2 = CHR ''2''" "digit_char 3 = CHR ''3''" "digit_char 4 = CHR ''4''"
  "digit_char 5 = CHR ''5''" "digit_char 6 = CHR ''6''" "digit_char 7 = CHR ''7''"
  "digit_char 8 = CHR ''8''" "digit_char 9 = CHR ''9''"
  by (simp_all add: digit_char_def char_of_def bit_iff_odd)

lemma show_nat_numeral:
  "show_nat 0 = ''0''" "show_nat 1 = ''1''" "show_nat (Suc 0) = ''1''"
  "show_nat (numeral k) =
     (if numeral k < (10::nat) then [digit_char (numeral k)]
      else show_nat (numeral k div 10) @ [digit_char (numeral k mod 10)])"
  by (subst show_nat.simps, simp add: digit_char_eval)+

lemmas show_int_eval = show_int_def show_nat_numeral digit_char_eval

section \<open>The string methods the gateway calls\<close>

definition py_startswith :: "string \<Rightarrow> string \<Rightarrow> bool" where
  "py_startswith s p \<longleftrightarrow> take (length p) s = p"

text \<open>Pieces of \<open>s\<close> between the characters that satisfy \<open>P\<close>, empty pieces included.\<close>

fun split_by :: "(char \<Rightarrow> bool) \<Rightarrow> string \<Rightarrow> string list" where
  "split_by P [] = [[]]"
| "split_by P (c # cs) =
     (if P c then [] # split_by P cs
      else (case split_by P cs of [] \<Rightarrow> [[c]] | w # ws \<Rightarrow> (c # w) # ws))"

text \<open>\<open>s.split(sep)\<close> for a one-character separator, and \<open>s.split()\<close>.\<close>

definition py_split_sep :: "char \<Rightarrow> string \<Rightarrow> string list" where
  "py_split_sep c s = split_by (\<lambda>x. x = c) s"

definition py_split_ws :: "string \<Rightarrow> string list" where
  "py_split_ws s = filter (\<lambda>w. w \<noteq> []) (split_by is_space s)"

text \<open>\<open>c.lower()\<close> for code points below 256.\<close>

definition lower_char :: "char \<Rightarrow> char" where
  "lower_char c = (let n = (of_char c :: nat) in
     if (65 \<le> n \<and> n \<le> 90) \<or> (192 \<le> n \<and> n \<le> 222 \<and> n \<noteq> 215) then char_of (n + 32) else c)"

definition py_lower :: "string \<Rightarrow> string" where
  "py_lower s = map lower_char s"

definition py_bool_str :: "bool \<Rightarrow> string" where
  "py_bool_str b = (if b then ''True'' else ''False'')"

text \<open>\<open>xs[i]\<close> on a Python list, for an index that is not negative.\<close>

definition list_item :: "'a list \<Rightarrow> nat \<Rightarrow> exn + 'a" where
  "list_item xs i = (case drop i xs of [] \<Rightarrow> Inl IndexError | x # rest \<Rightarrow> Inr x)"

text \<open>\<open>a, b = xs\<close>.\<close>

definition unpack2 :: "'a list \<Rightarrow> exn + 'a \<times> 'a" where
  "unpack2 xs = (case xs of [a, b] \<Rightarrow> Inr (a, b) | _ \<Rightarrow> Inl ValueError)"

lemma unpack2_eval [simp]: "unpack2 [a, b] = Inr (a, b)"
  by (simp add: unpack2_def)

lemma split_by_nonempty [simp]: "split_by P s \<noteq> []"
  by (induction s) (auto split: list.splits)

lemma split_by_no_sep: "(\<And>c. c \<in> set s \<Longrightarrow> \<not> P c) \<Longrightarrow> split_by P s = [s]"
  by (induction s) auto

lemma split_by_append_sep:
  "(\<And>c. c \<in> set a \<Longrightarrow> \<not> P c) \<Longrightarrow> P c \<Longrightarrow> split_by P (a @ c # b) = a # split_by P b"
  by (induction a) auto

lemma py_split_sep_append:
  "c \<notin> set a \<Longrightarrow> py_split_sep c (a @ c # b) = a # py_split_sep c b"
  unfolding py_split_sep_def by (rule split_by_append_sep) auto

lemma py_split_sep_absent: "c \<notin> set a \<Longrightarrow> py_split_sep c a = [a]"
  unfolding py_split_sep_def by (rule split_by_no_sep) auto

lemma split_by_pieces: "w \<in> set (split_by P s) \<Longrightarrow> c \<in> set w \<Longrightarrow> \<not> P c"
  by (induction s arbitrary: w) (fastforce split: list.splits if_splits)+

lemma py_startswith_append [simp]: "py_startswith (p @ s) p"
  by (simp add: py_startswith_def)

lemma py_startswith_iff: "py_startswith s p \<longleftrightarrow> (\<exists>r. s = p @ r)"
  unfolding py_startswith_def by (metis append_take_drop_id append_eq_conv_conj)

text \<open>One more of a row of equal entries.\<close>

lemma replicate_step:
  assumes "k < n"
  shows "(replicate k a @ replicate (n - k) b)[k := a] = replicate (Suc k) a @ replicate (n - Suc k) b"
proof -
  have "n - k = Suc (n - Suc k)" using assms by simp
  then have "(replicate k a @ replicate (n - k) b)[k := a] = replicate k a @ a # replicate (n - Suc k) b"
    by (simp add: list_update_append)
  then show ?thesis by (simp add: replicate_app_Cons_same)
qed

end
