(* ===== verification/RedisModel.thy ===== *)
theory RedisModel
  imports Prelude "HOL-Library.Finite_Map" "HOL-Library.FSet"
begin

text \<open>
  The Redis server is not part of the repository: it is a parameter of the model. A record
  of type \<open>'r redis\<close> holds the client calls the gateway makes (redis-py on a server in state
  \<open>'r\<close>), each of which may raise. What the gateway relies on is the documented behaviour of the
  commands, stated on a \<^emph>\<open>keyspace\<close>: the keys with their values and deadlines, and the
  server's clock. The locale \<open>redis_server\<close> says that a healthy server answers as documented;
  \<open>timed_redis\<close> adds the passing of time. Both are discharged for the reference server
  \<open>ks_redis\<close>, whose state is a keyspace. A MULTI/EXEC pipeline and an EVALSHA script are
  single transitions of the server.
\<close>

section \<open>Keyspaces\<close>

text \<open>A sorted set is the list of its members with their scores, ordered by score, then member.\<close>

datatype rval = RStr string | RZset "(string \<times> int) list" | RSet "string fset"

record keyspace =
  kmap :: "(string, rval \<times> int option) fmap"
  know :: int

definition empty_keyspace :: "int \<Rightarrow> keyspace" where
  "empty_keyspace t = \<lparr>kmap = fmempty, know = t\<rparr>"

text \<open>The entry under a key that has not expired (deadlines are in ms of the server's clock).\<close>

definition entry :: "keyspace \<Rightarrow> string \<Rightarrow> (rval \<times> int option) option" where
  "entry ks k =
     (case fmlookup (kmap ks) k of
        None \<Rightarrow> None
      | Some (v, None) \<Rightarrow> Some (v, None)
      | Some (v, Some d) \<Rightarrow> (if know ks \<le> d then Some (v, Some d) else None))"

definition put :: "string \<Rightarrow> rval \<Rightarrow> int option \<Rightarrow> keyspace \<Rightarrow> keyspace" where
  "put k v d ks = ks\<lparr>kmap := fmupd k (v, d) (kmap ks)\<rparr>"

definition drop_key :: "string \<Rightarrow> keyspace \<Rightarrow> keyspace" where
  "drop_key k ks = ks\<lparr>kmap := fmdrop k (kmap ks)\<rparr>"

lemma know_put [simp]: "know (put k v d ks) = know ks"
  by (simp add: put_def)

lemma know_drop [simp]: "know (drop_key k ks) = know ks"
  by (simp add: drop_key_def)

lemma entry_put_same [simp]:
  "entry (put k v d ks) k =
     (case d of None \<Rightarrow> Some (v, None) | Some e \<Rightarrow> if know ks \<le> e then Some (v, Some e) else None)"
  by (simp add: entry_def put_def split: option.splits)

lemma entry_put_other [simp]: "k \<noteq> k' \<Longrightarrow> entry (put k v d ks) k' = entry ks k'"
  by (simp add: entry_def put_def split: option.splits prod.splits)

lemma entry_drop_same [simp]: "entry (drop_key k ks) k = None"
  by (simp add: entry_def drop_key_def)

lemma entry_drop_other [simp]: "k \<noteq> k' \<Longrightarrow> entry (drop_key k ks) k' = entry ks k'"
  by (simp add: entry_def drop_key_def split: option.splits prod.splits)

lemma entry_empty [simp]: "entry (empty_keyspace t) k = None"
  by (simp add: entry_def empty_keyspace_def)

lemma know_empty [simp]: "know (empty_keyspace t) = t"
  by (simp add: empty_keyspace_def)

lemma entry_deadline: "entry ks k = Some (v, Some d) \<Longrightarrow> know ks \<le> d"
  by (auto simp: entry_def split: option.splits prod.splits if_splits)

text \<open>Time passes on the server; keys whose deadline is over are no longer there.\<close>

definition ks_elapse :: "int \<Rightarrow> keyspace \<Rightarrow> keyspace" where
  "ks_elapse d ks = ks\<lparr>know := know ks + d\<rparr>"

lemma know_elapse [simp]: "know (ks_elapse d ks) = know ks + d"
  by (simp add: ks_elapse_def)

lemma entry_elapse:
  "0 \<le> d \<Longrightarrow> entry (ks_elapse d ks) k =
     (case entry ks k of
        None \<Rightarrow> None
      | Some (v, None) \<Rightarrow> Some (v, None)
      | Some (v, Some e) \<Rightarrow> if know ks + d \<le> e then Some (v, Some e) else None)"
  by (auto simp: entry_def ks_elapse_def split: option.splits)

section \<open>The documented commands\<close>

definition ks_ping :: "(keyspace, bool) io" where
  "ks_ping = ret True"

definition ks_get :: "string \<Rightarrow> (keyspace, string option) io" where
  "ks_get k = (\<lambda>ks. case entry ks k of
      None \<Rightarrow> (Inr None, ks)
    | Some (RStr v, d) \<Rightarrow> (Inr (Some v), ks)
    | Some _ \<Rightarrow> (Inl ResponseError, ks))"

definition ks_set :: "string \<Rightarrow> string \<Rightarrow> int option \<Rightarrow> (keyspace, unit) io" where
  "ks_set k v ex = (\<lambda>ks. case ex of
      None \<Rightarrow> (Inr (), put k (RStr v) None ks)
    | Some t \<Rightarrow>
        (if t \<le> 0 then (Inl ResponseError, ks)
         else (Inr (), put k (RStr v) (Some (know ks + t * 1000)) ks)))"

definition ks_delete :: "string \<Rightarrow> (keyspace, int) io" where
  "ks_delete k = (\<lambda>ks. (Inr (if entry ks k = None then 0 else 1), drop_key k ks))"

definition ks_exists :: "string \<Rightarrow> (keyspace, int) io" where
  "ks_exists k = (\<lambda>ks. (Inr (if entry ks k = None then 0 else 1), ks))"

definition string_value :: "keyspace \<Rightarrow> string \<Rightarrow> string option" where
  "string_value ks k = (case entry ks k of Some (RStr v, d) \<Rightarrow> Some v | _ \<Rightarrow> None)"

definition ks_mget :: "string list \<Rightarrow> (keyspace, string option list) io" where
  "ks_mget names = (\<lambda>ks. (Inr (map (string_value ks) names), ks))"

text \<open>INCR wants the canonical decimal form of a signed 64-bit integer.\<close>

definition redis_int :: "string \<Rightarrow> int option" where
  "redis_int v =
     (case py_int v of
        Inl _ \<Rightarrow> None
      | Inr i \<Rightarrow> (if show_int i = v \<and> - (2 ^ 63) \<le> i \<and> i < 2 ^ 63 then Some i else None))"

definition ks_incr :: "string \<Rightarrow> (keyspace, int) io" where
  "ks_incr k = (\<lambda>ks. case entry ks k of
      None \<Rightarrow> (Inr 1, put k (RStr (show_int 1)) None ks)
    | Some (RStr v, d) \<Rightarrow>
        (case redis_int v of
           None \<Rightarrow> (Inl ResponseError, ks)
         | Some i \<Rightarrow>
             (if i + 1 < 2 ^ 63 then (Inr (i + 1), put k (RStr (show_int (i + 1))) d ks)
              else (Inl ResponseError, ks)))
    | Some _ \<Rightarrow> (Inl ResponseError, ks))"

definition ks_expire :: "string \<Rightarrow> int \<Rightarrow> (keyspace, int) io" where
  "ks_expire k t = (\<lambda>ks. case entry ks k of
      None \<Rightarrow> (Inr 0, ks)
    | Some (v, d) \<Rightarrow>
        (if t \<le> 0 then (Inr 1, drop_key k ks)
         else (Inr 1, put k v (Some (know ks + t * 1000)) ks)))"

text \<open>Sorted sets. An empty sorted set is no key at all.\<close>

definition zinsert :: "string \<Rightarrow> int \<Rightarrow> (string \<times> int) list \<Rightarrow> (string \<times> int) list" where
  "zinsert m sc zs = insort_key (\<lambda>(x, c). (c, x)) (m, sc) (filter (\<lambda>(x, c). x \<noteq> m) zs)"

definition put_zset :: "string \<Rightarrow> (string \<times> int) list \<Rightarrow> int option \<Rightarrow> keyspace \<Rightarrow> keyspace" where
  "put_zset k zs d ks = (if zs = [] then drop_key k ks else put k (RZset zs) d ks)"

definition ks_zadd :: "string \<Rightarrow> string \<Rightarrow> int \<Rightarrow> (keyspace, int) io" where
  "ks_zadd k m sc = (\<lambda>ks. case entry ks k of
      None \<Rightarrow> (Inr 1, put k (RZset [(m, sc)]) None ks)
    | Some (RZset zs, d) \<Rightarrow>
        (Inr (if m \<in> fst ` set zs then 0 else 1), put k (RZset (zinsert m sc zs)) d ks)
    | Some _ \<Rightarrow> (Inl ResponseError, ks))"

definition ks_zremrangebyscore :: "string \<Rightarrow> int \<Rightarrow> int \<Rightarrow> (keyspace, int) io" where
  "ks_zremrangebyscore k lo hi = (\<lambda>ks. case entry ks k of
      None \<Rightarrow> (Inr 0, ks)
    | Some (RZset zs, d) \<Rightarrow>
        (let keep = filter (\<lambda>(x, c). \<not> (lo \<le> c \<and> c \<le> hi)) zs
         in (Inr (int (length zs) - int (length keep)), put_zset k keep d ks))
    | Some _ \<Rightarrow> (Inl ResponseError, ks))"

definition ks_zcard :: "string \<Rightarrow> (keyspace, int) io" where
  "ks_zcard k = (\<lambda>ks. case entry ks k of
      None \<Rightarrow> (Inr 0, ks)
    | Some (RZset zs, d) \<Rightarrow> (Inr (int (length zs)), ks)
    | Some _ \<Rightarrow> (Inl ResponseError, ks))"

text \<open>
  Ranks: negative ones count from the end (\<open>-1\<close> is the last), the range is inclusive, a start
  before the first is the first, a stop after the last is the last.
\<close>

definition rank_range :: "nat \<Rightarrow> int \<Rightarrow> int \<Rightarrow> nat \<times> nat" where
  "rank_range n start stop =
     (let i = (if start < 0 then max 0 (int n + start) else start);
          j = (if stop < 0 then int n + stop else min stop (int n - 1))
      in if i \<le> j then (nat i, nat (j - i + 1)) else (0, 0))"

definition ks_zremrangebyrank :: "string \<Rightarrow> int \<Rightarrow> int \<Rightarrow> (keyspace, int) io" where
  "ks_zremrangebyrank k start stop = (\<lambda>ks. case entry ks k of
      None \<Rightarrow> (Inr 0, ks)
    | Some (RZset zs, d) \<Rightarrow>
        (case rank_range (length zs) start stop of
           (i, n) \<Rightarrow> (Inr (int n), put_zset k (take i zs @ drop (i + n) zs) d ks))
    | Some _ \<Rightarrow> (Inl ResponseError, ks))"

definition ks_zrange :: "string \<Rightarrow> int \<Rightarrow> int \<Rightarrow> (keyspace, (string \<times> int) list) io" where
  "ks_zrange k start stop = (\<lambda>ks. case entry ks k of
      None \<Rightarrow> (Inr [], ks)
    | Some (RZset zs, d) \<Rightarrow>
        (case rank_range (length zs) start stop of (i, n) \<Rightarrow> (Inr (take n (drop i zs)), ks))
    | Some _ \<Rightarrow> (Inl ResponseError, ks))"

definition ks_sadd :: "string \<Rightarrow> string \<Rightarrow> (keyspace, int) io" where
  "ks_sadd k m = (\<lambda>ks. case entry ks k of
      None \<Rightarrow> (Inr 1, put k (RSet {|m|}) None ks)
    | Some (RSet S, d) \<Rightarrow> (Inr (if m |\<in>| S then 0 else 1), put k (RSet (finsert m S)) d ks)
    | Some _ \<Rightarrow> (Inl ResponseError, ks))"

text \<open>The members of a set, and the live keys that match a glob pattern (\<open>*\<close> and \<open>?\<close>).\<close>

definition set_members :: "keyspace \<Rightarrow> string \<Rightarrow> string fset option" where
  "set_members ks k = (case entry ks k of
      None \<Rightarrow> Some {||} | Some (RSet S, d) \<Rightarrow> Some S | Some _ \<Rightarrow> None)"

fun glob :: "string \<Rightarrow> string \<Rightarrow> bool" where
  "glob [] s = (s = [])"
| "glob (p # ps) [] = (p = CHR ''*'' \<and> glob ps [])"
| "glob (p # ps) (c # cs) =
     (if p = CHR ''*'' then glob ps (c # cs) \<or> glob (p # ps) cs
      else (p = CHR ''?'' \<or> p = c) \<and> glob ps cs)"

definition live_keys :: "keyspace \<Rightarrow> string \<Rightarrow> string fset" where
  "live_keys ks pat = ffilter (\<lambda>k. entry ks k \<noteq> None \<and> glob pat k) (fmdom (kmap ks))"

definition ks_smembers :: "string \<Rightarrow> (keyspace, string list) io" where
  "ks_smembers k = (\<lambda>ks. case set_members ks k of
      None \<Rightarrow> (Inl ResponseError, ks)
    | Some S \<Rightarrow> (Inr (sorted_list_of_fset S), ks))"

definition ks_scan_iter :: "string \<Rightarrow> (keyspace, string list) io" where
  "ks_scan_iter pat = (\<lambda>ks. (Inr (sorted_list_of_fset (live_keys ks pat)), ks))"

section \<open>The client's interface and its contract\<close>

record 'r redis =
  r_ping :: "('r, bool) io"
  r_get :: "string \<Rightarrow> ('r, string option) io"
  r_set :: "string \<Rightarrow> string \<Rightarrow> int option \<Rightarrow> ('r, unit) io"
  r_delete :: "string \<Rightarrow> ('r, int) io"
  r_exists :: "string \<Rightarrow> ('r, int) io"
  r_mget :: "string list \<Rightarrow> ('r, string option list) io"
  r_incr :: "string \<Rightarrow> ('r, int) io"
  r_expire :: "string \<Rightarrow> int \<Rightarrow> ('r, int) io"
  r_zadd :: "string \<Rightarrow> string \<Rightarrow> int \<Rightarrow> ('r, int) io"
  r_zremrangebyscore :: "string \<Rightarrow> int \<Rightarrow> int \<Rightarrow> ('r, int) io"
  r_zcard :: "string \<Rightarrow> ('r, int) io"
  r_zremrangebyrank :: "string \<Rightarrow> int \<Rightarrow> int \<Rightarrow> ('r, int) io"
  r_zrange :: "string \<Rightarrow> int \<Rightarrow> int \<Rightarrow> ('r, (string \<times> int) list) io"
  r_sadd :: "string \<Rightarrow> string \<Rightarrow> ('r, int) io"
  r_smembers :: "string \<Rightarrow> ('r, string list) io"
  r_scan_iter :: "string \<Rightarrow> ('r, string list) io"

definition ks_redis :: "keyspace redis" where
  "ks_redis =
     \<lparr>r_ping = ks_ping, r_get = ks_get, r_set = ks_set, r_delete = ks_delete,
      r_exists = ks_exists, r_mget = ks_mget, r_incr = ks_incr, r_expire = ks_expire,
      r_zadd = ks_zadd, r_zremrangebyscore = ks_zremrangebyscore, r_zcard = ks_zcard,
      r_zremrangebyrank = ks_zremrangebyrank, r_zrange = ks_zrange, r_sadd = ks_sadd,
      r_smembers = ks_smembers, r_scan_iter = ks_scan_iter\<rparr>"

lemma ks_redis_sel [simp]:
  "r_ping ks_redis = ks_ping" "r_get ks_redis = ks_get" "r_set ks_redis = ks_set"
  "r_delete ks_redis = ks_delete" "r_exists ks_redis = ks_exists" "r_mget ks_redis = ks_mget"
  "r_incr ks_redis = ks_incr" "r_expire ks_redis = ks_expire" "r_zadd ks_redis = ks_zadd"
  "r_zremrangebyscore ks_redis = ks_zremrangebyscore" "r_zcard ks_redis = ks_zcard"
  "r_zremrangebyrank ks_redis = ks_zremrangebyrank" "r_zrange ks_redis = ks_zrange"
  "r_sadd ks_redis = ks_sadd" "r_smembers ks_redis = ks_smembers"
  "r_scan_iter ks_redis = ks_scan_iter"
  by (simp_all add: ks_redis_def)

text \<open>
  A healthy server: there is a view of its state as a keyspace, and every command answers and
  changes the view as documented. SMEMBERS answers the members in some order, SCAN every live
  matching key at least once (the documentation allows repetitions).
\<close>

locale redis_server =
  fixes R :: "'r redis" and view :: "'r \<Rightarrow> keyspace"
  assumes ping_law: "simulates view (r_ping R) ks_ping"
    and get_law: "simulates view (r_get R k) (ks_get k)"
    and set_law: "simulates view (r_set R k v ex) (ks_set k v ex)"
    and delete_law: "simulates view (r_delete R k) (ks_delete k)"
    and exists_law: "simulates view (r_exists R k) (ks_exists k)"
    and mget_law: "simulates view (r_mget R names) (ks_mget names)"
    and incr_law: "simulates view (r_incr R k) (ks_incr k)"
    and expire_law: "simulates view (r_expire R k t) (ks_expire k t)"
    and zadd_law: "simulates view (r_zadd R k m sc) (ks_zadd k m sc)"
    and zremrangebyscore_law:
      "simulates view (r_zremrangebyscore R k lo hi) (ks_zremrangebyscore k lo hi)"
    and zcard_law: "simulates view (r_zcard R k) (ks_zcard k)"
    and zremrangebyrank_law:
      "simulates view (r_zremrangebyrank R k start stop) (ks_zremrangebyrank k start stop)"
    and zrange_law: "simulates view (r_zrange R k start stop) (ks_zrange k start stop)"
    and sadd_law: "simulates view (r_sadd R k m) (ks_sadd k m)"
    and smembers_law:
      "(case set_members (view s) k of
          None \<Rightarrow> \<exists>s'. r_smembers R k s = (Inl ResponseError, s') \<and> view s' = view s
        | Some S \<Rightarrow> \<exists>l s'. r_smembers R k s = (Inr l, s') \<and> view s' = view s \<and>
                          distinct l \<and> set l = fset S)"
    and scan_law:
      "\<exists>l s'. r_scan_iter R pat s = (Inr l, s') \<and> view s' = view s \<and>
              set l = fset (live_keys (view s) pat)"
begin

lemmas command_laws [sim_intros] =
  ping_law get_law set_law delete_law exists_law mget_law incr_law expire_law zadd_law
  zremrangebyscore_law zcard_law zremrangebyrank_law zrange_law sadd_law

end

locale timed_redis = redis_server R view
  for R :: "'r redis" and view :: "'r \<Rightarrow> keyspace" +
  fixes elapse :: "int \<Rightarrow> 'r \<Rightarrow> 'r"
  assumes elapse_law: "0 \<le> d \<Longrightarrow> view (elapse d s) = ks_elapse d (view s)"

interpretation ref: timed_redis ks_redis "\<lambda>ks. ks" ks_elapse
proof unfold_locales
  fix s k
  show "case set_members s k of
          None \<Rightarrow> \<exists>s'. r_smembers ks_redis k s = (Inl ResponseError, s') \<and> s' = s
        | Some S \<Rightarrow> \<exists>l s'. r_smembers ks_redis k s = (Inr l, s') \<and> s' = s \<and>
                          distinct l \<and> set l = fset S"
    by (simp add: ks_smembers_def sorted_list_of_fset.rep_eq split: option.splits)
next
  fix pat s
  show "\<exists>l s'. r_scan_iter ks_redis pat s = (Inr l, s') \<and> s' = s \<and>
               set l = fset (live_keys s pat)"
    by (simp add: ks_scan_iter_def)
qed (simp_all add: sim_id)

lemma redis_server_ks: "redis_server ks_redis (\<lambda>ks. ks)"
  by (rule ref.redis_server_axioms)

lemma timed_redis_ks: "timed_redis ks_redis (\<lambda>ks. ks) ks_elapse"
  by (rule ref.timed_redis_axioms)

section \<open>Pipelines\<close>

text \<open>
  \<open>pipe.execute()\<close>: every queued command runs; the first error among the replies is raised
  afterwards, so a failing command does not undo or stop the others.
\<close>

fun run_all :: "('s, 'a) io list \<Rightarrow> 's \<Rightarrow> (exn + 'a) list \<times> 's" where
  "run_all [] s = ([], s)"
| "run_all (c # cs) s = (case c s of (r, s') \<Rightarrow> (case run_all cs s' of (rs, t) \<Rightarrow> (r # rs, t)))"

fun collect :: "(exn + 'a) list \<Rightarrow> exn + 'a list" where
  "collect [] = Inr []"
| "collect (Inl e # rs) = Inl e"
| "collect (Inr x # rs) = (case collect rs of Inl e \<Rightarrow> Inl e | Inr xs \<Rightarrow> Inr (x # xs))"

definition pipe_execute :: "('s, 'a) io list \<Rightarrow> ('s, 'a list) io" where
  "pipe_execute cs = (\<lambda>s. case run_all cs s of (rs, t) \<Rightarrow> (collect rs, t))"

lemma sim_run_all:
  "list_all2 (simulates view) ms ns \<Longrightarrow> run_all ns (view s) = map_prod id view (run_all ms s)"
proof (induction arbitrary: s rule: list_all2_induct)
  case (Cons m ms n ns)
  then show ?case by (auto simp: simulates_def split: prod.splits)
qed simp

lemma sim_pipe [sim_intros]: "list_all2 (simulates view) ms ns \<Longrightarrow> simulates view (pipe_execute ms) (pipe_execute ns)"
  by (auto simp: simulates_def pipe_execute_def sim_run_all split: prod.splits)

lemma sim_pipe_Nil [sim_intros]: "list_all2 (simulates view) [] []"
  by simp

lemma sim_pipe_Cons [sim_intros]:
  "simulates view m n \<Longrightarrow> list_all2 (simulates view) ms ns \<Longrightarrow>
   list_all2 (simulates view) (m # ms) (n # ns)"
  by simp

section \<open>Sorted sets as lists\<close>

definition zset_at :: "keyspace \<Rightarrow> string \<Rightarrow> (string \<times> int) list" where
  "zset_at ks k = (case entry ks k of Some (RZset zs, d) \<Rightarrow> zs | _ \<Rightarrow> [])"

lemma zinsert_new:
  assumes "m \<notin> fst ` set zs"
  shows "set (zinsert m t zs) = insert (m, t) (set zs)"
    and "length (zinsert m t zs) = Suc (length zs)"
    and "distinct (map fst zs) \<Longrightarrow> distinct (map fst (zinsert m t zs))"
proof -
  let ?f = "\<lambda>(x, c). (c, x)"
  have f: "filter (\<lambda>(x, c). x \<noteq> m) zs = zs"
    using assms by (force simp: filter_id_conv)
  then have z: "zinsert m t zs = insort_key ?f (m, t) zs"
    by (simp add: zinsert_def)
  then show "set (zinsert m t zs) = insert (m, t) (set zs)"
    and "length (zinsert m t zs) = Suc (length zs)"
    by (simp_all add: set_insort_key)
  have d: "distinct (map fst (insort_key ?f (m, t) ys))"
    if "distinct (map fst ys)" "m \<notin> fst ` set ys" for ys
    using that by (induction ys) (auto simp: set_insort_key)
  show "distinct (map fst (zinsert m t zs))" if "distinct (map fst zs)"
    using d [OF that assms] by (simp add: z)
qed

lemma insort_key_last:
  "\<forall>y \<in> set xs. f y < f x \<Longrightarrow> insort_key f x xs = xs @ [x]"
  by (induction xs) (auto dest: leD)

text \<open>A new member with the highest score goes to the end.\<close>

lemma zinsert_last:
  assumes "\<And>x c. (x, c) \<in> set zs \<Longrightarrow> x \<noteq> m \<and> c < t"
  shows "zinsert m t zs = zs @ [(m, t)]"
proof -
  have "filter (\<lambda>(x, c). x \<noteq> m) zs = zs"
    using assms by (auto simp: filter_id_conv)
  then show ?thesis
    using assms unfolding zinsert_def
    by (simp add: case_prod_beta) (rule insort_key_last, auto simp: less_prod_def')
qed

text \<open>\<open>ZREMRANGEBYRANK k 0 -(n+1)\<close> keeps the last \<open>n\<close>; \<open>ZRANGE k 0 -1\<close> is everything.\<close>

lemma rank_range_keep_last:
  "rank_range n 0 (- (int m + 1)) = (0, n - m)"
  by (auto simp: rank_range_def Let_def)

lemma rank_range_all: "rank_range n 0 (-1) = (0, n)"
  by (auto simp: rank_range_def Let_def)

end
