(* ===== verification/RateLimiter.thy ===== *)
theory RateLimiter
  imports RedisModel
begin

text \<open>
  app/services/rate_limiter.py: the sliding-window Lua script and \<open>check_rate_limit\<close>. The
  abstract specification is a log of the accepted requests of each client: a request is accepted
  when fewer than \<open>limit\<close> accepted ones lie in the window before it. The script, with its
  sorted set, its lazy clean-up and its key expiry, refines that log.
\<close>

section \<open>The code\<close>

text \<open>
  The Lua script. \<open>redis.call\<close> aborts the script on an error reply; the calls before it stay.
\<close>

definition sliding_window_script ::
  "'r redis \<Rightarrow> string \<Rightarrow> int \<Rightarrow> int \<Rightarrow> int \<Rightarrow> string \<Rightarrow> ('r, int \<times> int) io" where
  "sliding_window_script R key now window limit request_id =
     bind (r_zremrangebyscore R key 0 (now - window * 1000)) (\<lambda>_.
     bind (r_zcard R key) (\<lambda>count.
     if count < limit then
       bind (r_zadd R key request_id now) (\<lambda>_.
       bind (r_expire R key (window + 1)) (\<lambda>_.
       ret (1, limit - count - 1)))
     else ret (0, 0)))"

definition rate_key :: "string \<Rightarrow> string" where
  "rate_key client_id = ''rate_limit:'' @ client_id"

definition rate_request_id :: "int \<Rightarrow> string \<Rightarrow> string" where
  "rate_request_id now client_id = show_int now @ ''-'' @ client_id"

text \<open>\<open>now\<close> is the reading \<open>int(time.time() * 1000)\<close> of the gateway's clock.\<close>

definition check_rate_limit ::
  "'r redis \<Rightarrow> int \<Rightarrow> string \<Rightarrow> int \<Rightarrow> int \<Rightarrow> ('r, bool \<times> int) io" where
  "check_rate_limit R now client_id limit window_seconds =
     bind (sliding_window_script R (rate_key client_id) now window_seconds limit
             (rate_request_id now client_id)) (\<lambda>result.
     ret (fst result \<noteq> 0, snd result))"

text \<open>
  A run: each event lets server time pass and then serves one request of a client, on any
  instance of the gateway, whose clock reads \<open>now\<close>.
\<close>

type_synonym rl_event = "int \<times> string \<times> int"

fun serve ::
  "'r redis \<Rightarrow> (int \<Rightarrow> 'r \<Rightarrow> 'r) \<Rightarrow> int \<Rightarrow> int \<Rightarrow> rl_event list \<Rightarrow> 'r \<Rightarrow> (exn + bool \<times> int) list" where
  "serve R elapse limit W [] s = []"
| "serve R elapse limit W ((dt, c, now) # es) s =
     (case check_rate_limit R now c limit W (elapse dt s) of
        (r, s') \<Rightarrow> r # serve R elapse limit W es s')"

section \<open>The specification: a log of accepted requests per client\<close>

definition in_window :: "int \<Rightarrow> int \<Rightarrow> int list \<Rightarrow> int list" where
  "in_window W now log = filter (\<lambda>t. now - W * 1000 < t) log"

definition log_step :: "int \<Rightarrow> int \<Rightarrow> int list \<Rightarrow> int \<Rightarrow> (bool \<times> int) \<times> int list" where
  "log_step limit W log now =
     (let n = int (length (in_window W now log))
      in if n < limit then ((True, limit - n - 1), now # log) else ((False, 0), log))"

fun log_serve :: "int \<Rightarrow> int \<Rightarrow> rl_event list \<Rightarrow> (string \<Rightarrow> int list) \<Rightarrow> (bool \<times> int) list" where
  "log_serve limit W [] L = []"
| "log_serve limit W ((dt, c, now) # es) L =
     (case log_step limit W (L c) now of
        (r, l) \<Rightarrow> r # log_serve limit W es (L(c := l)))"

text \<open>
  The schedules the refinement is about: server time does not run backwards, gateway clocks stay
  within half a second of it, and no two requests of one client share a millisecond.
\<close>

fun schedule_ok :: "int \<Rightarrow> (string \<Rightarrow> int) \<Rightarrow> rl_event list \<Rightarrow> bool" where
  "schedule_ok t prev [] = True"
| "schedule_ok t prev ((dt, c, now) # es) =
     (0 \<le> dt \<and> 0 \<le> now \<and> \<bar>now - (t + dt)\<bar> \<le> 500 \<and> prev c < now \<and>
      schedule_ok (t + dt) (prev(c := now)) es)"

section \<open>Keys and members\<close>

lemma rate_key_inj [simp]: "rate_key a = rate_key b \<longleftrightarrow> a = b"
  by (simp add: rate_key_def)

lemma rate_request_id_inj [simp]: "rate_request_id t c = rate_request_id u c \<longleftrightarrow> t = u"
  by (simp add: rate_request_id_def)

section \<open>One call of the script on a keyspace\<close>

definition zset_key :: "keyspace \<Rightarrow> string \<Rightarrow> bool" where
  "zset_key ks k = (case entry ks k of None \<Rightarrow> True | Some (RZset zs, Some d) \<Rightarrow> True | _ \<Rightarrow> False)"

lemma zset_keyE:
  assumes "zset_key ks k"
  obtains (absent) "entry ks k = None"
    | (present) zs d where "entry ks k = Some (RZset zs, Some d)" "know ks \<le> d" "zset_at ks k = zs"
proof (cases "entry ks k")
  case (Some e)
  obtain v d where e: "e = (v, d)" by (cases e)
  with Some assms obtain zs d' where "v = RZset zs" "d = Some d'"
    by (cases v; cases d) (auto simp: zset_key_def)
  with Some e entry_deadline [of ks k "RZset zs" d'] show thesis
    by (intro present) (simp_all add: zset_at_def)
qed (rule absent)

definition unexpired :: "int \<Rightarrow> int \<Rightarrow> (string \<times> int) list \<Rightarrow> (string \<times> int) list" where
  "unexpired now W zs = filter (\<lambda>(x, t). \<not> (0 \<le> t \<and> t \<le> now - W * 1000)) zs"

text \<open>The two halves of the script: cleaning up, then counting and recording.\<close>

lemma clean_up:
  assumes "zset_key ks k"
  obtains n ks1 where
    "ks_zremrangebyscore k 0 (now - W * 1000) ks = (Inr n, ks1)"
    and "know ks1 = know ks"
    and "zset_key ks1 k" and "zset_at ks1 k = unexpired now W (zset_at ks k)"
    and "\<And>zs d. entry ks1 k = Some (zs, d) \<Longrightarrow> \<exists>zs'. entry ks k = Some (zs', d)"
    and "\<And>k'. k' \<noteq> k \<Longrightarrow> entry ks1 k' = entry ks k'"
  using assms
proof (cases rule: zset_keyE)
  case absent
  then show thesis
    by (intro that [of 0 ks])
      (simp_all add: ks_zremrangebyscore_def zset_at_def unexpired_def zset_key_def)
next
  case (present zs d)
  let ?keep = "unexpired now W zs"
  let ?ks1 = "put_zset k ?keep (Some d) ks"
  have "ks_zremrangebyscore k 0 (now - W * 1000) ks
          = (Inr (int (length zs) - int (length ?keep)), ?ks1)"
    by (simp add: ks_zremrangebyscore_def present(1) unexpired_def Let_def)
  moreover have "know ?ks1 = know ks" and "zset_key ?ks1 k" and "zset_at ?ks1 k = ?keep"
    using present(2) by (auto simp: put_zset_def zset_key_def zset_at_def)
  moreover have "\<exists>zs'. entry ks k = Some (zs', d')" if "entry ?ks1 k = Some (v, d')" for v d'
    using that present by (auto simp: put_zset_def split: if_splits)
  moreover have "entry ?ks1 k' = entry ks k'" if "k' \<noteq> k" for k'
    using that by (simp add: put_zset_def)
  ultimately show thesis
    using present(3) that by auto
qed

lemma zcard_run: "zset_key ks k \<Longrightarrow> ks_zcard k ks = (Inr (int (length (zset_at ks k))), ks)"
  by (erule zset_keyE) (simp_all add: ks_zcard_def zset_at_def)

lemma record_run:
  assumes "zset_key ks k" and "0 \<le> W"
  obtains n m ks1 ks2 where "ks_zadd k rid now ks = (Inr n, ks1)"
    and "ks_expire k (W + 1) ks1 = (Inr m, ks2)"
    and "know ks2 = know ks"
    and "entry ks2 k = Some (RZset (zinsert rid now (zset_at ks k)), Some (know ks + (W + 1) * 1000))"
    and "\<And>k'. k' \<noteq> k \<Longrightarrow> entry ks2 k' = entry ks k'"
proof -
  let ?zs = "zinsert rid now (zset_at ks k)"
  have 1: "\<exists>n d. ks_zadd k rid now ks = (Inr n, put k (RZset ?zs) d ks) \<and>
             entry (put k (RZset ?zs) d ks) k = Some (RZset ?zs, d)"
    using assms(1)
    by (cases rule: zset_keyE) (auto simp: ks_zadd_def zset_at_def zinsert_def)
  then obtain n d where z: "ks_zadd k rid now ks = (Inr n, put k (RZset ?zs) d ks)"
    and e: "entry (put k (RZset ?zs) d ks) k = Some (RZset ?zs, d)"
    by blast
  have x: "ks_expire k (W + 1) (put k (RZset ?zs) d ks) =
      (Inr 1, put k (RZset ?zs) (Some (know ks + (W + 1) * 1000)) (put k (RZset ?zs) d ks))"
    using assms(2) e by (simp add: ks_expire_def)
  show thesis
    by (rule that [OF z x]) (use assms(2) in simp_all)
qed

lemma script_accept:
  assumes k: "zset_key ks k" and W: "0 \<le> W"
    and n: "int (length (unexpired now W (zset_at ks k))) < limit"
  obtains ks' where
    "sliding_window_script ks_redis k now W limit rid ks =
       (Inr (1, limit - int (length (unexpired now W (zset_at ks k))) - 1), ks')"
    and "know ks' = know ks"
    and "entry ks' k = Some (RZset (zinsert rid now (unexpired now W (zset_at ks k))),
                             Some (know ks + (W + 1) * 1000))"
    and "\<And>k'. k' \<noteq> k \<Longrightarrow> entry ks' k' = entry ks k'"
proof -
  obtain a ks1 where c: "ks_zremrangebyscore k 0 (now - W * 1000) ks = (Inr a, ks1)"
    and c1: "know ks1 = know ks" "zset_key ks1 k" "zset_at ks1 k = unexpired now W (zset_at ks k)"
    and c2: "\<And>k'. k' \<noteq> k \<Longrightarrow> entry ks1 k' = entry ks k'"
    using clean_up [OF k] by metis
  obtain b d ks2 ks3 where r: "ks_zadd k rid now ks1 = (Inr b, ks2)"
      "ks_expire k (W + 1) ks2 = (Inr d, ks3)"
    and r1: "know ks3 = know ks1"
      "entry ks3 k = Some (RZset (zinsert rid now (zset_at ks1 k)), Some (know ks1 + (W + 1) * 1000))"
    and r2: "\<And>k'. k' \<noteq> k \<Longrightarrow> entry ks3 k' = entry ks1 k'"
    using record_run [OF c1(2) W] by metis
  have "sliding_window_script ks_redis k now W limit rid ks =
       (Inr (1, limit - int (length (unexpired now W (zset_at ks k))) - 1), ks3)"
    using n by (simp add: sliding_window_script_def c c1 zcard_run r io_simps)
  then show thesis
    by (rule that) (simp_all add: c1 r1 r2 c2)
qed

lemma script_reject:
  assumes k: "zset_key ks k" and n: "\<not> int (length (unexpired now W (zset_at ks k))) < limit"
  obtains ks' where
    "sliding_window_script ks_redis k now W limit rid ks = (Inr (0, 0), ks')"
    and "know ks' = know ks" and "zset_key ks' k"
    and "zset_at ks' k = unexpired now W (zset_at ks k)"
    and "\<And>zs d. entry ks' k = Some (zs, d) \<Longrightarrow> \<exists>zs'. entry ks k = Some (zs', d)"
    and "\<And>k'. k' \<noteq> k \<Longrightarrow> entry ks' k' = entry ks k'"
proof -
  obtain a ks1 where c: "ks_zremrangebyscore k 0 (now - W * 1000) ks = (Inr a, ks1)"
    and c1: "know ks1 = know ks" "zset_key ks1 k" "zset_at ks1 k = unexpired now W (zset_at ks k)"
    and c2: "\<And>zs d. entry ks1 k = Some (zs, d) \<Longrightarrow> \<exists>zs'. entry ks k = Some (zs', d)"
    and c3: "\<And>k'. k' \<noteq> k \<Longrightarrow> entry ks1 k' = entry ks k'"
    using clean_up [OF k] by metis
  have "sliding_window_script ks_redis k now W limit rid ks = (Inr (0, 0), ks1)"
    using n by (simp add: sliding_window_script_def c c1 zcard_run io_simps)
  then show thesis
    by (rule that) (use c1 c2 c3 in auto)
qed

section \<open>The invariant that ties a client's sorted set to its log\<close>

definition log_inv :: "int \<Rightarrow> keyspace \<Rightarrow> string \<Rightarrow> int \<Rightarrow> int list \<Rightarrow> bool" where
  "log_inv W ks c prev H \<longleftrightarrow>
     zset_key ks (rate_key c) \<and>
     distinct (map fst (zset_at ks (rate_key c))) \<and>
     (\<forall>(m, t) \<in> set (zset_at ks (rate_key c)). m = rate_request_id t c \<and> t \<in> set H) \<and>
     distinct H \<and>
     (\<forall>t \<in> set H. 0 \<le> t \<and> t \<le> prev \<and> t \<le> know ks + 500) \<and>
     (\<forall>t \<in> set H. (rate_request_id t c, t) \<in> set (zset_at ks (rate_key c)) \<or>
                  t + W * 1000 \<le> max prev (know ks - 500)) \<and>
     (\<forall>v d. entry ks (rate_key c) = Some (v, Some d) \<longrightarrow> (\<forall>t \<in> set H. t + W * 1000 + 500 \<le> d))"

lemma log_invD:
  assumes "log_inv W ks c prev H"
  shows "zset_key ks (rate_key c)"
    and "distinct (map fst (zset_at ks (rate_key c)))"
    and "(m, t) \<in> set (zset_at ks (rate_key c)) \<Longrightarrow> m = rate_request_id t c"
    and "(m, t) \<in> set (zset_at ks (rate_key c)) \<Longrightarrow> t \<in> set H"
    and "distinct H"
    and "t \<in> set H \<Longrightarrow> 0 \<le> t" and "t \<in> set H \<Longrightarrow> t \<le> prev"
    and "t \<in> set H \<Longrightarrow> t \<le> know ks + 500"
    and "t \<in> set H \<Longrightarrow> (rate_request_id t c, t) \<in> set (zset_at ks (rate_key c)) \<or>
                      t + W * 1000 \<le> max prev (know ks - 500)"
    and "entry ks (rate_key c) = Some (v, Some d) \<Longrightarrow> t \<in> set H \<Longrightarrow> t + W * 1000 + 500 \<le> d"
  using assms by (auto simp: log_inv_def)

lemma log_invI:
  assumes "zset_key ks (rate_key c)"
    and "distinct (map fst (zset_at ks (rate_key c)))"
    and "\<And>m t. (m, t) \<in> set (zset_at ks (rate_key c)) \<Longrightarrow> m = rate_request_id t c \<and> t \<in> set H"
    and "distinct H"
    and "\<And>t. t \<in> set H \<Longrightarrow> 0 \<le> t \<and> t \<le> prev \<and> t \<le> know ks + 500"
    and "\<And>t. t \<in> set H \<Longrightarrow> (rate_request_id t c, t) \<in> set (zset_at ks (rate_key c)) \<or>
           t + W * 1000 \<le> max prev (know ks - 500)"
    and "\<And>v d t. entry ks (rate_key c) = Some (v, Some d) \<Longrightarrow> t \<in> set H \<Longrightarrow> t + W * 1000 + 500 \<le> d"
  shows "log_inv W ks c prev H"
  unfolding log_inv_def using assms by blast

lemma log_inv_init: "entry ks (rate_key c) = None \<Longrightarrow> log_inv W ks c prev []"
  by (simp add: log_inv_def zset_key_def zset_at_def)

lemma log_inv_frame:
  "log_inv W ks c prev H \<Longrightarrow> entry ks' (rate_key c) = entry ks (rate_key c) \<Longrightarrow>
   know ks' = know ks \<Longrightarrow> log_inv W ks' c prev H"
  by (simp add: log_inv_def zset_key_def zset_at_def)

text \<open>A key whose deadline has passed held no entry that can still be in a window.\<close>

lemma log_inv_elapse:
  assumes inv: "log_inv W ks c prev H" and d: "0 \<le> d"
  shows "log_inv W (ks_elapse d ks) c prev H"
proof (cases rule: zset_keyE [OF log_invD(1) [OF inv]])
  case 1
  then have "entry (ks_elapse d ks) (rate_key c) = None"
    by (simp add: entry_elapse d)
  with 1 inv d show ?thesis
    by (fastforce simp: log_inv_def zset_key_def zset_at_def)
next
  case (2 zs e)
  show ?thesis
  proof (cases "know ks + d \<le> e")
    case True
    with 2 have "entry (ks_elapse d ks) (rate_key c) = entry ks (rate_key c)"
      by (simp add: entry_elapse d)
    with inv d show ?thesis
      by (fastforce simp: log_inv_def zset_key_def zset_at_def)
  next
    case False
    with 2 have n: "entry (ks_elapse d ks) (rate_key c) = None"
      by (simp add: entry_elapse d)
    have "t + W * 1000 \<le> know ks + d - 500" if "t \<in> set H" for t
      using log_invD(10) [OF inv 2(1) that] False by linarith
    with n inv d show ?thesis
      by (fastforce simp: log_inv_def zset_key_def zset_at_def)
  qed
qed

lemma distinct_ids_distinct_times:
  assumes "distinct (map fst zs)" and "\<And>m t. (m, t) \<in> set zs \<Longrightarrow> m = rate_request_id t c"
  shows "distinct (map snd zs)"
proof -
  have "map fst zs = map (\<lambda>t. rate_request_id t c) (map snd zs)"
    using assms(2) by auto
  with assms(1) show ?thesis
    by (metis distinct_map)
qed

text \<open>What the script counts is what lies in the window of the log.\<close>

lemma log_inv_count:
  assumes inv: "log_inv W ks c prev H" and now: "prev < now" "know ks - 500 \<le> now"
  shows "length (unexpired now W (zset_at ks (rate_key c))) = length (in_window W now H)"
proof -
  let ?zs = "zset_at ks (rate_key c)"
  let ?keep = "unexpired now W ?zs"
  note D = log_invD [OF inv]
  have "distinct (map snd ?zs)"
    using distinct_ids_distinct_times [OF D(2)] D(3) by blast
  then have "distinct (map snd ?keep)"
    by (simp add: unexpired_def distinct_map_filter)
  then have "length ?keep = card (set (map snd ?keep))"
    by (metis distinct_card length_map)
  also have "set (map snd ?keep) = set (in_window W now H)"
  proof (intro set_eqI iffI)
    fix t
    assume "t \<in> set (map snd ?keep)"
    then obtain m where "(m, t) \<in> set ?zs" and "\<not> (0 \<le> t \<and> t \<le> now - W * 1000)"
      by (auto simp: unexpired_def)
    with D(4) D(6) show "t \<in> set (in_window W now H)"
      by (fastforce simp: in_window_def)
  next
    fix t
    assume "t \<in> set (in_window W now H)"
    then have t: "t \<in> set H" "now - W * 1000 < t"
      by (simp_all add: in_window_def)
    then have "(rate_request_id t c, t) \<in> set ?zs"
      using D(9) [OF t(1)] now by linarith
    then show "t \<in> set (map snd ?keep)"
      using t(2) by (force simp: unexpired_def)
  qed
  also have "card (set (in_window W now H)) = length (in_window W now H)"
    by (rule distinct_card) (simp add: in_window_def D(5))
  finally show ?thesis .
qed

lemma log_inv_accept:
  assumes inv: "log_inv W ks c prev H" and now: "prev < now" "0 \<le> now" "\<bar>now - know ks\<bar> \<le> 500"
    and e: "entry ks' (rate_key c) =
      Some (RZset (zinsert (rate_request_id now c) now (unexpired now W (zset_at ks (rate_key c)))),
            Some (know ks + (W + 1) * 1000))"
    and k: "know ks' = know ks"
  shows "log_inv W ks' c now (now # H)"
proof -
  let ?keep = "unexpired now W (zset_at ks (rate_key c))"
  note D = log_invD [OF inv]
  have sub: "set ?keep \<subseteq> set (zset_at ks (rate_key c))"
    by (auto simp: unexpired_def)
  have notin: "now \<notin> set H"
    using D(7) now(1) by fastforce
  then have new: "rate_request_id now c \<notin> fst ` set ?keep"
    using D(3) D(4) sub by fastforce
  have at: "zset_at ks' (rate_key c) = zinsert (rate_request_id now c) now ?keep"
    by (simp add: zset_at_def e)
  have "distinct (map fst ?keep)"
    using D(2) by (simp add: unexpired_def distinct_map_filter)
  then have d: "distinct (map fst (zset_at ks' (rate_key c)))"
    unfolding at by (rule zinsert_new(3) [OF new])
  have s: "set (zset_at ks' (rate_key c)) = insert (rate_request_id now c, now) (set ?keep)"
    unfolding at by (rule zinsert_new(1) [OF new])
  have stored: "(rate_request_id t c, t) \<in> set ?keep \<or> t + W * 1000 \<le> max now (know ks - 500)"
    if "t \<in> set H" for t
    using D(9) [OF that] now by (force simp: unexpired_def)
  have bound: "t \<le> know ks + 500" if "t \<in> set H" for t
    using D(8) [OF that] .
  have prev: "t \<le> now" "0 \<le> t" if "t \<in> set H" for t
    using D(6,7) [OF that] now(1) by auto
  have mem: "m = rate_request_id t c" "t \<in> set H" if "(m, t) \<in> set ?keep" for m t
    using sub that D(3,4) by blast+
  show ?thesis
  proof (rule log_invI)
    show "m = rate_request_id t c \<and> t \<in> set (now # H)"
      if "(m, t) \<in> set (zset_at ks' (rate_key c))" for m t
      using that mem unfolding s by auto
    show "0 \<le> t \<and> t \<le> now \<and> t \<le> know ks' + 500" if "t \<in> set (now # H)" for t
      using that prev bound now k by auto
    show "(rate_request_id t c, t) \<in> set (zset_at ks' (rate_key c)) \<or>
        t + W * 1000 \<le> max now (know ks' - 500)" if "t \<in> set (now # H)" for t
      using that stored k unfolding s by auto
    show "t + W * 1000 + 500 \<le> x"
      if "entry ks' (rate_key c) = Some (v, Some x)" "t \<in> set (now # H)" for v x t
    proof -
      have "x = know ks + (W + 1) * 1000" using that(1) e by simp
      moreover have "t \<le> know ks + 500" using that(2) bound now by auto
      ultimately show ?thesis by (simp add: algebra_simps)
    qed
  qed (use d e notin D(5) in \<open>simp_all add: zset_key_def\<close>)
qed

lemma log_inv_reject:
  assumes inv: "log_inv W ks c prev H" and now: "prev < now" "0 \<le> now" "\<bar>now - know ks\<bar> \<le> 500"
    and e: "zset_key ks' (rate_key c)"
      "zset_at ks' (rate_key c) = unexpired now W (zset_at ks (rate_key c))"
      "\<And>zs d. entry ks' (rate_key c) = Some (zs, d) \<Longrightarrow> \<exists>zs'. entry ks (rate_key c) = Some (zs', d)"
    and k: "know ks' = know ks"
  shows "log_inv W ks' c now H"
proof -
  note D = log_invD [OF inv]
  have d: "distinct (map fst (unexpired now W (zset_at ks (rate_key c))))"
    using D(2) by (simp add: unexpired_def distinct_map_filter)
  have stored: "(rate_request_id t c, t) \<in> set (unexpired now W (zset_at ks (rate_key c))) \<or>
      t + W * 1000 \<le> max now (know ks - 500)" if "t \<in> set H" for t
    using D(9) [OF that] now by (force simp: unexpired_def)
  have prev: "t \<le> now" if "t \<in> set H" for t
    using D(7) [OF that] now(1) by auto
  have dl: "t + W * 1000 + 500 \<le> x" if "entry ks' (rate_key c) = Some (v, Some x)" "t \<in> set H" for v x t
    using e(3) [OF that(1)] D(10) that(2) by blast
  have mem: "m = rate_request_id t c" "t \<in> set H"
    if "(m, t) \<in> set (unexpired now W (zset_at ks (rate_key c)))" for m t
    using that D(3,4) by (auto simp: unexpired_def)
  show ?thesis
  proof (rule log_invI)
    show "0 \<le> t \<and> t \<le> now \<and> t \<le> know ks' + 500" if "t \<in> set H" for t
      using that D(6,8) prev k by auto
  qed (use e(1,2) d k D(5) stored dl mem in auto)
qed

section \<open>Runs\<close>

context redis_server
begin

lemma sim_script [sim_intros]:
  "simulates view (sliding_window_script R k now W limit rid)
                  (sliding_window_script ks_redis k now W limit rid)"
  unfolding sliding_window_script_def ks_redis_sel by (intro sim_intros)

lemma sim_check_rate_limit [sim_intros]:
  "simulates view (check_rate_limit R now c limit W) (check_rate_limit ks_redis now c limit W)"
  unfolding check_rate_limit_def by (intro sim_intros)

end

context timed_redis
begin

lemma serve_view:
  "(\<And>dt c now. (dt, c, now) \<in> set es \<Longrightarrow> 0 \<le> dt) \<Longrightarrow>
   serve R elapse limit W es s = serve ks_redis ks_elapse limit W es (view s)"
proof (induction es arbitrary: s)
  case (Cons ev es)
  obtain dt c now where ev: "ev = (dt, c, now)" by (cases ev)
  obtain r s' where r: "check_rate_limit R now c limit W (elapse dt s) = (r, s')"
    by (cases "check_rate_limit R now c limit W (elapse dt s)")
  have "check_rate_limit ks_redis now c limit W (ks_elapse dt (view s)) = (r, view s')"
    using simulatesD [OF sim_check_rate_limit r] Cons.prems [of dt c now] ev
    by (simp add: elapse_law)
  moreover have "serve R elapse limit W es s' = serve ks_redis ks_elapse limit W es (view s')"
    using Cons.prems by (intro Cons.IH) auto
  ultimately show ?case
    by (simp add: ev r)
qed simp

end

lemma schedule_ok_dt: "schedule_ok t prev es \<Longrightarrow> (dt, c, now) \<in> set es \<Longrightarrow> 0 \<le> dt"
  by (induction t prev es rule: schedule_ok.induct) auto

text \<open>One request keeps every client's invariant and answers as the log does.\<close>

lemma check_refines:
  assumes inv: "\<And>c'. log_inv W ks c' (prev c') (L c')"
    and W: "0 \<le> W" and now: "prev c < now" "0 \<le> now" "\<bar>now - know ks\<bar> \<le> 500"
  obtains ks' where
    "check_rate_limit ks_redis now c limit W ks = (Inr (fst (log_step limit W (L c) now)), ks')"
    and "know ks' = know ks"
    and "\<And>c'. log_inv W ks' c' ((prev(c := now)) c')
                    ((L(c := snd (log_step limit W (L c) now))) c')"
proof -
  let ?k = "rate_key c" and ?rid = "rate_request_id now c"
  let ?n = "length (in_window W now (L c))"
  have zk: "zset_key ks ?k" by (rule log_invD(1) [OF inv])
  have n: "length (unexpired now W (zset_at ks ?k)) = ?n"
    by (rule log_inv_count [OF inv]) (use now in auto)
  show thesis
  proof (cases "int ?n < limit")
    case True
    obtain ks' where s: "sliding_window_script ks_redis ?k now W limit ?rid ks =
          (Inr (1, limit - int ?n - 1), ks')"
      and k: "know ks' = know ks"
      and e: "entry ks' ?k = Some (RZset (zinsert ?rid now (unexpired now W (zset_at ks ?k))),
                                   Some (know ks + (W + 1) * 1000))"
      and o: "\<And>k'. k' \<noteq> ?k \<Longrightarrow> entry ks' k' = entry ks k'"
      using script_accept [OF zk W, of now limit ?rid] n True by metis
    have "log_inv W ks' c' ((prev(c := now)) c') ((L(c := now # L c)) c')" for c'
      using log_inv_accept [OF inv now e k] log_inv_frame [OF inv o k, of c'] by auto
    with True s k show thesis
      by (intro that [of ks']) (simp_all add: check_rate_limit_def io_simps log_step_def)
  next
    case False
    obtain ks' where s: "sliding_window_script ks_redis ?k now W limit ?rid ks = (Inr (0, 0), ks')"
      and k: "know ks' = know ks" and e: "zset_key ks' ?k"
        "zset_at ks' ?k = unexpired now W (zset_at ks ?k)"
        "\<And>zs d. entry ks' ?k = Some (zs, d) \<Longrightarrow> \<exists>zs'. entry ks ?k = Some (zs', d)"
      and o: "\<And>k'. k' \<noteq> ?k \<Longrightarrow> entry ks' k' = entry ks k'"
      using script_reject [OF zk, of now W limit ?rid] n False by metis
    have "log_inv W ks' c' ((prev(c := now)) c') ((L(c := L c)) c')" for c'
      using log_inv_reject [OF inv now e k] log_inv_frame [OF inv o k, of c'] by auto
    with False s k show thesis
      by (intro that [of ks']) (simp_all add: check_rate_limit_def io_simps log_step_def)
  qed
qed

lemma serve_refines:
  assumes "0 \<le> W" and "\<And>c. log_inv W ks c (prev c) (L c)" and "schedule_ok (know ks) prev es"
  shows "serve ks_redis ks_elapse limit W es ks = map Inr (log_serve limit W es L)"
  using assms(2,3)
proof (induction es arbitrary: ks prev L)
  case (Cons ev es)
  obtain dt c now where ev: "ev = (dt, c, now)" by (cases ev)
  let ?ks = "ks_elapse dt ks"
  have dt: "0 \<le> dt" and ok: "schedule_ok (know ?ks) (prev(c := now)) es"
    and now: "prev c < now" "0 \<le> now" "\<bar>now - know ?ks\<bar> \<le> 500"
    using Cons.prems(2) by (simp_all add: ev)
  have inv: "log_inv W ?ks c' (prev c') (L c')" for c'
    by (rule log_inv_elapse [OF Cons.prems(1) dt])
  obtain ks' where r: "check_rate_limit ks_redis now c limit W ?ks =
        (Inr (fst (log_step limit W (L c) now)), ks')"
    and k: "know ks' = know ?ks"
    and inv': "\<And>c'. log_inv W ks' c' ((prev(c := now)) c')
                    ((L(c := snd (log_step limit W (L c) now))) c')"
    using check_refines [where prev = prev, OF inv assms(1) now] by blast
  have "serve ks_redis ks_elapse limit W es ks' =
      map Inr (log_serve limit W es (L(c := snd (log_step limit W (L c) now))))"
    by (rule Cons.IH [where prev = "prev(c := now)"]) (use inv' ok k in \<open>simp_all add: fun_upd_def\<close>)
  then show ?case
    by (simp add: ev r split: prod.splits)
qed simp

section \<open>The log admits at most \<open>limit\<close> requests in any window\<close>

fun log_final :: "int \<Rightarrow> int \<Rightarrow> rl_event list \<Rightarrow> (string \<Rightarrow> int list) \<Rightarrow> string \<Rightarrow> int list" where
  "log_final limit W [] L = L"
| "log_final limit W ((dt, c, now) # es) L =
     log_final limit W es (L(c := snd (log_step limit W (L c) now)))"

text \<open>The instants at which requests of client \<open>c\<close> were let through.\<close>

fun admitted :: "string \<Rightarrow> rl_event list \<Rightarrow> (exn + bool \<times> int) list \<Rightarrow> int list" where
  "admitted c ((dt, c', now) # es) (r # rs) =
     (case r of
        Inr (True, n) \<Rightarrow> if c' = c then now # admitted c es rs else admitted c es rs
      | _ \<Rightarrow> admitted c es rs)"
| "admitted c es rs = []"

definition window_ok :: "int \<Rightarrow> int \<Rightarrow> int list \<Rightarrow> bool" where
  "window_ok limit W H \<longleftrightarrow>
     (\<forall>T. int (length (filter (\<lambda>t. T - W * 1000 < t \<and> t \<le> T) H)) \<le> max limit 0)"

lemma admitted_final:
  "length (filter P (admitted c es (map Inr (log_serve limit W es L)))) + length (filter P (L c)) =
   length (filter P (log_final limit W es L c))"
proof (induction es arbitrary: L)
  case (Cons ev es)
  obtain dt c' now where ev: "ev = (dt, c', now)" by (cases ev)
  show ?case
  proof (cases "int (length (in_window W now (L c'))) < limit")
    case True
    then have "log_step limit W (L c') now =
        ((True, limit - int (length (in_window W now (L c'))) - 1), now # L c')"
      by (simp add: log_step_def)
    with Cons.IH [of "L(c' := now # L c')"] show ?thesis
      by (cases "c' = c") (auto simp: ev fun_upd_def)
  next
    case False
    then have "log_step limit W (L c') now = ((False, 0), L c')"
      by (simp add: log_step_def)
    with Cons.IH [of L] show ?thesis
      by (simp add: ev)
  qed
qed simp

lemma window_ok_step:
  assumes "window_ok limit W H" and "\<And>t. t \<in> set H \<Longrightarrow> t < now"
  shows "window_ok limit W (snd (log_step limit W H now))"
proof (cases "int (length (in_window W now H)) < limit")
  case True
  have "int (length (filter (\<lambda>t. T - W * 1000 < t \<and> t \<le> T) (now # H))) \<le> max limit 0" for T
  proof (cases "T < now")
    case True
    then show ?thesis using assms(1) by (simp add: window_ok_def)
  next
    case False
    have "length (filter (\<lambda>t. T - W * 1000 < t \<and> t \<le> T) H) \<le> length (in_window W now H)"
      unfolding in_window_def using False
      by (induction H) auto
    with True show ?thesis by simp
  qed
  with True show ?thesis by (simp add: log_step_def window_ok_def)
qed (use assms(1) in \<open>simp add: log_step_def\<close>)

lemma window_ok_final:
  "schedule_ok t prev es \<Longrightarrow> (\<And>c. window_ok limit W (L c)) \<Longrightarrow>
   (\<And>c x. x \<in> set (L c) \<Longrightarrow> x \<le> prev c) \<Longrightarrow> window_ok limit W (log_final limit W es L c)"
proof (induction es arbitrary: t prev L)
  case (Cons ev es)
  obtain dt c' now where ev: "ev = (dt, c', now)" by (cases ev)
  let ?L = "L(c' := snd (log_step limit W (L c') now))"
  have now: "x < now" if "x \<in> set (L c')" for x
    using Cons.prems(1) Cons.prems(3) [OF that] by (simp add: ev)
  have "window_ok limit W (log_final limit W es ?L c)"
  proof (rule Cons.IH)
    show "schedule_ok (t + dt) (prev(c' := now)) es"
      using Cons.prems(1) by (simp add: ev)
    show "window_ok limit W (?L d)" for d
      using window_ok_step [OF Cons.prems(2) now] Cons.prems(2) by simp
    show "x \<le> (prev(c' := now)) d" if "x \<in> set (?L d)" for d x
      using that now Cons.prems(3) by (force simp: log_step_def Let_def split: if_splits)
  qed
  then show ?case by (simp add: ev)
qed simp

section \<open>Requests in the same millisecond\<close>

lemma elapse_0 [simp]: "ks_elapse 0 ks = ks"
  by (simp add: ks_elapse_def)

lemma serve_same_ms:
  assumes "2 \<le> limit" and W: "1 \<le> W"
    and "zset_key ks (rate_key c)" and "set (zset_at ks (rate_key c)) \<subseteq> {(rate_request_id now c, now)}"
    and "length (zset_at ks (rate_key c)) \<le> 1"
  shows "map (case_sum (\<lambda>_. False) fst) (serve ks_redis ks_elapse limit W (replicate n (0, c, now)) ks)
           = replicate n True"
  using assms(3-)
proof (induction n arbitrary: ks)
  case (Suc n)
  let ?k = "rate_key c" and ?rid = "rate_request_id now c"
  let ?zs = "zset_at ks ?k"
  have u: "unexpired now W ?zs = ?zs"
    using Suc.prems(2) W by (auto simp: unexpired_def filter_id_conv)
  have lim: "int (length (unexpired now W ?zs)) < limit"
    using Suc.prems(3) assms(1) u by simp
  obtain ks' where s: "sliding_window_script ks_redis ?k now W limit ?rid ks =
        (Inr (1, limit - int (length (unexpired now W ?zs)) - 1), ks')"
    and e: "entry ks' ?k = Some (RZset (zinsert ?rid now (unexpired now W ?zs)),
                                 Some (know ks + (W + 1) * 1000))"
    using script_accept [OF Suc.prems(1) _ lim, of ?rid] W by auto
  have "?zs = [] \<or> ?zs = [(?rid, now)]"
    using Suc.prems(2,3) by (cases ?zs) auto
  then have "zinsert ?rid now (unexpired now W ?zs) = [(?rid, now)]"
    unfolding u by (auto simp: zinsert_def)
  with e have at: "zset_key ks' ?k" "zset_at ks' ?k = [(?rid, now)]"
    by (simp_all add: zset_key_def zset_at_def)
  have "map (case_sum (\<lambda>_. False) fst)
      (serve ks_redis ks_elapse limit W (replicate n (0, c, now)) ks') = replicate n True"
    by (rule Suc.IH) (simp_all add: at)
  then show ?case
    by (simp add: check_rate_limit_def s io_simps)
qed simp

lemma serve_is_log:
  assumes "timed_redis R view elapse" and "0 \<le> W" and "\<And>c. entry (view s) (rate_key c) = None"
    and "schedule_ok (know (view s)) (\<lambda>_. -1) es"
  shows "serve R elapse limit W es s = map Inr (log_serve limit W es (\<lambda>_. []))"
proof -
  have "serve R elapse limit W es s = serve ks_redis ks_elapse limit W es (view s)"
    by (rule timed_redis.serve_view [OF assms(1)]) (rule schedule_ok_dt [OF assms(4)])
  also have "\<dots> = map Inr (log_serve limit W es (\<lambda>_. []))"
    by (rule serve_refines [OF assms(2) _ assms(4)]) (rule log_inv_init [OF assms(3)])
  finally show ?thesis .
qed

section \<open>Properties\<close>

text \<open>
  C6. The rate limiter is a sliding log. On a healthy Redis that holds no window yet, for every
  schedule of the requests of any number of clients over any number of gateway instances in which
  server time does not run backwards, the gateways' clocks are within 500 ms of it and the requests
  of one client read strictly increasing milliseconds (\<open>schedule_ok\<close>), every answer
  \<open>(allowed, remaining)\<close> is the one of the log of accepted requests: allowed iff fewer than
  \<open>limit\<close> accepted requests lie in the last \<open>window\<close> seconds, with \<open>limit - count - 1\<close>
  remaining. In particular the key's TTL of \<open>window + 1\<close> seconds never changes a decision and no
  client influences another.
\<close>

theorem rate_limiter_refines_log:
  assumes "timed_redis R view elapse" and "0 \<le> W"
    and "\<And>c. entry (view s) (rate_key c) = None"
    and "schedule_ok (know (view s)) (\<lambda>_. -1) es"
  shows "serve R elapse limit W es s = map Inr (log_serve limit W es (\<lambda>_. []))"
  using assms by (rule serve_is_log)

theorem rate_limiter_refines_log_witness:
  "serve ks_redis ks_elapse 1 60 [(0, ''a'', 1000), (10, ''b'', 1010), (30000, ''a'', 31010)]
     (empty_keyspace 1000) = [Inr (True, 0), Inr (True, 0), Inr (False, 0)]"
  using rate_limiter_refines_log [OF timed_redis_ks, of 60 "empty_keyspace 1000"
      "[(0, ''a'', 1000), (10, ''b'', 1010), (30000, ''a'', 31010)]" 1]
  by (simp add: log_step_def in_window_def)

text \<open>
  No window is ever exceeded: over any such run, the requests of a client that were let
  through in the \<open>W\<close> seconds up to any instant \<open>T\<close> are at most \<open>limit\<close>, also across the
  boundaries of fixed windows.
\<close>

lemma rate_limit_never_exceeded:
  assumes "timed_redis R view elapse" and "0 \<le> W" and "0 \<le> limit"
    and "\<And>c. entry (view s) (rate_key c) = None"
    and "schedule_ok (know (view s)) (\<lambda>_. -1) es"
  shows "int (length (filter (\<lambda>t. T - W * 1000 < t \<and> t \<le> T)
               (admitted c es (serve R elapse limit W es s)))) \<le> limit"
proof -
  let ?P = "\<lambda>t. T - W * 1000 < t \<and> t \<le> T"
  have run: "serve R elapse limit W es s = map Inr (log_serve limit W es (\<lambda>_. []))"
    by (rule serve_is_log [OF assms(1,2,4,5)])
  have "window_ok limit W (log_final limit W es (\<lambda>_. []) c)"
    by (rule window_ok_final [OF assms(5)]) (simp_all add: window_ok_def)
  then have "int (length (filter ?P (log_final limit W es (\<lambda>_. []) c))) \<le> limit"
    using assms(3) unfolding window_ok_def by (metis max.absorb1)
  then show ?thesis
    using admitted_final [of ?P c es limit W "\<lambda>_. []"] by (simp add: run)
qed

lemma rate_limit_never_exceeded_example:
  "int (length (filter (\<lambda>t. 31010 - 60 * 1000 < t \<and> t \<le> 31010)
     (admitted ''a'' [(0, ''a'', 1000), (30010, ''a'', 31010)]
        (serve ks_redis ks_elapse 1 60 [(0, ''a'', 1000), (30010, ''a'', 31010)]
          (empty_keyspace 1000))))) \<le> 1"
  by (rule rate_limit_never_exceeded [OF timed_redis_ks]) simp_all

text \<open>
  C32. The window bound needs distinct milliseconds: requests of one client in the same
  millisecond share the member \<open>now-client_id\<close> of the sorted set, so ZADD overwrites, the count
  stays at one, and with any limit of two or more every one of them is let through.
\<close>

theorem same_millisecond_requests_all_admitted:
  assumes "timed_redis R view elapse" and "2 \<le> limit" and "1 \<le> W"
    and "entry (view s) (rate_key c) = None"
  shows "map (case_sum (\<lambda>_. False) fst) (serve R elapse limit W (replicate n (0, c, now)) s)
           = replicate n True"
proof -
  have "serve R elapse limit W (replicate n (0, c, now)) s =
        serve ks_redis ks_elapse limit W (replicate n (0, c, now)) (view s)"
    by (rule timed_redis.serve_view [OF assms(1)]) (simp add: in_set_replicate)
  then show ?thesis
    using serve_same_ms [OF assms(2,3), of "view s" c now n] assms(4)
    by (simp add: zset_key_def zset_at_def)
qed

theorem same_millisecond_requests_all_admitted_witness:
  "map (case_sum (\<lambda>_. False) fst)
     (serve ks_redis ks_elapse 2 60 (replicate 150 (0, ''demo'', 5000)) (empty_keyspace 5000))
   = replicate 150 True"
  by (rule same_millisecond_requests_all_admitted [OF timed_redis_ks]) simp_all

text \<open>
  Memory: whatever the clocks do, a client's sorted set never grows beyond \<open>limit\<close> entries,
  and the other keys of the server are untouched.
\<close>

lemma rate_limit_storage_bound:
  assumes "redis_server R view" and "0 \<le> W" and "zset_key (view s) (rate_key c)"
    and "int (length (zset_at (view s) (rate_key c))) \<le> limit"
  shows "int (length (zset_at (view (snd (check_rate_limit R now c limit W s))) (rate_key c))) \<le> limit
       \<and> (\<forall>k. k \<noteq> rate_key c \<longrightarrow>
            entry (view (snd (check_rate_limit R now c limit W s))) k = entry (view s) k)"
proof -
  let ?ks = "view s" and ?k = "rate_key c" and ?rid = "rate_request_id now c"
  let ?u = "unexpired now W (zset_at ?ks ?k)"
  have v: "view (snd (check_rate_limit R now c limit W s)) =
           snd (check_rate_limit ks_redis now c limit W ?ks)"
    by (rule simulates_snd [OF redis_server.sim_check_rate_limit [OF assms(1)]])
  have len: "length (zinsert ?rid now zs) \<le> Suc (length zs)" for zs
    by (simp add: zinsert_def)
  have ulen: "length ?u \<le> length (zset_at ?ks ?k)"
    by (simp add: unexpired_def)
  show ?thesis
  proof (cases "int (length ?u) < limit")
    case True
    obtain ks' where
      "sliding_window_script ks_redis ?k now W limit ?rid ?ks = (Inr (1, limit - int (length ?u) - 1), ks')"
      and e: "entry ks' ?k = Some (RZset (zinsert ?rid now ?u), Some (know ?ks + (W + 1) * 1000))"
      and o: "\<And>k'. k' \<noteq> ?k \<Longrightarrow> entry ks' k' = entry ?ks k'"
      using script_accept [OF assms(3,2) True, of ?rid] by metis
    moreover have "int (length (zset_at ks' ?k)) \<le> limit"
      using len [of ?u] True by (simp add: zset_at_def e)
    ultimately show ?thesis
      unfolding v by (simp add: check_rate_limit_def io_simps)
  next
    case False
    obtain ks' where "sliding_window_script ks_redis ?k now W limit ?rid ?ks = (Inr (0, 0), ks')"
      and "zset_at ks' ?k = ?u" and "\<And>k'. k' \<noteq> ?k \<Longrightarrow> entry ks' k' = entry ?ks k'"
      using script_reject [OF assms(3) False, of ?rid] by metis
    then show ?thesis
      using ulen assms(4) unfolding v by (simp add: check_rate_limit_def io_simps)
  qed
qed

lemma rate_limit_storage_bound_example:
  "int (length (zset_at (snd (check_rate_limit ks_redis 1000 ''a'' 5 60 (empty_keyspace 1000)))
     (rate_key ''a''))) \<le> 5"
  using rate_limit_storage_bound [OF redis_server_ks, of 60 "empty_keyspace 1000" "''a''" 5 1000]
  by (simp add: zset_key_def zset_at_def)

end
