(* ===== verification/PyFloat.thy ===== *)
theory PyFloat
  imports Complex_Main Prelude
begin

text \<open>
  Python's binary64 floats, as far as the gateway computes with them: the value of a finite float
  is a rational number; \<open>a / b\<close> on integers is correctly rounded to 53 bits, half to even;
  \<open>statistics.stdev\<close> computes the variance exactly and takes CPython's correctly rounded square
  root of a fraction; \<open>f"{x:.2f}"\<close> rounds the exact value half to even. The values here are far
  from overflow and from the subnormal range, which are not modelled.
\<close>

type_synonym float64 = rat

section \<open>Rounded division of integers\<close>

fun bit_length :: "nat \<Rightarrow> nat" where
  "bit_length n = (if n = 0 then 0 else Suc (bit_length (n div 2)))"

declare bit_length.simps [simp del]

text \<open>\<open>p / q\<close> to the nearest integer, half to even (\<open>q > 0\<close>).\<close>

definition rhe_div :: "int \<Rightarrow> int \<Rightarrow> int" where
  "rhe_div p q =
     (let f = p div q; r = p mod q
      in if 2 * r < q then f else if q < 2 * r then f + 1 else if even f then f else f + 1)"

text \<open>The fraction \<open>(a / b) / 2 ^ e\<close>.\<close>

definition scaled :: "int \<Rightarrow> int \<Rightarrow> int \<Rightarrow> int \<times> int" where
  "scaled a b e = (if 0 \<le> e then (a, b * 2 ^ nat e) else (a * 2 ^ nat (- e), b))"

text \<open>The exponent that brings \<open>a / b\<close> into \<open>[2 ^ 52, 2 ^ 53)\<close>.\<close>

definition fexp :: "int \<Rightarrow> int \<Rightarrow> int" where
  "fexp a b =
     (let e = int (bit_length (nat a)) - int (bit_length (nat b)) - 53
      in case scaled a b e of (p, q) \<Rightarrow> if 2 ^ 53 * q \<le> p then e + 1 else e)"

definition fdiv_pos :: "int \<Rightarrow> int \<Rightarrow> float64" where
  "fdiv_pos a b =
     (let e = fexp a b in case scaled a b e of (p, q) \<Rightarrow> of_int (rhe_div p q) * 2 powi e)"

definition py_truediv :: "int \<Rightarrow> int \<Rightarrow> float64" where
  "py_truediv a b =
     (if a = 0 \<or> b = 0 then 0
      else if (0 < a) = (0 < b) then fdiv_pos \<bar>a\<bar> \<bar>b\<bar> else - fdiv_pos \<bar>a\<bar> \<bar>b\<bar>)"

text \<open>The values with a significand of 53 bits.\<close>

definition representable :: "rat \<Rightarrow> bool" where
  "representable y \<longleftrightarrow> (\<exists>m e. y = of_int m * 2 powi e \<and> 0 \<le> m \<and> m \<le> 2 ^ 53)"

lemma bit_length_bounds: "0 < n \<Longrightarrow> 2 ^ (bit_length n - 1) \<le> n \<and> n < 2 ^ bit_length n"
proof (induction n rule: bit_length.induct)
  case (1 n)
  have b: "bit_length n = Suc (bit_length (n div 2))"
    using 1(2) by (simp add: bit_length.simps [of n])
  show ?case
  proof (cases "n = 1")
    case True
    then show ?thesis by (simp add: bit_length.simps)
  next
    case False
    with 1(2) have n2: "0 < n div 2" by auto
    with 1 have IH: "2 ^ (bit_length (n div 2) - 1) \<le> n div 2" "n div 2 < 2 ^ bit_length (n div 2)"
      by auto
    have "0 < bit_length (n div 2)"
      using n2 by (simp add: bit_length.simps [of "n div 2"])
    then have "(2::nat) ^ bit_length (n div 2) = 2 * 2 ^ (bit_length (n div 2) - 1)"
      by (cases "bit_length (n div 2)") auto
    moreover have "n = 2 * (n div 2) + n mod 2" and "n mod 2 \<le> 1" by simp_all
    ultimately show ?thesis using IH b by (simp only: diff_Suc_1 power_Suc) linarith
  qed
qed

lemma bit_length_pos: "0 < n \<Longrightarrow> 0 < bit_length n"
  by (simp add: bit_length.simps)

lemma bit_length_rat:
  assumes "0 < a"
  shows "(2 powi (int (bit_length (nat a)) - 1) :: rat) \<le> of_int a"
    and "(of_int a :: rat) < 2 powi int (bit_length (nat a))"
proof -
  let ?n = "bit_length (nat a)"
  have b: "2 ^ (?n - 1) \<le> nat a" "nat a < 2 ^ ?n" and n: "0 < ?n"
    using bit_length_bounds [of "nat a"] bit_length_pos [of "nat a"] assms by simp_all
  have a: "(of_int a :: rat) = of_nat (nat a)"
    using assms by simp
  have "(of_nat (2 ^ (?n - 1)) :: rat) \<le> of_nat (nat a)"
    using b(1) by (rule of_nat_mono)
  then have "(2 ^ (?n - 1) :: rat) \<le> of_int a"
    unfolding a by (simp del: of_nat_nat)
  moreover have "int ?n - 1 = int (?n - 1)" using n by simp
  ultimately show "(2 powi (int ?n - 1) :: rat) \<le> of_int a"
    by (simp only: power_int_of_nat)
  have "(of_nat (nat a) :: rat) < of_nat (2 ^ ?n)"
    using b(2) by (simp only: of_nat_less_iff)
  then show "(of_int a :: rat) < 2 powi int ?n"
    unfolding a by (simp del: of_nat_nat)
qed

lemma rhe_div_le: "0 < q \<Longrightarrow> p \<le> k * q \<Longrightarrow> rhe_div p q \<le> k"
proof -
  assume q: "0 < q" and p: "p \<le> k * q"
  have le: "p div q \<le> k"
    using q p by (metis zdiv_mono1 nonzero_mult_div_cancel_right less_irrefl)
  show ?thesis
  proof (cases "p div q = k")
    case True
    have "p mod q = p - k * q" using True by (metis minus_div_mult_eq_mod)
    with q p have "p mod q = 0"
      using pos_mod_sign [OF q, of p] by linarith
    with True q show ?thesis by (simp add: rhe_div_def)
  next
    case False
    with le show ?thesis by (auto simp: rhe_div_def Let_def)
  qed
qed

lemma le_rhe_div: "0 < q \<Longrightarrow> k * q \<le> p \<Longrightarrow> k \<le> rhe_div p q"
proof -
  assume q: "0 < q" and p: "k * q \<le> p"
  have "k \<le> p div q"
    using q p by (metis zdiv_mono1 nonzero_mult_div_cancel_right less_irrefl)
  then show ?thesis by (auto simp: rhe_div_def Let_def)
qed

lemma scaled_pos: "0 < a \<Longrightarrow> 0 < b \<Longrightarrow> scaled a b e = (p, q) \<Longrightarrow> 0 < p \<and> 0 < q"
  by (auto simp: scaled_def split: if_splits)

lemma scaled_ratio:
  assumes "0 < b" and "scaled a b e = (p, q)"
  shows "(of_int p :: rat) / of_int q = (of_int a / of_int b) / 2 powi e"
  using assms by (auto simp: scaled_def power_int_def field_simps split: if_splits)

lemma fexp_bounds:
  assumes "0 < a" and "0 < b"
  shows "2 ^ 52 \<le> (of_int a / of_int b :: rat) / 2 powi fexp a b"
    and "(of_int a / of_int b :: rat) / 2 powi fexp a b < 2 ^ 53"
proof -
  let ?x = "of_int a / of_int b :: rat"
  let ?A = "bit_length (nat a)" and ?B = "bit_length (nat b)"
  define e where "e = int ?A - int ?B - 53"
  obtain p q where s: "scaled a b e = (p, q)" by (cases "scaled a b e")
  have pq: "0 < q" using scaled_pos [OF assms s] by auto
  have r: "(of_int p :: rat) / of_int q = ?x / 2 powi e"
    by (rule scaled_ratio [OF assms(2) s])
  have b0: "(0::rat) < of_int b" using assms by simp
  have lo: "2 powi (e + 52) < ?x"
  proof -
    have "(2 powi (e + 52) :: rat) * of_int b < 2 powi (e + 52) * 2 powi int ?B"
      using bit_length_rat(2) [OF assms(2)] by (intro mult_strict_left_mono) simp_all
    also have "\<dots> = 2 powi (int ?A - 1)"
      unfolding e_def by (subst power_int_add [symmetric]) (simp_all add: algebra_simps)
    also have "\<dots> \<le> of_int a" by (rule bit_length_rat(1) [OF assms(1)])
    finally show ?thesis using b0 by (simp add: pos_less_divide_eq)
  qed
  have hi: "?x < 2 powi (e + 54)"
  proof -
    have "(of_int a :: rat) < 2 powi int ?A" by (rule bit_length_rat(2) [OF assms(1)])
    also have "\<dots> = 2 powi (e + 54) * 2 powi (int ?B - 1)"
      unfolding e_def by (subst power_int_add [symmetric]) (simp_all add: algebra_simps)
    also have "\<dots> \<le> 2 powi (e + 54) * of_int b"
      using bit_length_rat(1) [OF assms(2)] by (intro mult_left_mono) simp_all
    finally show ?thesis using b0 by (simp add: pos_divide_less_eq)
  qed
  have split: "(2 powi (e + k) :: rat) = 2 powi e * 2 powi k" for k
    by (simp add: power_int_add)
  have pe: "(0::rat) < 2 powi e" by simp
  have iff: "2 ^ 53 * q \<le> p \<longleftrightarrow> (2::rat) ^ 53 \<le> ?x / 2 powi e"
  proof -
    have "2 ^ 53 * q \<le> p \<longleftrightarrow> (of_int (2 ^ 53 * q) :: rat) \<le> of_int p"
      by (simp only: of_int_le_iff)
    also have "\<dots> \<longleftrightarrow> (2::rat) ^ 53 \<le> of_int p / of_int q"
      using pq by (simp add: pos_le_divide_eq)
    finally show ?thesis by (simp add: r)
  qed
  have f: "fexp a b = (if 2 ^ 53 * q \<le> p then e + 1 else e)"
    unfolding fexp_def Let_def e_def [symmetric] s by simp
  have lo': "2 ^ 52 < ?x / 2 powi e" and hi': "?x / 2 powi e < 2 ^ 54"
    using lo hi unfolding split pos_less_divide_eq [OF pe] pos_divide_less_eq [OF pe]
    by (simp_all only: power_int_numeral mult.commute)
  have half: "?x / 2 powi (e + 1) = (?x / 2 powi e) / 2"
    by (simp add: split)
  show "2 ^ 52 \<le> ?x / 2 powi fexp a b"
  proof (cases "2 ^ 53 * q \<le> p")
    case True
    with iff have "(2::rat) ^ 53 \<le> ?x / 2 powi e" by blast
    then show ?thesis unfolding f using True by (simp add: half del: divide_divide_eq_left)
  next
    case False
    then show ?thesis unfolding f using lo' by simp
  qed
  show "?x / 2 powi fexp a b < 2 ^ 53"
  proof (cases "2 ^ 53 * q \<le> p")
    case True
    then show ?thesis unfolding f using hi' by (simp add: half del: divide_divide_eq_left)
  next
    case False
    then have "\<not> (2::rat) ^ 53 \<le> ?x / 2 powi e" using iff by blast
    then show ?thesis unfolding f using False by simp
  qed
qed

text \<open>
  Rounding is faithful to the order: against a representable value, the rounded quotient
  compares as the exact one does.
\<close>

lemma representable_scale:
  assumes "representable y" and "2 ^ 52 \<le> y / 2 powi e" and "y / 2 powi e \<le> 2 ^ 53"
  obtains k where "y = of_int k * 2 powi e"
proof -
  obtain m f where y: "y = of_int m * 2 powi f" and m: "0 \<le> m" "m \<le> 2 ^ 53"
    using assms(1) by (auto simp: representable_def)
  show thesis
  proof (cases "e \<le> f")
    case True
    have "(2 powi f :: rat) = of_int (2 ^ nat (f - e)) * 2 powi e"
      using True power_int_add [of "2::rat" "f - e" e] by (simp add: power_int_nonneg_exp)
    then show thesis by (intro that [of "m * 2 ^ nat (f - e)"]) (simp add: y)
  next
    case False
    have le: "(2 powi f :: rat) \<le> 2 powi (e - 1)"
      using False by (intro power_int_increasing) simp_all
    have half: "(2 powi (e - 1) :: rat) = 2 powi e / 2"
      using power_int_diff [of "2::rat" e 1] by simp
    have pe: "(0::rat) < 2 powi e" by simp
    have "(of_int m :: rat) \<le> of_int (2 ^ 53)" using m(2) by (simp only: of_int_le_iff)
    then have "y \<le> 2 ^ 53 * 2 powi (e - 1)"
      unfolding y using m(1) le by (intro mult_mono) simp_all
    also have "\<dots> = 2 ^ 52 * 2 powi e" by (simp add: half)
    finally have "y \<le> 2 ^ 52 * 2 powi e" .
    moreover have "2 ^ 52 * 2 powi e \<le> y"
      using assms(2) by (simp only: pos_le_divide_eq [OF pe])
    ultimately have "y = of_int (2 ^ 52) * 2 powi e" by simp
    then show thesis by (rule that)
  qed
qed

lemma fdiv_pos_eq:
  assumes "0 < a" and "0 < b"
  obtains p q where "0 < p" "0 < q" "(of_int p :: rat) / of_int q = (of_int a / of_int b) / 2 powi fexp a b"
    and "fdiv_pos a b = of_int (rhe_div p q) * 2 powi fexp a b"
proof -
  obtain p q where s: "scaled a b (fexp a b) = (p, q)" by (cases "scaled a b (fexp a b)")
  show thesis
    by (rule that [of p q]) (use scaled_pos [OF assms s] scaled_ratio [OF assms(2) s] s in
        \<open>simp_all add: fdiv_pos_def Let_def\<close>)
qed

lemma rhe_div_le_rat: "0 < q \<Longrightarrow> (of_int p :: rat) / of_int q \<le> of_int k \<Longrightarrow> rhe_div p q \<le> k"
proof -
  assume q: "0 < q" and le: "(of_int p :: rat) / of_int q \<le> of_int k"
  then have "(of_int p :: rat) \<le> of_int (k * q)" by (simp add: pos_divide_le_eq)
  then have "p \<le> k * q" by (simp only: of_int_le_iff)
  with q show ?thesis by (rule rhe_div_le)
qed

lemma le_rhe_div_rat: "0 < q \<Longrightarrow> of_int k \<le> (of_int p :: rat) / of_int q \<Longrightarrow> k \<le> rhe_div p q"
proof -
  assume q: "0 < q" and le: "of_int k \<le> (of_int p :: rat) / of_int q"
  then have "(of_int (k * q) :: rat) \<le> of_int p" by (simp add: pos_le_divide_eq)
  then have "k * q \<le> p" by (simp only: of_int_le_iff)
  with q show ?thesis by (rule le_rhe_div)
qed

lemma fdiv_pos_le:
  assumes "0 < a" and "0 < b" and y: "representable y" and le: "of_int a / of_int b \<le> y"
  shows "fdiv_pos a b \<le> y"
proof -
  let ?e = "fexp a b"
  obtain p q where q: "0 < q" and r: "(of_int p :: rat) / of_int q = (of_int a / of_int b) / 2 powi ?e"
    and f: "fdiv_pos a b = of_int (rhe_div p q) * 2 powi ?e"
    using fdiv_pos_eq [OF assms(1,2)] by metis
  have pe: "(0::rat) < 2 powi ?e" by simp
  have lo: "(of_int a / of_int b :: rat) / 2 powi ?e \<le> y / 2 powi ?e"
    using le pe by (simp only: divide_right_mono less_imp_le)
  note b = fexp_bounds [OF assms(1,2)]
  show ?thesis
  proof (cases "y / 2 powi ?e \<le> 2 ^ 53")
    case True
    obtain k where k: "y = of_int k * 2 powi ?e"
      by (rule representable_scale [OF y _ True]) (use b(1) lo in linarith)
    have "(of_int p :: rat) / of_int q \<le> of_int k"
      using lo pe by (simp add: r k)
    then have "rhe_div p q \<le> k" by (rule rhe_div_le_rat [OF q])
    then show ?thesis unfolding f k using pe by (simp add: mult_right_mono)
  next
    case False
    have "(of_int p :: rat) / of_int q \<le> of_int (2 ^ 53)"
      using b(2) unfolding r by simp
    then have "rhe_div p q \<le> 2 ^ 53" by (rule rhe_div_le_rat [OF q])
    then have "(of_int (rhe_div p q) :: rat) \<le> of_int (2 ^ 53)" by (simp only: of_int_le_iff)
    then have "(of_int (rhe_div p q) :: rat) \<le> y / 2 powi ?e" using False by simp
    then show ?thesis unfolding f by (simp only: pos_le_divide_eq [OF pe])
  qed
qed

lemma le_fdiv_pos:
  assumes "0 < a" and "0 < b" and y: "representable y" and le: "y \<le> of_int a / of_int b"
  shows "y \<le> fdiv_pos a b"
proof -
  let ?e = "fexp a b"
  obtain p q where q: "0 < q" and r: "(of_int p :: rat) / of_int q = (of_int a / of_int b) / 2 powi ?e"
    and f: "fdiv_pos a b = of_int (rhe_div p q) * 2 powi ?e"
    using fdiv_pos_eq [OF assms(1,2)] by metis
  have pe: "(0::rat) < 2 powi ?e" by simp
  have hi: "y / 2 powi ?e \<le> (of_int a / of_int b :: rat) / 2 powi ?e"
    using le pe by (simp only: divide_right_mono less_imp_le)
  note b = fexp_bounds [OF assms(1,2)]
  show ?thesis
  proof (cases "2 ^ 52 \<le> y / 2 powi ?e")
    case True
    obtain k where k: "y = of_int k * 2 powi ?e"
      by (rule representable_scale [OF y True]) (use b(2) hi in linarith)
    have "of_int k \<le> (of_int p :: rat) / of_int q"
      using hi pe by (simp add: r k)
    then have "k \<le> rhe_div p q" by (rule le_rhe_div_rat [OF q])
    then show ?thesis unfolding f k using pe by (simp add: mult_right_mono)
  next
    case False
    have "of_int (2 ^ 52) \<le> (of_int p :: rat) / of_int q"
      using b(1) unfolding r by simp
    then have "2 ^ 52 \<le> rhe_div p q" by (rule le_rhe_div_rat [OF q])
    then have "of_int (2 ^ 52) \<le> (of_int (rhe_div p q) :: rat)" by (simp only: of_int_le_iff)
    then have "y / 2 powi ?e \<le> (of_int (rhe_div p q) :: rat)" using False by simp
    then show ?thesis unfolding f by (simp only: pos_divide_le_eq [OF pe])
  qed
qed

lemma fdiv_pos_nonneg: "0 < a \<Longrightarrow> 0 < b \<Longrightarrow> 0 \<le> fdiv_pos a b"
  by (rule le_fdiv_pos) (auto simp: representable_def intro!: exI [of _ 0])

section \<open>The literal 0.7\<close>

definition float_0_7 :: float64 where
  "float_0_7 = py_truediv 7 10"

lemma float_0_7_value: "float_0_7 = 6305039478318694 / 9007199254740992"
  by (simp add: float_0_7_def py_truediv_def fdiv_pos_def fexp_def scaled_def bit_length.simps
      rhe_div_def Let_def)

lemma representable_numeral_frac:
  "0 \<le> m \<Longrightarrow> m \<le> 2 ^ 53 \<Longrightarrow> representable (of_int m / 2 ^ k)"
  unfolding representable_def
  by (intro exI [of _ m] exI [of _ "- int k"]) (simp add: power_int_minus field_simps)

text \<open>For thresholds up to \<open>2 ^ 49\<close> the float test \<open>c / t >= 0.7\<close> is the exact one.\<close>

lemma ratio_at_least_0_7:
  assumes t: "0 < t" "t \<le> 2 ^ 49"
  shows "float_0_7 \<le> py_truediv c t \<longleftrightarrow> 7 * t \<le> 10 * c"
proof (cases "0 < c")
  case False
  then have "py_truediv c t \<le> 0"
    using fdiv_pos_nonneg [of "\<bar>c\<bar>" "\<bar>t\<bar>"] t by (auto simp: py_truediv_def)
  then show ?thesis
    using False t by (simp add: float_0_7_value)
next
  case c: True
  have d: "py_truediv c t = fdiv_pos c t"
    using c t by (simp add: py_truediv_def)
  have tr: "(0::rat) < of_int t" using t by simp
  show ?thesis
  proof
    assume "7 * t \<le> 10 * c"
    then have "(of_int (7 * t) :: rat) \<le> of_int (10 * c)" by (simp only: of_int_le_iff)
    then have "7 / 10 \<le> (of_int c :: rat) / of_int t" using tr by (simp add: field_simps)
    moreover have "representable float_0_7"
      using representable_numeral_frac [of 6305039478318694 53] by (simp add: float_0_7_value)
    ultimately show "float_0_7 \<le> py_truediv c t"
      unfolding d by (intro le_fdiv_pos c t) (simp_all add: float_0_7_value)
  next
    assume ge: "float_0_7 \<le> py_truediv c t"
    show "7 * t \<le> 10 * c"
    proof (rule ccontr)
      assume "\<not> 7 * t \<le> 10 * c"
      then have "10 * c + 1 \<le> 7 * t" by simp
      then have "(of_int (10 * c + 1) :: rat) \<le> of_int (7 * t)" by (simp only: of_int_le_iff)
      then have 1: "10 * (of_int c :: rat) + 1 \<le> 7 * of_int t" by simp
      have "(of_int t :: rat) \<le> of_int (2 ^ 49)" using t(2) by (simp only: of_int_le_iff)
      then have 2: "(of_int t :: rat) \<le> 562949953421312" by simp
      let ?y = "6305039478318693 / 9007199254740992 :: rat"
      have "(of_int c :: rat) \<le> ?y * of_int t"
        using 1 2 by (simp add: field_simps)
      then have "(of_int c :: rat) / of_int t \<le> ?y" by (simp only: pos_divide_le_eq [OF tr])
      moreover have "representable ?y"
        using representable_numeral_frac [of 6305039478318693 53] by simp
      ultimately have "py_truediv c t \<le> ?y"
        unfolding d by (intro fdiv_pos_le c t)
      with ge show False by (simp add: float_0_7_value)
    qed
  qed
qed

section \<open>Square roots and standard deviations\<close>

fun isqrt :: "nat \<Rightarrow> nat" where
  "isqrt n =
     (if n = 0 then 0 else let r = 2 * isqrt (n div 4) in if (r + 1) ^ 2 \<le> n then r + 1 else r)"

declare isqrt.simps [simp del]

text \<open>CPython's \<open>_integer_sqrt_of_frac_rto\<close>: the root of \<open>n / m\<close>, rounded to odd.\<close>

definition isqrt_rto :: "int \<Rightarrow> int \<Rightarrow> int" where
  "isqrt_rto n m =
     (let a = int (isqrt (nat (n div m)))
      in if a * a * m \<noteq> n then (if even a then a + 1 else a) else a)"

text \<open>CPython's \<open>_float_sqrt_of_frac\<close>.\<close>

definition float_sqrt_of_frac :: "int \<Rightarrow> int \<Rightarrow> float64" where
  "float_sqrt_of_frac n m =
     (let q = (int (bit_length (nat n)) - int (bit_length (nat m)) - 109) div 2
      in if 0 \<le> q then py_truediv (isqrt_rto n (m * 2 ^ nat (2 * q)) * 2 ^ nat q) 1
         else py_truediv (isqrt_rto (n * 2 ^ nat (- 2 * q)) m) (2 ^ nat (- q)))"

text \<open>\<open>statistics.stdev\<close> of a list of integral floats.\<close>

definition py_stdev :: "int list \<Rightarrow> exn + float64" where
  "py_stdev xs =
     (if length xs < 2 then Inl (OtherError ''StatisticsError'')
      else (let n = int (length xs);
                num = n * sum_list (map (\<lambda>x. x * x) xs) - sum_list xs * sum_list xs;
                den = n * (n - 1)
            in Inr (float_sqrt_of_frac (num div gcd num den) (den div gcd num den))))"

lemma isqrt_spec: "isqrt n ^ 2 \<le> n \<and> n < (isqrt n + 1) ^ 2"
proof (induction n rule: isqrt.induct)
  case (1 n)
  show ?case
  proof (cases "n = 0")
    case True
    then show ?thesis by (simp add: isqrt.simps)
  next
    case False
    let ?s = "isqrt (n div 4)"
    from 1 [OF False] have IH: "?s ^ 2 \<le> n div 4" "n div 4 < (?s + 1) ^ 2" by auto
    have n: "n = 4 * (n div 4) + n mod 4" "n mod 4 < 4" by simp_all
    have lo: "(2 * ?s) ^ 2 \<le> n"
      using IH(1) n by (simp add: power2_eq_square)
    have "n div 4 + 1 \<le> (?s + 1) ^ 2" using IH(2) by simp
    then have "4 * (n div 4) + 4 \<le> 4 * (?s + 1) ^ 2" by simp
    also have "\<dots> = (2 * ?s + 2) ^ 2" by (simp add: power2_eq_square algebra_simps)
    finally have hi: "n < (2 * ?s + 2) ^ 2" using n by linarith
    show ?thesis
    proof (cases "(2 * ?s + 1) ^ 2 \<le> n")
      case True
      then have "isqrt n = 2 * ?s + 1" using False by (simp add: isqrt.simps [of n] Let_def)
      then show ?thesis using True hi by simp
    next
      case F: False
      then have "isqrt n = 2 * ?s" using False by (simp add: isqrt.simps [of n] Let_def)
      then show ?thesis using F lo by simp
    qed
  qed
qed

lemma le_isqrt: "k ^ 2 \<le> n \<Longrightarrow> k \<le> isqrt n"
proof (rule ccontr)
  assume "k ^ 2 \<le> n" and "\<not> k \<le> isqrt n"
  then have "(isqrt n + 1) ^ 2 \<le> k ^ 2" by (intro power_mono) auto
  with \<open>k ^ 2 \<le> n\<close> isqrt_spec [of n] show False by linarith
qed

text \<open>Against an integer, the root rounded to odd compares as the exact root does.\<close>

lemma isqrt_rto_le:
  assumes "0 \<le> n" and m: "0 < m" and Y: "0 \<le> Y" "n \<le> Y * Y * m"
  shows "isqrt_rto n m \<le> Y"
proof -
  let ?a = "int (isqrt (nat (n div m)))"
  have nm: "0 \<le> n div m" using assms by (simp add: pos_imp_zdiv_nonneg_iff)
  have "isqrt (nat (n div m)) ^ 2 \<le> nat (n div m)" using isqrt_spec by blast
  then have "?a ^ 2 \<le> n div m"
    using nm by (metis of_nat_le_iff of_nat_power nat_0_le)
  then have a2: "?a * ?a \<le> n div m" by (simp add: power2_eq_square)
  have "n div m \<le> Y * Y"
    using zdiv_mono1 [OF Y(2) m] m by simp
  with a2 have "?a ^ 2 \<le> Y ^ 2" by (simp add: power2_eq_square)
  then have le: "?a \<le> Y" using Y(1) by (rule power2_le_imp_le)
  show ?thesis
  proof (cases "?a = Y")
    case True
    have "Y * Y * m \<le> (n div m) * m"
      using a2 True m by (simp add: mult_right_mono)
    also have "\<dots> \<le> n"
      using pos_mod_sign [OF m, of n] by (simp add: minus_mod_eq_div_mult [symmetric])
    finally have "?a * ?a * m = n" using Y(2) True by simp
    then show ?thesis using True by (simp add: isqrt_rto_def)
  next
    case False
    then show ?thesis using le by (simp add: isqrt_rto_def Let_def)
  qed
qed

lemma le_isqrt_rto:
  assumes m: "0 < m" and Y: "0 \<le> Y" "Y * Y * m \<le> n"
  shows "Y \<le> isqrt_rto n m"
proof -
  have "Y * Y \<le> n div m"
    using zdiv_mono1 [OF Y(2) m] m by simp
  then have "nat Y ^ 2 \<le> nat (n div m)"
    using Y(1) by (simp add: power2_eq_square nat_mult_distrib [symmetric] nat_mono)
  then have "nat Y \<le> isqrt (nat (n div m))" by (rule le_isqrt)
  then have "Y \<le> int (isqrt (nat (n div m)))" using Y(1) by simp
  then show ?thesis by (simp add: isqrt_rto_def Let_def)
qed

lemma float_sqrt_cases:
  assumes n: "0 < n" and m: "0 < m"
  obtains n' m' q where "0 < n'" "0 < m'" "2 ^ 54 * 2 ^ 54 * m' \<le> n'"
    and "(of_int n' :: rat) / of_int m' = (of_int n / of_int m) / (2 powi q) ^ 2"
    and "\<exists>N D. 0 < N \<and> 0 < D \<and> (of_int N :: rat) / of_int D = of_int (isqrt_rto n' m') * 2 powi q
               \<and> float_sqrt_of_frac n m = fdiv_pos N D"
proof -
  let ?A = "bit_length (nat n)" and ?B = "bit_length (nat m)"
  define q where "q = (int ?A - int ?B - 109) div 2"
  define n' where "n' = (if 0 \<le> q then n else n * 2 ^ nat (- 2 * q))"
  define m' where "m' = (if 0 \<le> q then m * 2 ^ nat (2 * q) else m)"
  have pos: "0 < n'" "0 < m'" using n m by (simp_all add: n'_def m'_def)
  have sq: "((2::rat) powi q) ^ 2 = 2 powi (2 * q)"
    by (simp add: power_int_power' mult.commute)
  have ratio: "(of_int n' :: rat) / of_int m' = (of_int n / of_int m) / (2 powi q) ^ 2"
    unfolding sq n'_def m'_def by (auto simp: power_int_def field_simps)
  have big: "2 ^ 54 * 2 ^ 54 * m' \<le> n'"
  proof -
    have m0: "(0::rat) < of_int m" and m0': "(0::rat) < of_int m'" using m pos by simp_all
    have "2 * q \<le> int ?A - int ?B - 109" unfolding q_def by simp
    then have "(2 powi (2 * q + 108) :: rat) \<le> 2 powi (int ?A - 1 - int ?B)"
      by (intro power_int_increasing) simp_all
    then have "(2 powi (2 * q + 108) :: rat) * of_int m \<le> 2 powi (int ?A - 1 - int ?B) * 2 powi int ?B"
      using bit_length_rat(2) [OF m] m0 by (intro mult_mono) simp_all
    also have "\<dots> = 2 powi (int ?A - 1)"
      by (subst power_int_add [symmetric]) simp_all
    also have "\<dots> \<le> of_int n" by (rule bit_length_rat(1) [OF n])
    finally have "2 powi (2 * q + 108) \<le> (of_int n / of_int m :: rat)"
      using m0 by (simp add: pos_le_divide_eq)
    then have "2 powi (2 * q) * 2 powi 108 \<le> (of_int n / of_int m :: rat)"
      by (subst (asm) power_int_add) simp_all
    then have "2 ^ 108 \<le> (of_int n / of_int m) / (2 powi (2 * q) :: rat)"
      by (simp only: pos_le_divide_eq [OF zero_less_power_int] power_int_numeral mult.commute zero_less_numeral)
    then have "2 ^ 108 \<le> (of_int n' :: rat) / of_int m'" by (simp only: ratio sq)
    then have "(of_int (2 ^ 108 * m') :: rat) \<le> of_int n'"
      using m0' by (simp add: pos_le_divide_eq)
    then have "2 ^ 108 * m' \<le> n'" by (simp only: of_int_le_iff)
    then show ?thesis by simp
  qed
  have num: "0 < isqrt_rto n' m'"
    using le_isqrt_rto [OF pos(2) _ big] by simp
  have "\<exists>N D. 0 < N \<and> 0 < D \<and> (of_int N :: rat) / of_int D = of_int (isqrt_rto n' m') * 2 powi q
               \<and> float_sqrt_of_frac n m = fdiv_pos N D"
  proof (cases "0 \<le> q")
    case True
    then have "float_sqrt_of_frac n m = fdiv_pos (isqrt_rto n' m' * 2 ^ nat q) 1"
      using num unfolding float_sqrt_of_frac_def Let_def q_def [symmetric]
      by (simp add: py_truediv_def n'_def m'_def zero_less_mult_iff)
    then show ?thesis
      using True num by (intro exI [of _ "isqrt_rto n' m' * 2 ^ nat q"] exI [of _ 1])
        (simp add: power_int_def)
  next
    case False
    then have "float_sqrt_of_frac n m = fdiv_pos (isqrt_rto n' m') (2 ^ nat (- q))"
      using num unfolding float_sqrt_of_frac_def Let_def q_def [symmetric]
      by (simp add: py_truediv_def n'_def m'_def)
    then show ?thesis
      using False num by (intro exI [of _ "isqrt_rto n' m'"] exI [of _ "2 ^ nat (- q)"])
        (simp add: power_int_def field_simps)
  qed
  then show thesis by (rule that [OF pos big ratio])
qed

lemma representable_above:
  fixes y :: rat
  assumes y: "y = of_int k * 2 powi f" "0 \<le> k" "k \<le> 2 ^ 53" and big: "2 ^ 53 < y / 2 powi q"
  obtains Y where "y = of_int Y * 2 powi q" "0 \<le> Y"
proof -
  have pq: "(0::rat) < 2 powi q" by simp
  have "q \<le> f"
  proof (rule ccontr)
    assume "\<not> q \<le> f"
    then have "(2 powi f :: rat) \<le> 2 powi q" by (intro power_int_increasing) simp_all
    moreover have "(of_int k :: rat) \<le> of_int (2 ^ 53)" using y(3) by (simp only: of_int_le_iff)
    ultimately have "y \<le> 2 ^ 53 * 2 powi q"
      unfolding y(1) using y(2) by (intro mult_mono) simp_all
    then have "y / 2 powi q \<le> 2 ^ 53" by (simp only: pos_divide_le_eq [OF pq])
    with big show False by simp
  qed
  then have "(2 powi f :: rat) = of_int (2 ^ nat (f - q)) * 2 powi q"
    using power_int_add [of "2::rat" "f - q" q] by (simp add: power_int_nonneg_exp)
  then show thesis
    using y by (intro that [of "k * 2 ^ nat (f - q)"]) simp_all
qed

text \<open>The correctly rounded root compares with a representable value as the exact root does.\<close>

lemma float_sqrt_le:
  assumes n: "0 < n" and m: "0 < m" and y: "representable y" and le: "of_int n / of_int m \<le> y ^ 2"
  shows "float_sqrt_of_frac n m \<le> y"
proof -
  obtain k f where k: "y = of_int k * 2 powi f" "0 \<le> k" "k \<le> 2 ^ 53"
    using y by (auto simp: representable_def)
  have y0: "0 \<le> y" using k by simp
  obtain n' m' q N D where pos: "0 < n'" "0 < m'" and big: "2 ^ 54 * 2 ^ 54 * m' \<le> n'"
    and r: "(of_int n' :: rat) / of_int m' = (of_int n / of_int m) / (2 powi q) ^ 2"
    and ND: "0 < N" "0 < D" "(of_int N :: rat) / of_int D = of_int (isqrt_rto n' m') * 2 powi q"
    and fl: "float_sqrt_of_frac n m = fdiv_pos N D"
    using float_sqrt_cases [OF n m] by metis
  have pq: "(0::rat) < 2 powi q" and pm: "(0::rat) < of_int m'" using pos by simp_all
  have rle: "(of_int n' :: rat) / of_int m' \<le> (y / 2 powi q) ^ 2"
    unfolding r power_divide using le by (rule divide_right_mono) simp
  have "(of_int (2 ^ 54 * 2 ^ 54 * m') :: rat) \<le> of_int n'" using big by (simp only: of_int_le_iff)
  then have "(2 ^ 54) ^ 2 \<le> (of_int n' :: rat) / of_int m'"
    by (simp add: pos_le_divide_eq [OF pm])
  then have "(2 ^ 54) ^ 2 \<le> (y / 2 powi q) ^ 2" using rle by linarith
  then have "2 ^ 54 \<le> y / 2 powi q" by (rule power2_le_imp_le) (use y0 in simp)
  then have "2 ^ 53 < y / 2 powi q" by (rule less_le_trans [rotated]) simp
  then obtain Y where Y: "y = of_int Y * 2 powi q" "0 \<le> Y"
    by (rule representable_above [OF k])
  have "(of_int n' :: rat) / of_int m' \<le> of_int Y ^ 2" using rle unfolding Y(1) by simp
  then have "(of_int n' :: rat) \<le> of_int (Y * Y * m')"
    by (simp add: pos_divide_le_eq [OF pm] power2_eq_square)
  then have "n' \<le> Y * Y * m'" by (simp only: of_int_le_iff)
  then have "isqrt_rto n' m' \<le> Y" using pos Y(2) by (intro isqrt_rto_le) simp_all
  then have "(of_int N :: rat) / of_int D \<le> y"
    unfolding ND(3) Y(1) by (simp add: mult_right_mono)
  then show ?thesis unfolding fl by (rule fdiv_pos_le [OF ND(1,2) y])
qed

lemma le_float_sqrt:
  assumes n: "0 < n" and m: "0 < m" and y: "representable y" and le: "y ^ 2 \<le> of_int n / of_int m"
  shows "y \<le> float_sqrt_of_frac n m"
proof -
  obtain k f where k: "y = of_int k * 2 powi f" "0 \<le> k" "k \<le> 2 ^ 53"
    using y by (auto simp: representable_def)
  obtain n' m' q N D where pos: "0 < n'" "0 < m'" and big: "2 ^ 54 * 2 ^ 54 * m' \<le> n'"
    and r: "(of_int n' :: rat) / of_int m' = (of_int n / of_int m) / (2 powi q) ^ 2"
    and ND: "0 < N" "0 < D" "(of_int N :: rat) / of_int D = of_int (isqrt_rto n' m') * 2 powi q"
    and fl: "float_sqrt_of_frac n m = fdiv_pos N D"
    using float_sqrt_cases [OF n m] by metis
  have pq: "(0::rat) < 2 powi q" and pm: "(0::rat) < of_int m'" using pos by simp_all
  have rle: "(y / 2 powi q) ^ 2 \<le> (of_int n' :: rat) / of_int m'"
    unfolding r power_divide using le by (rule divide_right_mono) simp
  have "y / 2 powi q \<le> of_int (isqrt_rto n' m')"
  proof (cases "2 ^ 53 < y / 2 powi q")
    case True
    then obtain Y where Y: "y = of_int Y * 2 powi q" "0 \<le> Y"
      by (rule representable_above [OF k])
    have "of_int Y ^ 2 \<le> (of_int n' :: rat) / of_int m'" using rle unfolding Y(1) by simp
    then have "of_int (Y * Y * m') \<le> (of_int n' :: rat)"
      by (simp add: pos_le_divide_eq [OF pm] power2_eq_square)
    then have "Y * Y * m' \<le> n'" by (simp only: of_int_le_iff)
    then have "Y \<le> isqrt_rto n' m'" using pos Y(2) by (intro le_isqrt_rto) simp_all
    then show ?thesis unfolding Y(1) by simp
  next
    case False
    have "2 ^ 54 \<le> isqrt_rto n' m'"
      by (rule le_isqrt_rto [OF pos(2) _ big]) simp
    then have "of_int (2 ^ 54) \<le> (of_int (isqrt_rto n' m') :: rat)" by (simp only: of_int_le_iff)
    with False show ?thesis by simp
  qed
  then have "y \<le> (of_int N :: rat) / of_int D"
    unfolding ND(3) by (simp only: pos_divide_le_eq [OF pq])
  then show ?thesis unfolding fl by (rule le_fdiv_pos [OF ND(1,2) y])
qed

section \<open>The sample variance\<close>

definition sq_dev :: "int list \<Rightarrow> int" where
  "sq_dev xs = int (length xs) * sum_list (map (\<lambda>x. x * x) xs) - sum_list xs * sum_list xs"

definition variance :: "int list \<Rightarrow> rat" where
  "variance xs = of_int (sq_dev xs) / of_int (int (length xs) * (int (length xs) - 1))"

text \<open>\<open>n\<close> times the sum of squares exceeds the square of the sum by half of all squared gaps.\<close>

lemma sq_dev_Cons:
  "sq_dev (x # xs) = sq_dev xs + sum_list (map (\<lambda>y. (x - y) * (x - y)) xs)"
proof -
  have "sum_list (map (\<lambda>y. (x - y) * (x - y)) xs) =
      int (length xs) * (x * x) - 2 * x * sum_list xs + sum_list (map (\<lambda>y. y * y) xs)"
    by (induction xs) (simp_all add: algebra_simps)
  then show ?thesis by (simp add: sq_dev_def algebra_simps)
qed

lemma sum_list_sq_nonneg: "0 \<le> sum_list (map (\<lambda>y. (x - y) * (x - y)) (xs :: int list))"
  by (rule sum_list_nonneg) auto

lemma sq_dev_nonneg [simp]: "0 \<le> sq_dev xs"
proof (induction xs)
  case (Cons x xs)
  then show ?case using sum_list_sq_nonneg [of x xs] by (simp add: sq_dev_Cons)
qed (simp add: sq_dev_def)

lemma sq_dev_zero_iff: "sq_dev xs = 0 \<longleftrightarrow> (\<forall>x \<in> set xs. \<forall>y \<in> set xs. x = y)"
proof (induction xs)
  case (Cons x xs)
  have "sum_list (map (\<lambda>y. (x - y) * (x - y)) xs) = 0 \<longleftrightarrow> (\<forall>y \<in> set xs. x = y)"
    by (subst sum_list_nonneg_eq_0_iff) auto
  then show ?case
    using Cons.IH sum_list_sq_nonneg [of x xs] sq_dev_nonneg [of xs]
    by (auto simp: sq_dev_Cons add_nonneg_eq_0_iff)
qed (simp add: sq_dev_def)

lemma stdev_fraction:
  assumes "2 \<le> length xs"
  defines "d \<equiv> int (length xs) * (int (length xs) - 1)"
  shows "py_stdev xs = Inr (float_sqrt_of_frac (sq_dev xs div gcd (sq_dev xs) d) (d div gcd (sq_dev xs) d))"
    and "0 < d div gcd (sq_dev xs) d"
    and "(of_int (sq_dev xs div gcd (sq_dev xs) d) :: rat) / of_int (d div gcd (sq_dev xs) d) = variance xs"
proof -
  let ?g = "gcd (sq_dev xs) d"
  have "2 \<le> int (length xs)" using assms(1) by simp
  then have d: "0 < d" unfolding d_def by (intro mult_pos_pos) linarith+
  then have g: "0 < ?g" by simp
  show "py_stdev xs = Inr (float_sqrt_of_frac (sq_dev xs div ?g) (d div ?g))"
    using assms by (simp add: py_stdev_def sq_dev_def Let_def)
  show d': "0 < d div ?g"
    using d g by (simp add: pos_imp_zdiv_pos_iff zdvd_imp_le)
  have "(of_int (sq_dev xs div ?g * ?g) :: rat) / of_int (d div ?g * ?g) = variance xs"
    by (simp add: variance_def d_def)
  then show "(of_int (sq_dev xs div ?g) :: rat) / of_int (d div ?g) = variance xs"
    using g d by (auto simp del: dvd_div_mult_self split: if_splits)
qed

lemma float_sqrt_zero [simp]: "float_sqrt_of_frac 0 m = 0"
  by (simp add: float_sqrt_of_frac_def isqrt_rto_def isqrt.simps py_truediv_def Let_def)

lemma stdev_total: "2 \<le> length xs \<Longrightarrow> \<exists>s. py_stdev xs = Inr s"
  using stdev_fraction(1) by blast

text \<open>Comparing the computed deviation with a representable bound is comparing the variance.\<close>

lemma variance_nonneg: "0 \<le> variance xs"
  by (cases "length xs") (simp_all add: variance_def)

lemma stdev_le:
  assumes xs: "2 \<le> length xs" and s: "py_stdev xs = Inr s"
    and y: "representable y" and v: "variance xs \<le> y ^ 2"
  shows "s \<le> y"
proof -
  let ?d = "int (length xs) * (int (length xs) - 1)"
  let ?n = "sq_dev xs div gcd (sq_dev xs) ?d" and ?m = "?d div gcd (sq_dev xs) ?d"
  note F = stdev_fraction [OF xs]
  have sn: "s = float_sqrt_of_frac ?n ?m" using F(1) s by simp
  show ?thesis
  proof (cases "?n = 0")
    case True
    then show ?thesis using y by (auto simp: sn representable_def)
  next
    case False
    moreover have "0 \<le> ?n" using F(2) by (simp add: div_int_pos_iff)
    ultimately have "0 < ?n" by simp
    then show ?thesis unfolding sn using float_sqrt_le [OF _ F(2) y] v F(3) by simp
  qed
qed

lemma le_stdev:
  assumes xs: "2 \<le> length xs" and s: "py_stdev xs = Inr s"
    and y: "representable y" "0 < y" and v: "y ^ 2 \<le> variance xs"
  shows "y \<le> s"
proof -
  let ?d = "int (length xs) * (int (length xs) - 1)"
  let ?n = "sq_dev xs div gcd (sq_dev xs) ?d" and ?m = "?d div gcd (sq_dev xs) ?d"
  note F = stdev_fraction [OF xs]
  have sn: "s = float_sqrt_of_frac ?n ?m" using F(1) s by simp
  have "0 < variance xs" using y(2) v by (meson less_le_trans zero_less_power)
  then have "0 < ?n"
    using F(2) unfolding F(3) [symmetric] by (simp add: zero_less_divide_iff)
  then show ?thesis unfolding sn using le_float_sqrt [OF _ F(2) y(1)] v F(3) by simp
qed

lemma variance_zero_iff: "2 \<le> length xs \<Longrightarrow> variance xs = 0 \<longleftrightarrow> sq_dev xs = 0"
  by (auto simp: variance_def)

lemma stdev_nonneg: "2 \<le> length xs \<Longrightarrow> py_stdev xs = Inr s \<Longrightarrow> 0 \<le> s"
proof (cases "variance xs = 0")
  case True
  assume "2 \<le> length xs" and "py_stdev xs = Inr s"
  with True stdev_fraction(1) [of xs] show ?thesis
    by (simp add: variance_zero_iff)
next
  case False
  assume xs: "2 \<le> length xs" and s: "py_stdev xs = Inr s"
  let ?d = "int (length xs) * (int (length xs) - 1)"
  let ?n = "sq_dev xs div gcd (sq_dev xs) ?d" and ?m = "?d div gcd (sq_dev xs) ?d"
  note F = stdev_fraction [OF xs]
  have "0 < variance xs" using False variance_nonneg [of xs] by simp
  then have n: "0 < ?n"
    using F(2) unfolding F(3) [symmetric] by (simp add: zero_less_divide_iff)
  have "0 \<le> float_sqrt_of_frac ?n ?m"
    by (rule le_float_sqrt [OF n F(2)])
      (use n F(2) in \<open>auto simp: representable_def intro!: exI [of _ 0]\<close>)
  then show ?thesis using F(1) s by simp
qed

section \<open>Formatting\<close>

text \<open>\<open>f"{x:.2f}"\<close> for \<open>x \<ge> 0\<close>.\<close>

definition rhe_rat :: "rat \<Rightarrow> int" where
  "rhe_rat x =
     (let f = \<lfloor>x\<rfloor>; r = x - of_int f
      in if 2 * r < 1 then f else if 1 < 2 * r then f + 1 else if even f then f else f + 1)"

definition fmt_2f :: "float64 \<Rightarrow> string" where
  "fmt_2f x =
     (let k = rhe_rat (100 * x)
      in show_int (k div 100) @ ''.'' @ [digit_char (nat (k mod 100 div 10)), digit_char (nat (k mod 10))])"

section \<open>Evaluation on numerals\<close>

lemma bit_length_numeral:
  "bit_length 0 = 0" "bit_length 1 = 1" "bit_length (Suc 0) = 1"
  "bit_length (numeral (num.Bit0 k)) = Suc (bit_length (numeral k))"
  "bit_length (numeral (num.Bit1 k)) = Suc (bit_length (numeral k))"
  by (subst bit_length.simps, simp add: bit_length.simps [of 0])+

lemma isqrt_numeral:
  "isqrt 0 = 0" "isqrt 1 = 1" "isqrt (Suc 0) = 1"
  "isqrt (numeral k) =
     (let r = 2 * isqrt (numeral k div 4) in if (r + 1) ^ 2 \<le> numeral k then r + 1 else r)"
  by (subst isqrt.simps, simp add: isqrt.simps [of 0])+

lemma floor_frac_numeral:
  "\<lfloor>numeral a / numeral b :: rat\<rfloor> = numeral a div numeral b"
  using floor_divide_of_int_eq [of "numeral a" "numeral b", where 'a = rat] by simp

lemmas float_eval = py_stdev_def float_sqrt_of_frac_def isqrt_rto_def isqrt_numeral bit_length_numeral
  py_truediv_def fdiv_pos_def fexp_def scaled_def rhe_div_def power_int_def Let_def power_one_over

end
