(* ===== verification/Config.thy ===== *)
theory Config
  imports PyFloat
begin

text \<open>
  app/config.py: the settings and their defaults. The three settings without a default come from
  the environment; reading it (pydantic-settings) is not modelled.
\<close>

record settings =
  app_env :: string
  app_host :: string
  app_port :: int
  redis_url :: string
  database_url :: string
  secret_key :: string
  rate_limit_requests :: int
  rate_limit_window_seconds :: int
  bloom_filter_capacity :: int
  bloom_filter_error_rate :: float64
  auth_failure_ip_threshold :: int
  auth_failure_user_threshold :: int
  auth_failure_window_seconds :: int
  scraping_entropy_threshold :: float64
  scraping_sample_size :: int
  shadow_mode_enabled :: bool
  shadow_mode_redis_key :: string

definition default_settings :: "string \<Rightarrow> string \<Rightarrow> string \<Rightarrow> settings" where
  "default_settings r_url db_url key =
     \<lparr>app_env = ''development'', app_host = ''0.0.0.0'', app_port = 8000,
      redis_url = r_url, database_url = db_url, secret_key = key,
      rate_limit_requests = 100, rate_limit_window_seconds = 60,
      bloom_filter_capacity = 1000000, bloom_filter_error_rate = py_truediv 1 1000,
      auth_failure_ip_threshold = 10, auth_failure_user_threshold = 20,
      auth_failure_window_seconds = 300, scraping_entropy_threshold = 1 / 2,
      scraping_sample_size = 20, shadow_mode_enabled = True,
      shadow_mode_redis_key = ''config:shadow_mode_enabled''\<rparr>"

lemma default_settings_sel [simp]:
  "app_env (default_settings a b c) = ''development''"
  "rate_limit_requests (default_settings a b c) = 100"
  "rate_limit_window_seconds (default_settings a b c) = 60"
  "bloom_filter_capacity (default_settings a b c) = 1000000"
  "auth_failure_ip_threshold (default_settings a b c) = 10"
  "auth_failure_user_threshold (default_settings a b c) = 20"
  "auth_failure_window_seconds (default_settings a b c) = 300"
  "scraping_entropy_threshold (default_settings a b c) = 1 / 2"
  "scraping_sample_size (default_settings a b c) = 20"
  "shadow_mode_enabled (default_settings a b c) = True"
  "secret_key (default_settings a b c) = c"
  by (simp_all add: default_settings_def)

text \<open>\<open>Depends(get_settings_dep)\<close> is the cached settings object.\<close>

definition get_settings_dep :: "settings \<Rightarrow> settings" where
  "get_settings_dep cached = cached"

end
