(* ===== verification/AbuseDetector.thy ===== *)
theory AbuseDetector
  imports RedisModel PyFloat Config "HOL-Library.Multiset"
begin

text \<open>
  app/services/abuse_detector.py: the two-axis counters of failed logins with the
  credential-stuffing test, and the per-client window of request timestamps with its timing
  entropy (the standard deviation of the gaps, in milliseconds).
\<close>

section \<open>The code\<close>

definition failed_auth_key :: "string \<Rightarrow> string" where
  "failed_auth_key x = ''failed_auth:'' @ x"

definition record_auth_failure ::
  "'r redis \<Rightarrow> string \<Rightarrow> string \<Rightarrow> int \<Rightarrow> ('r, unit) io" where
  "record_auth_failure R ip username window_seconds =
     (let ip_key = failed_auth_key ip; user_key = failed_auth_key username
      in bind (pipe_execute
           [discard (r_incr R ip_key),
            discard (r_expire R ip_key window_seconds),
            discard (r_incr R user_key),
            discard (r_expire R user_key window_seconds)]) (\<lambda>_.
         ret ()))"

text \<open>\<open>int(raw or 0)\<close>: a missing or empty value counts as zero.\<close>

definition int_or_zero :: "string option \<Rightarrow> exn + int" where
  "int_or_zero raw =
     (case raw of None \<Rightarrow> Inr 0 | Some v \<Rightarrow> if v = [] then Inr 0 else py_int v)"

definition is_credential_stuffing ::
  "'r redis \<Rightarrow> string \<Rightarrow> string \<Rightarrow> int \<Rightarrow> int \<Rightarrow> ('r, bool \<times> string) io" where
  "is_credential_stuffing R ip username ip_threshold user_threshold =
     bind (r_mget R [failed_auth_key ip, failed_auth_key username]) (\<lambda>raws.
     bind (lift_result (unpack2 raws)) (\<lambda>(ip_count_raw, user_count_raw).
     bind (lift_result (int_or_zero ip_count_raw)) (\<lambda>ip_count.
     bind (lift_result (int_or_zero user_count_raw)) (\<lambda>user_count.
     if ip_threshold \<le> ip_count then
       ret (True, ''ip_threshold_exceeded:'' @ show_int ip_count)
     else if user_threshold \<le> user_count then
       ret (True, ''user_threshold_exceeded:'' @ show_int user_count)
     else ret (False, [])))))"

definition request_times_key :: "string \<Rightarrow> string" where
  "request_times_key client_id = ''request_times:'' @ client_id"

text \<open>\<open>now\<close> is the reading \<open>int(time.time() * 1000)\<close>.\<close>

definition record_request_timing :: "'r redis \<Rightarrow> int \<Rightarrow> string \<Rightarrow> int \<Rightarrow> ('r, unit) io" where
  "record_request_timing R now client_id max_samples =
     (let key = request_times_key client_id
      in bind (pipe_execute
           [discard (r_zadd R key (show_int now) now),
            discard (r_zremrangebyrank R key 0 (- (max_samples + 1))),
            discard (r_expire R key 3600)]) (\<lambda>_.
         ret ()))"

fun successive_gaps :: "int list \<Rightarrow> int list" where
  "successive_gaps (a # b # ts) = (b - a) # successive_gaps (b # ts)"
| "successive_gaps ts = []"

definition compute_timing_entropy :: "'r redis \<Rightarrow> string \<Rightarrow> ('r, float64 option) io" where
  "compute_timing_entropy R client_id =
     bind (r_zrange R (request_times_key client_id) 0 (-1)) (\<lambda>timestamps.
     if length timestamps < 3 then ret None
     else
       (let gaps = successive_gaps (map snd timestamps)
        in if length gaps < 2 then ret None
           else bind (lift_result (py_stdev gaps)) (\<lambda>sd. ret (Some sd))))"

definition is_bot_behavior ::
  "'r redis \<Rightarrow> int \<Rightarrow> string \<Rightarrow> float64 \<Rightarrow> int \<Rightarrow> ('r, bool \<times> string) io" where
  "is_bot_behavior R now client_id entropy_threshold max_samples =
     bind (record_request_timing R now client_id max_samples) (\<lambda>_.
     bind (compute_timing_entropy R client_id) (\<lambda>entropy.
     case entropy of
       None \<Rightarrow> ret (False, ''insufficient_samples'')
     | Some sd \<Rightarrow>
         (if sd < entropy_threshold then ret (True, ''low_timing_entropy:'' @ fmt_2f sd)
          else ret (False, []))))"

text \<open>All of it runs over the client's interface, so it simulates itself on the keyspace.\<close>

context redis_server
begin

lemma sim_record_auth_failure [sim_intros]:
  "simulates view (record_auth_failure R ip u w) (record_auth_failure ks_redis ip u w)"
  unfolding record_auth_failure_def Let_def ks_redis_sel by (intro sim_intros)

lemma sim_is_credential_stuffing [sim_intros]:
  "simulates view (is_credential_stuffing R ip u a b) (is_credential_stuffing ks_redis ip u a b)"
  unfolding is_credential_stuffing_def Let_def ks_redis_sel by (intro sim_intros)

lemma sim_record_request_timing [sim_intros]:
  "simulates view (record_request_timing R now c k) (record_request_timing ks_redis now c k)"
  unfolding record_request_timing_def Let_def ks_redis_sel by (intro sim_intros)

lemma sim_compute_timing_entropy [sim_intros]:
  "simulates view (compute_timing_entropy R c) (compute_timing_entropy ks_redis c)"
  unfolding compute_timing_entropy_def Let_def ks_redis_sel by (intro sim_intros)

lemma sim_is_bot_behavior [sim_intros]:
  "simulates view (is_bot_behavior R now c t k) (is_bot_behavior ks_redis now c t k)"
  unfolding is_bot_behavior_def by (intro sim_intros)

end

section \<open>Failure counters\<close>

lemma failed_auth_key_inj [simp]: "failed_auth_key a = failed_auth_key b \<longleftrightarrow> a = b"
  by (simp add: failed_auth_key_def)

text \<open>A counter is absent or a small non-negative integer with a deadline.\<close>

definition counter_ok :: "keyspace \<Rightarrow> string \<Rightarrow> bool" where
  "counter_ok ks x \<longleftrightarrow>
     (case entry ks (failed_auth_key x) of
        None \<Rightarrow> True
      | Some (RStr v, Some d) \<Rightarrow> (\<exists>n. v = show_int n \<and> 0 \<le> n \<and> n < 2 ^ 62)
      | _ \<Rightarrow> False)"

definition failures :: "keyspace \<Rightarrow> string \<Rightarrow> int" where
  "failures ks x =
     (case int_or_zero (string_value ks (failed_auth_key x)) of Inl _ \<Rightarrow> 0 | Inr n \<Rightarrow> n)"

lemma int_or_zero_show [simp]: "int_or_zero (Some (show_int n)) = Inr n"
  by (simp add: int_or_zero_def)

lemma int_or_zero_None [simp]: "int_or_zero None = Inr 0"
  by (simp add: int_or_zero_def)

lemma counter_okE:
  assumes "counter_ok ks x"
  obtains (absent) "entry ks (failed_auth_key x) = None" "failures ks x = 0"
    | (present) n d where "entry ks (failed_auth_key x) = Some (RStr (show_int n), Some d)"
        "know ks \<le> d" "0 \<le> n" "n < 2 ^ 62" "failures ks x = n"
proof (cases "entry ks (failed_auth_key x)")
  case None
  then show thesis by (intro absent) (simp_all add: failures_def string_value_def)
next
  case (Some e)
  obtain v d where e: "e = (v, d)" by (cases e)
  with Some assms obtain n d' where n: "v = RStr (show_int n)" "d = Some d'" "0 \<le> n" "n < 2 ^ 62"
    by (cases v; cases d) (auto simp: counter_ok_def)
  with Some e entry_deadline [of ks "failed_auth_key x" v d'] show thesis
    by (intro present) (simp_all add: failures_def string_value_def)
qed

lemma counter_read:
  "counter_ok ks x \<Longrightarrow> int_or_zero (string_value ks (failed_auth_key x)) = Inr (failures ks x)"
  by (erule counter_okE) (simp_all add: string_value_def)

lemma redis_int_show [simp]: "- (2 ^ 63) \<le> n \<Longrightarrow> n < 2 ^ 63 \<Longrightarrow> redis_int (show_int n) = Some n"
  by (simp add: redis_int_def)

text \<open>INCR followed by EXPIRE on a well-formed counter.\<close>

lemma incr_expire_run:
  assumes ok: "counter_ok ks x" and w: "0 < w"
  obtains ks1 ks2 a b where "ks_incr (failed_auth_key x) ks = (Inr a, ks1)"
    and "ks_expire (failed_auth_key x) w ks1 = (Inr b, ks2)"
    and "know ks2 = know ks"
    and "entry ks2 (failed_auth_key x) =
           Some (RStr (show_int (failures ks x + 1)), Some (know ks + w * 1000))"
    and "\<And>k. k \<noteq> failed_auth_key x \<Longrightarrow> entry ks2 k = entry ks k"
  using ok
proof (cases rule: counter_okE)
  case absent
  let ?k = "failed_auth_key x"
  let ?ks1 = "put ?k (RStr (show_int 1)) None ks"
  show thesis
    by (rule that [of 1 ?ks1 1 "put ?k (RStr (show_int 1)) (Some (know ks + w * 1000)) ?ks1"])
      (use absent w in \<open>simp_all add: ks_incr_def ks_expire_def\<close>)
next
  case (present n d)
  let ?k = "failed_auth_key x"
  let ?ks1 = "put ?k (RStr (show_int (n + 1))) (Some d) ks"
  show thesis
    by (rule that [of "n + 1" ?ks1 1 "put ?k (RStr (show_int (n + 1))) (Some (know ks + w * 1000)) ?ks1"])
      (use present w in \<open>simp_all add: ks_incr_def ks_expire_def\<close>)
qed

lemma counter_ok_frame:
  "entry ks' (failed_auth_key x) = entry ks (failed_auth_key x) \<Longrightarrow> counter_ok ks' x = counter_ok ks x"
  "entry ks' (failed_auth_key x) = entry ks (failed_auth_key x) \<Longrightarrow> failures ks' x = failures ks x"
  by (simp_all add: counter_ok_def failures_def string_value_def)

lemma counter_ok_written:
  assumes "entry ks' (failed_auth_key x) = Some (RStr (show_int n), Some d)" "0 \<le> n" "n < 2 ^ 62"
  shows "counter_ok ks' x" and "failures ks' x = n"
  using assms by (auto simp: counter_ok_def failures_def string_value_def)

lemma failures_nonneg: "counter_ok ks x \<Longrightarrow> 0 \<le> failures ks x"
  by (erule counter_okE) simp_all

text \<open>
  One recorded failure: each of the two keys is incremented once, so a key that is both the
  address and the user name is incremented twice; both deadlines are renewed.
\<close>

definition bump :: "string \<Rightarrow> string \<Rightarrow> string \<Rightarrow> int" where
  "bump ip u x = (if ip = x then 1 else 0) + (if u = x then 1 else 0)"

lemma record_failure_run:
  assumes ok: "\<And>x. counter_ok ks x" and small: "\<And>x. failures ks x + 2 < 2 ^ 62" and w: "0 < w"
  obtains ks' where "record_auth_failure ks_redis ip u w ks = (Inr (), ks')"
    and "know ks' = know ks"
    and "\<And>x. counter_ok ks' x" and "\<And>x. failures ks' x = failures ks x + bump ip u x"
    and "\<And>x. x = ip \<or> x = u \<Longrightarrow> \<exists>v. entry ks' (failed_auth_key x) = Some (v, Some (know ks + w * 1000))"
    and "\<And>k. k \<noteq> failed_auth_key ip \<Longrightarrow> k \<noteq> failed_auth_key u \<Longrightarrow> entry ks' k = entry ks k"
proof -
  obtain ks1 ks2 a b where 1: "ks_incr (failed_auth_key ip) ks = (Inr a, ks1)"
      "ks_expire (failed_auth_key ip) w ks1 = (Inr b, ks2)"
    and k2: "know ks2 = know ks"
    and e2: "entry ks2 (failed_auth_key ip) =
              Some (RStr (show_int (failures ks ip + 1)), Some (know ks + w * 1000))"
    and o2: "\<And>k. k \<noteq> failed_auth_key ip \<Longrightarrow> entry ks2 k = entry ks k"
    using incr_expire_run [OF ok w, where x = ip] by metis
  have f2: "counter_ok ks2 x" "failures ks2 x = failures ks x + (if ip = x then 1 else 0)" for x
    using counter_ok_written [OF e2] counter_ok_frame [OF o2, of x] ok [of x]
      failures_nonneg [OF ok, of ip] small [of ip]
    by (cases "ip = x"; simp)+
  obtain ks3 ks4 c d where 3: "ks_incr (failed_auth_key u) ks2 = (Inr c, ks3)"
      "ks_expire (failed_auth_key u) w ks3 = (Inr d, ks4)"
    and k4: "know ks4 = know ks2"
    and e4: "entry ks4 (failed_auth_key u) =
              Some (RStr (show_int (failures ks2 u + 1)), Some (know ks2 + w * 1000))"
    and o4: "\<And>k. k \<noteq> failed_auth_key u \<Longrightarrow> entry ks4 k = entry ks2 k"
    using incr_expire_run [OF f2(1) w, where x = u] by metis
  have f4: "counter_ok ks4 x" "failures ks4 x = failures ks2 x + (if u = x then 1 else 0)" for x
    using counter_ok_written [OF e4] counter_ok_frame [OF o4, of x] f2(1) [of x]
      failures_nonneg [OF f2(1), of u] small [of u] f2(2) [of u]
    by (cases "u = x"; simp split: if_splits)+
  have "record_auth_failure ks_redis ip u w ks = (Inr (), ks4)"
    by (simp add: record_auth_failure_def Let_def pipe_execute_def 1 3 io_simps bind_def ret_def)
  moreover have "\<exists>v. entry ks4 (failed_auth_key x) = Some (v, Some (know ks + w * 1000))"
    if "x = ip \<or> x = u" for x
    using that e2 e4 o4 k2 by (cases "x = u") auto
  ultimately show thesis
    using that [of ks4] k2 k4 f4 f2(2) o2 o4 by (simp add: bump_def)
qed

text \<open>A burst of failures: each event lets time pass and then records one failed login.\<close>

type_synonym failure_event = "int \<times> string \<times> string"

fun record_failures ::
  "'r redis \<Rightarrow> (int \<Rightarrow> 'r \<Rightarrow> 'r) \<Rightarrow> int \<Rightarrow> failure_event list \<Rightarrow> 'r \<Rightarrow> 'r" where
  "record_failures R elapse w [] s = s"
| "record_failures R elapse w ((dt, ip, u) # es) s =
     record_failures R elapse w es (snd (record_auth_failure R ip u w (elapse dt s)))"

definition hits :: "string \<Rightarrow> failure_event list \<Rightarrow> int" where
  "hits x es = sum_list (map (\<lambda>(dt, ip, u). bump ip u x) es)"

definition time_of :: "failure_event list \<Rightarrow> int" where
  "time_of es = sum_list (map fst es)"

context timed_redis
begin

lemma record_failures_view:
  "(\<And>e. e \<in> set es \<Longrightarrow> 0 \<le> fst e) \<Longrightarrow>
   view (record_failures R elapse w es s) = record_failures ks_redis ks_elapse w es (view s)"
proof (induction es arbitrary: s)
  case (Cons e es)
  obtain dt ip u where e: "e = (dt, ip, u)" by (cases e)
  have "view (snd (record_auth_failure R ip u w (elapse dt s))) =
        snd (record_auth_failure ks_redis ip u w (ks_elapse dt (view s)))"
    using simulates_snd [OF sim_record_auth_failure, of ip u w "elapse dt s"] Cons.prems [of e] e
    by (simp add: elapse_law)
  then show ?case using Cons by (simp add: e)
qed simp

end

lemma hits_nonneg: "0 \<le> hits x es"
  unfolding hits_def by (rule sum_list_nonneg) (auto simp: bump_def)

lemma elapse_keeps:
  assumes d: "0 \<le> dt" and "\<And>v e. entry ks k = Some (v, Some e) \<Longrightarrow> know ks + dt \<le> e"
    and "\<And>v. entry ks k \<noteq> Some (v, None)"
  shows "entry (ks_elapse dt ks) k = entry ks k"
  using assms by (auto simp: entry_elapse split: option.splits)

lemma failures_counted_ks:
  assumes w: "0 < w"
    and "\<And>x. counter_ok ks x" and "\<And>x. failures ks x + 2 * int (length es) < 2 ^ 62"
    and "\<And>x v e. entry ks (failed_auth_key x) = Some (v, Some e) \<Longrightarrow> know ks + time_of es \<le> e"
    and "time_of es \<le> w * 1000" and "\<And>e. e \<in> set es \<Longrightarrow> 0 \<le> fst e"
  shows "counter_ok (record_failures ks_redis ks_elapse w es ks) x \<and>
         failures (record_failures ks_redis ks_elapse w es ks) x = failures ks x + hits x es"
  using assms(2-)
proof (induction es arbitrary: ks)
  case Nil
  then show ?case by (simp add: hits_def)
next
  case (Cons e es)
  obtain dt ip u where e: "e = (dt, ip, u)" by (cases e)
  let ?ks = "ks_elapse dt ks"
  have dt: "0 \<le> dt" using Cons.prems(5) [of e] e by simp
  have rest: "0 \<le> time_of es"
    unfolding time_of_def using Cons.prems(5) by (intro sum_list_nonneg) auto
  have t: "time_of (e # es) = dt + time_of es" by (simp add: time_of_def e)
  have same: "entry ?ks (failed_auth_key x) = entry ks (failed_auth_key x)" for x
  proof (rule elapse_keeps [OF dt])
    show "know ks + dt \<le> d" if "entry ks (failed_auth_key x) = Some (v, Some d)" for v d
      using Cons.prems(3) [OF that] t rest by simp
    show "entry ks (failed_auth_key x) \<noteq> Some (v, None)" for v
      using Cons.prems(1) [of x] by (cases v) (auto simp: counter_ok_def)
  qed
  have ok: "counter_ok ?ks x" and fl: "failures ?ks x = failures ks x" for x
    using counter_ok_frame [OF same, of x] Cons.prems(1) [of x] by simp_all
  have small: "failures ?ks x + 2 < 2 ^ 62" for x
    using Cons.prems(2) [of x] by (simp add: fl)
  obtain ks' where r: "record_auth_failure ks_redis ip u w ?ks = (Inr (), ks')"
    and k: "know ks' = know ?ks" and ok': "\<And>x. counter_ok ks' x"
    and f': "\<And>x. failures ks' x = failures ?ks x + bump ip u x"
    and d': "\<And>x. x = ip \<or> x = u \<Longrightarrow>
               \<exists>v. entry ks' (failed_auth_key x) = Some (v, Some (know ?ks + w * 1000))"
    and o': "\<And>k. k \<noteq> failed_auth_key ip \<Longrightarrow> k \<noteq> failed_auth_key u \<Longrightarrow> entry ks' k = entry ?ks k"
    using record_failure_run [OF ok small w, of ip u] by blast
  have "counter_ok (record_failures ks_redis ks_elapse w es ks') x \<and>
        failures (record_failures ks_redis ks_elapse w es ks') x = failures ks' x + hits x es"
  proof (rule Cons.IH [OF ok'])
    show "failures ks' x + 2 * int (length es) < 2 ^ 62" for x
      using Cons.prems(2) [of x] by (auto simp: f' fl bump_def)
    show "know ks' + time_of es \<le> d" if "entry ks' (failed_auth_key x) = Some (v, Some d)" for x v d
    proof (cases "x = ip \<or> x = u")
      case True
      with d' [OF True] that have "d = know ?ks + w * 1000" by auto
      then show ?thesis using k t Cons.prems(4) dt by simp
    next
      case False
      then have "entry ks (failed_auth_key x) = Some (v, Some d)"
        using that o' [of "failed_auth_key x"] same [of x] by simp
      from Cons.prems(3) [OF this] show ?thesis using k t by simp
    qed
    show "time_of es \<le> w * 1000" using t dt Cons.prems(4) by simp
    show "0 \<le> fst e'" if "e' \<in> set es" for e' using Cons.prems(5) that by simp
  qed
  then show ?case by (simp add: e r f' fl hits_def)
qed

text \<open>The verdict of the credential-stuffing test, from the two counts.\<close>

definition stuffing_verdict :: "int \<Rightarrow> int \<Rightarrow> int \<Rightarrow> int \<Rightarrow> bool \<times> string" where
  "stuffing_verdict a b ip_count user_count =
     (if a \<le> ip_count then (True, ''ip_threshold_exceeded:'' @ show_int ip_count)
      else if b \<le> user_count then (True, ''user_threshold_exceeded:'' @ show_int user_count)
      else (False, []))"

lemma stuffing_run:
  assumes "counter_ok ks ip" and "counter_ok ks u"
  shows "is_credential_stuffing ks_redis ip u a b ks =
         (Inr (stuffing_verdict a b (failures ks ip) (failures ks u)), ks)"
  using counter_read [OF assms(1)] counter_read [OF assms(2)]
  by (simp add: is_credential_stuffing_def ks_mget_def io_simps bind_def stuffing_verdict_def)

lemma failure_burst_verdict:
  assumes T: "timed_redis R view elapse" and w: "0 < w"
    and e: "\<And>x. entry (view s) (failed_auth_key x) = None"
    and dts: "list_all (\<lambda>(dt, x, y). 0 \<le> dt) es" and t: "time_of es \<le> w * 1000"
    and n: "length es < 2 ^ 60"
  shows "fst (is_credential_stuffing R ip u a b (record_failures R elapse w es s)) =
         Inr (stuffing_verdict a b (hits ip es) (hits u es))"
proof -
  have dt: "\<And>e. e \<in> set es \<Longrightarrow> 0 \<le> fst e" using dts by (auto simp: list_all_iff)
  let ?t = "record_failures R elapse w es s"
  let ?ks = "record_failures ks_redis ks_elapse w es (view s)"
  have v: "view ?t = ?ks"
    by (rule timed_redis.record_failures_view [OF T dt])
  have 0: "counter_ok (view s) x" "failures (view s) x = 0" for x
    using e [of x] by (simp_all add: counter_ok_def failures_def string_value_def)
  have c: "counter_ok ?ks x \<and> failures ?ks x = failures (view s) x + hits x es" for x
    by (rule failures_counted_ks [OF w 0(1)]) (use e dt t n 0 in simp_all)
  have "redis_server R view" using T by (simp add: timed_redis_def)
  then have "fst (is_credential_stuffing R ip u a b ?t) =
        fst (is_credential_stuffing ks_redis ip u a b ?ks)"
    using simulates_fst [OF redis_server.sim_is_credential_stuffing] v by metis
  then show ?thesis
    using c 0 by (simp add: stuffing_run)
qed

section \<open>The window of request timestamps\<close>

lemma request_times_key_inj [simp]: "request_times_key a = request_times_key b \<longleftrightarrow> a = b"
  by (simp add: request_times_key_def)

definition stamped :: "int list \<Rightarrow> (string \<times> int) list" where
  "stamped ts = map (\<lambda>t. (show_int t, t)) ts"

definition last_n :: "nat \<Rightarrow> 'a list \<Rightarrow> 'a list" where
  "last_n n xs = drop (length xs - n) xs"

lemma last_n_append: "last_n n (last_n n xs @ ys) = last_n n (xs @ ys)"
proof (cases "n \<le> length xs")
  case True
  then show ?thesis
    by (cases "n \<le> length ys") (simp_all add: last_n_def add.commute)
qed (simp add: last_n_def)

lemma last_n_all: "length xs \<le> n \<Longrightarrow> last_n n xs = xs"
  by (simp add: last_n_def)

lemma length_last_n [simp]: "length (last_n n xs) = min n (length xs)"
  by (simp add: last_n_def)

lemma set_last_n: "set (last_n n xs) \<subseteq> set xs"
  unfolding last_n_def by (rule set_drop_subset)

text \<open>The client's samples on the server are \<open>ts\<close>, with a deadline.\<close>

definition samples_at :: "keyspace \<Rightarrow> string \<Rightarrow> int list \<Rightarrow> int \<Rightarrow> bool" where
  "samples_at ks c ts d \<longleftrightarrow>
     (if ts = [] then entry ks (request_times_key c) = None
      else entry ks (request_times_key c) = Some (RZset (stamped ts), Some d))"

text \<open>
  A new stamp goes where the order of the set puts it: \<open>us\<close> are the stamps with \<open>now\<close> among them. For a
  clock that went on these are \<open>ts @ [now]\<close>; for any clock they are the sorted stamps with \<open>now\<close>.
\<close>

definition stamp_in :: "int \<Rightarrow> int list \<Rightarrow> int list" where
  "stamp_in now ts = insort now (removeAll now ts)"

lemma zinsert_newest:
  "(\<And>t. t \<in> set ts \<Longrightarrow> t < now) \<Longrightarrow> zinsert (show_int now) now (stamped ts) = stamped (ts @ [now])"
  using zinsert_last [of "stamped ts" "show_int now" now] by (force simp: stamped_def)

lemma zinsert_sorted: "zinsert (show_int now) now (stamped ts) = stamped (stamp_in now ts)"
proof -
  have f: "filter (\<lambda>(x, c). x \<noteq> show_int now) (stamped ts) = stamped (removeAll now ts)"
    by (induction ts) (auto simp: stamped_def)
  have "insort_key (\<lambda>(x, c). (c, x)) (show_int now, now) (stamped us) = stamped (insort now us)"
    if "now \<notin> set us" for us
    using that by (induction us) (auto simp: stamped_def)
  then show ?thesis by (simp add: zinsert_def f stamp_in_def)
qed

lemma stamp_in_sorted: "sorted_wrt (<) ts \<Longrightarrow> sorted_wrt (<) (last_n k (stamp_in now ts))"
proof -
  assume "sorted_wrt (<) ts"
  then have ts: "sorted ts" "distinct ts" by (simp_all add: strict_sorted_iff)
  then have "sorted (removeAll now ts)" by (induction ts) auto
  then have "sorted (stamp_in now ts) \<and> distinct (stamp_in now ts)"
    using ts(2) by (simp add: stamp_in_def sorted_insort distinct_insort distinct_removeAll)
  then show ?thesis by (simp add: last_n_def strict_sorted_iff sorted_wrt_drop)
qed

lemma record_timing_insert:
  assumes s: "samples_at ks c ts d" and z: "zinsert (show_int now) now (stamped ts) = stamped us" and k: "0 < k"
  obtains ks' where "record_request_timing ks_redis now c (int k) ks = (Inr (), ks')"
    and "know ks' = know ks"
    and "samples_at ks' c (last_n k us) (know ks + 3600 * 1000)"
    and "last_n k us \<noteq> []"
    and "\<And>key. key \<noteq> request_times_key c \<Longrightarrow> entry ks' key = entry ks key"
proof -
  let ?key = "request_times_key c" and ?us = "last_n k us"
  have "stamped us \<noteq> []" unfolding z [symmetric] by (simp add: zinsert_def)
  then have us: "us \<noteq> []" by (simp add: stamped_def)
  obtain a e where 1: "ks_zadd ?key (show_int now) now ks = (Inr a, put ?key (RZset (stamped us)) e ks)"
    and e1: "entry (put ?key (RZset (stamped us)) e ks) ?key = Some (RZset (stamped us), e)"
  proof (cases "ts = []")
    case True
    then have "stamped us = [(show_int now, now)]" using z by (simp add: stamped_def zinsert_def)
    with True that [of 1 None] show thesis using s by (simp add: samples_at_def ks_zadd_def)
  next
    case False
    then have e: "entry ks ?key = Some (RZset (stamped ts), Some d)" using s by (simp add: samples_at_def)
    show thesis
      by (rule that [of "if show_int now \<in> fst ` set (stamped ts) then 0 else 1" "Some d"])
        (use e entry_deadline [OF e] z in \<open>simp_all add: ks_zadd_def\<close>)
  qed
  let ?ks1 = "put ?key (RZset (stamped us)) e ks"
  have ne: "?us \<noteq> []" using k us by (cases us) (auto simp: last_n_def)
  have st: "drop (length us - k) (stamped us) = stamped ?us"
    by (simp add: stamped_def last_n_def drop_map)
  have sne: "stamped ?us \<noteq> []" and len: "length (stamped us) = length us" using ne by (simp_all add: stamped_def)
  have pz: "put_zset ?key (stamped ?us) e ?ks1 = put ?key (RZset (stamped ?us)) e ?ks1"
    using sne by (simp add: put_zset_def)
  have "rank_range (length us) 0 (- (int k + 1)) = (0, length us - k)" by (rule rank_range_keep_last)
  then have "ks_zremrangebyrank ?key 0 (- (int k + 1)) ?ks1 =
      (Inr (int (length us - k)), put ?key (RZset (stamped ?us)) e ?ks1)"
    unfolding ks_zremrangebyrank_def e1 using st len pz by simp
  moreover have "entry (put ?key (RZset (stamped ?us)) e ?ks1) ?key = Some (RZset (stamped ?us), e)"
    using e1 by (cases e) (auto split: if_splits)
  then have "ks_expire ?key 3600 (put ?key (RZset (stamped ?us)) e ?ks1) =
      (Inr 1, put ?key (RZset (stamped ?us)) (Some (know ks + 3600 * 1000))
                (put ?key (RZset (stamped ?us)) e ?ks1))"
    by (simp add: ks_expire_def)
  ultimately have "record_request_timing ks_redis now c (int k) ks =
      (Inr (), put ?key (RZset (stamped ?us)) (Some (know ks + 3600 * 1000))
                (put ?key (RZset (stamped ?us)) e ?ks1))"
    by (simp add: record_request_timing_def Let_def pipe_execute_def 1 io_simps bind_def ret_def)
  then show thesis
    by (rule that) (use ne in \<open>simp_all add: samples_at_def\<close>)
qed

lemma record_timing_run:
  assumes "samples_at ks c ts d" and lt: "\<And>t. t \<in> set ts \<Longrightarrow> t < now" and "0 < k"
  obtains ks' where "record_request_timing ks_redis now c (int k) ks = (Inr (), ks')"
    and "know ks' = know ks"
    and "samples_at ks' c (last_n k (ts @ [now])) (know ks + 3600 * 1000)"
    and "\<And>key. key \<noteq> request_times_key c \<Longrightarrow> entry ks' key = entry ks key"
  using record_timing_insert [OF assms(1) zinsert_newest [OF lt] assms(3)] by blast

text \<open>A history of requests of one client: each lets time pass and is stamped with a clock reading.\<close>

fun record_timings ::
  "'r redis \<Rightarrow> (int \<Rightarrow> 'r \<Rightarrow> 'r) \<Rightarrow> string \<Rightarrow> int \<Rightarrow> (int \<times> int) list \<Rightarrow> 'r \<Rightarrow> 'r" where
  "record_timings R elapse c k [] s = s"
| "record_timings R elapse c k ((dt, now) # es) s =
     record_timings R elapse c k es (snd (record_request_timing R now c k (elapse dt s)))"

definition history_ok :: "(int \<times> int) list \<Rightarrow> bool" where
  "history_ok es \<longleftrightarrow>
     sorted_wrt (<) (map snd es) \<and> list_all (\<lambda>e. 0 \<le> fst e \<and> fst e \<le> 3600 * 1000) es"

context timed_redis
begin

lemma record_timings_view:
  "history_ok es \<Longrightarrow>
   view (record_timings R elapse c k es s) = record_timings ks_redis ks_elapse c k es (view s)"
proof (induction es arbitrary: s)
  case (Cons e es)
  obtain dt now where e: "e = (dt, now)" by (cases e)
  have ok: "history_ok es" and dt: "0 \<le> dt"
    using Cons.prems by (simp_all add: history_ok_def e)
  have "view (snd (record_request_timing R now c k (elapse dt s))) =
        snd (record_request_timing ks_redis now c k (ks_elapse dt (view s)))"
    using simulates_snd [OF sim_record_request_timing, of now c k "elapse dt s"] dt
    by (simp add: elapse_law)
  then show ?case using Cons.IH [OF ok] by (simp add: e)
qed simp

end

lemma samples_elapse:
  assumes s: "samples_at ks c ts d" and dt: "0 \<le> dt" and d: "ts = [] \<or> know ks + dt \<le> d"
  shows "samples_at (ks_elapse dt ks) c ts d"
proof (cases "ts = []")
  case True
  then show ?thesis using s dt by (simp add: samples_at_def entry_elapse)
next
  case False
  have "entry (ks_elapse dt ks) (request_times_key c) = entry ks (request_times_key c)"
    by (rule elapse_keeps [OF dt]) (use s d False in \<open>simp_all add: samples_at_def\<close>)
  then show ?thesis using s by (simp add: samples_at_def)
qed

lemma timings_run_ks:
  assumes "0 < k" and "history_ok es" and "samples_at ks c ts d"
    and "ts = [] \<or> know ks + 3600 * 1000 \<le> d" and "length ts \<le> k"
    and "\<And>t e. t \<in> set ts \<Longrightarrow> e \<in> set es \<Longrightarrow> t < snd e"
  shows "\<exists>d'. samples_at (record_timings ks_redis ks_elapse c (int k) es ks) c
                (last_n k (ts @ map snd es)) d' \<and>
              (ts @ map snd es = [] \<or>
               know (record_timings ks_redis ks_elapse c (int k) es ks) + 3600 * 1000 \<le> d')"
  using assms(2-)
proof (induction es arbitrary: ks ts d)
  case Nil
  then show ?case by (auto simp: last_n_all)
next
  case (Cons e es)
  obtain dt now where e: "e = (dt, now)" by (cases e)
  have ok: "history_ok es" and dt: "0 \<le> dt" "dt \<le> 3600 * 1000"
    and later: "\<And>x. x \<in> set es \<Longrightarrow> now < snd x"
    using Cons.prems(1) by (auto simp: history_ok_def e)
  have s: "samples_at (ks_elapse dt ks) c ts d"
    by (rule samples_elapse [OF Cons.prems(2) dt(1)]) (use Cons.prems(3) dt(2) in auto)
  obtain ks' where r: "record_request_timing ks_redis now c (int k) (ks_elapse dt ks) = (Inr (), ks')"
    and n: "know ks' = know (ks_elapse dt ks)"
    and s': "samples_at ks' c (last_n k (ts @ [now])) (know (ks_elapse dt ks) + 3600 * 1000)"
    by (rule record_timing_run [OF s _ assms(1), of now]) (use Cons.prems(5) [of _ e] e in auto)
  have "\<exists>d'. samples_at (record_timings ks_redis ks_elapse c (int k) es ks') c
               (last_n k (last_n k (ts @ [now]) @ map snd es)) d' \<and>
             (last_n k (ts @ [now]) @ map snd es = [] \<or>
              know (record_timings ks_redis ks_elapse c (int k) es ks') + 3600 * 1000 \<le> d')"
  proof (rule Cons.IH [OF ok s'])
    show "last_n k (ts @ [now]) = [] \<or>
          know ks' + 3600 * 1000 \<le> know (ks_elapse dt ks) + 3600 * 1000" using n by simp
    show "t < snd x" if "t \<in> set (last_n k (ts @ [now]))" "x \<in> set es" for t x
      using that(1) set_last_n [of k "ts @ [now]"] Cons.prems(5) [of t x] that(2) later [of x] by auto
  qed simp
  moreover have "last_n k (ts @ [now]) \<noteq> []"
    using assms(1) by (simp flip: length_0_conv)
  ultimately show ?case by (simp add: e r last_n_append)
qed

lemma successive_gaps_length: "length (successive_gaps ts) = length ts - 1"
  by (induction ts rule: successive_gaps.induct) auto

definition timing_entropy :: "int list \<Rightarrow> exn + float64 option" where
  "timing_entropy ts =
     (if length ts < 3 then Inr None
      else (case py_stdev (successive_gaps ts) of Inl e \<Rightarrow> Inl e | Inr sd \<Rightarrow> Inr (Some sd)))"

lemma entropy_run:
  assumes "samples_at ks c ts d"
  shows "compute_timing_entropy ks_redis c ks = (timing_entropy ts, ks)"
proof (cases "ts = []")
  case True
  then show ?thesis using assms
    by (simp add: samples_at_def compute_timing_entropy_def ks_zrange_def bind_def ret_def
        timing_entropy_def)
next
  case False
  have "ks_zrange (request_times_key c) 0 (-1) ks = (Inr (stamped ts), ks)"
    using assms False by (simp add: samples_at_def ks_zrange_def rank_range_all)
  moreover have "map snd (stamped ts) = ts" "length (stamped ts) = length ts"
    by (simp_all add: stamped_def comp_def)
  moreover have "length ts - Suc 0 < 2 \<longleftrightarrow> length ts < 3" by linarith
  ultimately show ?thesis
    by (simp add: compute_timing_entropy_def bind_def ret_def timing_entropy_def lift_result_def
        Let_def successive_gaps_length split: sum.splits)
qed

lemma timing_entropy_total: "\<exists>v. timing_entropy ts = Inr v"
proof (cases "length ts < 3")
  case False
  then have "2 \<le> length (successive_gaps ts)" by (simp add: successive_gaps_length)
  from stdev_total [OF this] show ?thesis by (auto simp: timing_entropy_def)
qed (simp add: timing_entropy_def)

section \<open>The entropy threshold is a jitter of milliseconds\<close>

lemma sq_dev_mset: "mset xs = mset ys \<Longrightarrow> sq_dev xs = sq_dev ys"
  unfolding sq_dev_def by (metis mset_map size_mset sum_mset_sum_list)

lemma sq_dev_spread:
  assumes "x \<in> set xs" and "y \<in> set xs"
  shows "int (length xs) * ((x - y) * (x - y)) \<le> 2 * sq_dev xs"
proof (cases "x = y")
  case False
  obtain M where M: "mset xs = add_mset x M"
    using multi_member_split [of x "mset xs"] assms(1) by auto
  moreover have "y \<in># mset xs" using assms(2) by simp
  ultimately have "y \<in># M" using False by auto
  then obtain N where N: "M = add_mset y N" by (blast dest: multi_member_split)
  obtain rest where "mset rest = N" using ex_mset by blast
  then have m: "mset xs = mset (x # y # rest)" using M N by simp
  have each: "(x - y) * (x - y) \<le> 2 * ((x - w) * (x - w)) + 2 * ((y - w) * (y - w))" for w
  proof -
    have "0 \<le> ((x - w) + (y - w)) * ((x - w) + (y - w))" by simp
    then show ?thesis by (simp add: algebra_simps)
  qed
  have "int (length rest) * ((x - y) * (x - y)) \<le>
        2 * sum_list (map (\<lambda>w. (x - w) * (x - w)) rest) + 2 * sum_list (map (\<lambda>w. (y - w) * (y - w)) rest)"
  proof (induction rest)
    case (Cons w ws)
    then show ?case using each [of w] by (simp add: algebra_simps)
  qed simp
  moreover have "sq_dev (x # y # rest) = sq_dev rest + sum_list (map (\<lambda>w. (y - w) * (y - w)) rest) +
      ((x - y) * (x - y) + sum_list (map (\<lambda>w. (x - w) * (x - w)) rest))"
    by (simp add: sq_dev_Cons)
  moreover have "int (length (x # y # rest)) * ((x - y) * (x - y)) =
      2 * ((x - y) * (x - y)) + int (length rest) * ((x - y) * (x - y))"
    by (simp only: length_Cons of_nat_Suc distrib_right)
  ultimately have "int (length (x # y # rest)) * ((x - y) * (x - y)) \<le> 2 * sq_dev (x # y # rest)"
    using sq_dev_nonneg [of rest] by linarith
  then show ?thesis
    using m sq_dev_mset [OF m] by (metis size_mset)
qed simp

lemma stdev_half_iff:
  assumes xs: "2 \<le> length xs" "length xs \<le> 256" and s: "py_stdev xs = Inr sd"
  shows "sd < 1 / 2 \<longleftrightarrow> variance xs < 1 / 4"
proof
  assume "sd < 1 / 2"
  moreover have "1 / 2 \<le> sd" if "1 / 4 \<le> variance xs"
    by (rule le_stdev [OF xs(1) s])
      (use that representable_numeral_frac [of 1 1] in \<open>simp_all add: power2_eq_square\<close>)
  ultimately show "variance xs < 1 / 4" by fastforce
next
  let ?n = "int (length xs)"
  let ?y = "1048575 / 2097152 :: rat"
  assume v: "variance xs < 1 / 4"
  have "?n * (?n - 1) \<le> 256 * 255" by (rule mult_mono) (use xs in auto)
  moreover have d: "0 < ?n * (?n - 1)" using xs by (intro mult_pos_pos) linarith+
  moreover have "4 * sq_dev xs < ?n * (?n - 1)"
  proof -
    have "(4 :: rat) * of_int (sq_dev xs) < of_int (?n * (?n - 1))"
      using v d unfolding variance_def by (simp add: divide_less_eq del: of_int_mult of_int_diff)
    then show ?thesis by linarith
  qed
  ultimately have "sq_dev xs * 4398046511104 \<le> 1099509530625 * (?n * (?n - 1))" by linarith
  then have "(of_int (sq_dev xs) :: rat) * 4398046511104 \<le> 1099509530625 * of_int (?n * (?n - 1))"
    by (metis of_int_le_iff of_int_mult of_int_numeral)
  then have "variance xs \<le> ?y ^ 2"
    using d unfolding variance_def by (simp add: divide_le_eq power2_eq_square del: of_int_mult of_int_diff)
  then have "sd \<le> ?y"
    by (rule stdev_le [OF xs(1) s, rotated])
      (use representable_numeral_frac [of 1048575 21] in simp)
  then show "sd < 1 / 2" by simp
qed

lemma equal_gaps_entropy:
  assumes "3 \<le> length ts" and "\<forall>g \<in> set (successive_gaps ts). g = p"
  shows "timing_entropy ts = Inr (Some 0)"
proof -
  let ?g = "successive_gaps ts"
  have l: "2 \<le> length ?g" using assms(1) by (simp add: successive_gaps_length)
  then obtain sd where sd: "py_stdev ?g = Inr sd" using stdev_total by blast
  have "sq_dev ?g = 0" unfolding sq_dev_zero_iff using assms(2) by metis
  then have "variance ?g \<le> 0 ^ 2" by (simp add: variance_def)
  then have "sd \<le> 0"
    by (rule stdev_le [OF l sd, rotated]) (use representable_numeral_frac [of 0 0] in simp)
  with stdev_nonneg [OF l sd] show ?thesis using sd assms(1) by (simp add: timing_entropy_def)
qed

lemma jitter_entropy:
  assumes "3 \<le> length ts" and "length ts \<le> 20" and "timing_entropy ts = Inr (Some sd)"
    and g: "g \<in> set (successive_gaps ts)" "h \<in> set (successive_gaps ts)" and d: "3 \<le> g - h"
  shows "1 / 2 \<le> sd"
proof -
  let ?g = "successive_gaps ts"
  let ?n = "int (length ?g)"
  have l: "2 \<le> length ?g" "length ?g \<le> 19" using assms(1,2) by (simp_all add: successive_gaps_length)
  have sd: "py_stdev ?g = Inr sd"
    using assms(1,3) by (auto simp: timing_entropy_def split: sum.splits)
  have "9 \<le> (g - h) * (g - h)" using mult_mono [of 3 "g - h" 3 "g - h"] d by simp
  then have "?n * 9 \<le> ?n * ((g - h) * (g - h))" by (intro mult_left_mono) auto
  then have "?n * 9 \<le> 2 * sq_dev ?g" using sq_dev_spread [OF g] by linarith
  moreover have "?n * (?n - 1) \<le> ?n * 18" by (rule mult_left_mono) (use l in auto)
  ultimately have "?n * (?n - 1) \<le> 4 * sq_dev ?g" by linarith
  then have "(of_int (?n * (?n - 1)) :: rat) \<le> 4 * of_int (sq_dev ?g)" by linarith
  moreover have "0 < ?n * (?n - 1)" using l by (intro mult_pos_pos) linarith+
  then have "(0 :: rat) < of_int (?n * (?n - 1))" by linarith
  ultimately have "1 / 4 \<le> variance ?g"
    unfolding variance_def by (simp add: le_divide_eq del: of_int_mult of_int_diff)
  then show ?thesis
    using stdev_half_iff [OF l(1) _ sd] l(2) by auto
qed

text \<open>The bot test on a request whose stamp completes the window \<open>ts\<close>.\<close>

definition bot_verdict :: "float64 \<Rightarrow> exn + float64 option \<Rightarrow> exn + bool \<times> string" where
  "bot_verdict thr v =
     (case v of
        Inl e \<Rightarrow> Inl e
      | Inr None \<Rightarrow> Inr (False, ''insufficient_samples'')
      | Inr (Some sd) \<Rightarrow>
          Inr (if sd < thr then (True, ''low_timing_entropy:'' @ fmt_2f sd) else (False, [])))"

lemma window_after_history:
  assumes T: "timed_redis R view elapse" and k: "0 < k" and ok: "history_ok es"
    and e: "entry (view s) (request_times_key c) = None"
  shows "\<exists>d. samples_at (view (record_timings R elapse c (int k) es s)) c (last_n k (map snd es)) d \<and>
             (map snd es = [] \<or> know (view (record_timings R elapse c (int k) es s)) + 3600 * 1000 \<le> d)"
proof -
  have "samples_at (view s) c [] 0" using e by (simp add: samples_at_def)
  then show ?thesis
    using timings_run_ks [OF k ok, of "view s" c "[]" 0]
    by (simp add: timed_redis.record_timings_view [OF T ok])
qed

lemma entropy_after_history:
  assumes T: "timed_redis R view elapse" and k: "0 < k" and ok: "history_ok es"
    and e: "entry (view s) (request_times_key c) = None"
  shows "fst (compute_timing_entropy R c (record_timings R elapse c (int k) es s)) =
         timing_entropy (last_n k (map snd es))"
proof -
  have "redis_server R view" using T by (simp add: timed_redis_def)
  from simulates_fst [OF redis_server.sim_compute_timing_entropy [OF this]]
  show ?thesis
    using window_after_history [OF assms] entropy_run by (metis fst_conv)
qed

lemma record_timings_snoc:
  "record_timings R elapse c k (es @ [(dt, now)]) s =
   snd (record_request_timing R now c k (elapse dt (record_timings R elapse c k es s)))"
  by (induction es arbitrary: s) auto

lemma bot_after_history:
  assumes T: "timed_redis R view elapse" and k: "0 < k" and ok: "history_ok (es @ [(dt, now)])"
    and e: "entry (view s) (request_times_key c) = None"
  shows "fst (is_bot_behavior R now c thr (int k)
           (elapse dt (record_timings R elapse c (int k) es s))) =
         bot_verdict thr (timing_entropy (last_n k (map snd es @ [now])))"
proof -
  let ?s = "elapse dt (record_timings R elapse c (int k) es s)"
  have R: "redis_server R view" using T by (simp add: timed_redis_def)
  have ok': "history_ok es" and dt: "0 \<le> dt" "dt \<le> 3600 * 1000"
    and lt: "\<And>t. t \<in> set (map snd es) \<Longrightarrow> t < now"
    using ok by (auto simp: history_ok_def sorted_wrt_append)
  obtain d where d: "samples_at (view (record_timings R elapse c (int k) es s)) c (last_n k (map snd es)) d"
    "map snd es = [] \<or> know (view (record_timings R elapse c (int k) es s)) + 3600 * 1000 \<le> d"
    using window_after_history [OF T k ok' e] by blast
  have "view ?s = ks_elapse dt (view (record_timings R elapse c (int k) es s))"
    by (rule timed_redis.elapse_law [OF T dt(1)])
  then have "samples_at (view ?s) c (last_n k (map snd es)) d"
    using samples_elapse [OF d(1) dt(1)] d(2) dt(2) by (auto simp: last_n_def)
  then obtain ks' where "record_request_timing ks_redis now c (int k) (view ?s) = (Inr (), ks')"
    by (rule record_timing_run [OF _ _ k, of _ _ _ _ now])
      (use lt set_last_n [of k "map snd es"] in blast)
  then obtain t where t: "record_request_timing R now c (int k) ?s = (Inr (), t)"
    using simulates_run [OF redis_server.sim_record_request_timing [OF R]] by blast
  have "t = record_timings R elapse c (int k) (es @ [(dt, now)]) s"
    by (simp add: record_timings_snoc t)
  with entropy_after_history [OF T k ok e]
  show ?thesis
    by (simp add: is_bot_behavior_def bind_def t bot_verdict_def ret_def prod_eq_iff
        split: sum.splits prod.splits option.splits)
qed

lemma hits_count:
  "hits x es = int (count_list (map (\<lambda>(dt, a, b). a) es) x) + int (count_list (map (\<lambda>(dt, a, b). b) es) x)"
  by (induction es) (auto simp: hits_def bump_def)

lemma hits_all:
  "list_all (\<lambda>(dt, a, b). 0 \<le> dt \<and> a \<noteq> x \<and> b = x) es \<Longrightarrow> hits x es = int (length es)"
  by (induction es) (simp_all add: hits_def bump_def split_beta)

lemma timing_entropy_map:
  "timing_entropy ts =
     (if length ts < 3 then Inr None else map_sum id Some (py_stdev (successive_gaps ts)))"
  by (simp add: timing_entropy_def split: sum.splits)

lemma timing_entropy_nonneg:
  assumes "3 \<le> length ts"
  shows "\<exists>sd. timing_entropy ts = Inr (Some sd) \<and> 0 \<le> sd"
proof -
  have l: "2 \<le> length (successive_gaps ts)" using assms by (simp add: successive_gaps_length)
  with stdev_total obtain sd where "py_stdev (successive_gaps ts) = Inr sd" by blast
  with stdev_nonneg [OF l this] assms show ?thesis by (simp add: timing_entropy_def)
qed

lemma fmt_2f_zero: "fmt_2f 0 = ''0.00''"
proof -
  have r: "rhe_rat 0 = 0" by (simp add: rhe_rat_def)
  have s: "show_int 0 = ''0''" by (simp add: show_int_eval)
  show ?thesis unfolding fmt_2f_def Let_def by (simp add: r s digit_char_eval)
qed

section \<open>Properties\<close>

text \<open>
  C10. The two-axis counters: after any burst of failed logins that fits in one window, on any
  healthy Redis, the credential-stuffing test on an address and a user name answers from the
  exact number of times each of them occurred as the address or as the user name of a failure,
  the address being tested first.
\<close>

theorem stuffing_test_counts_failures:
  assumes "timed_redis R view elapse" and "0 < w"
    and "\<And>x. entry (view s) (failed_auth_key x) = None"
    and "list_all (\<lambda>(dt, x, y). 0 \<le> dt) es" and "time_of es \<le> w * 1000" and "length es < 2 ^ 60"
  shows "fst (is_credential_stuffing R ip u a b (record_failures R elapse w es s)) =
         Inr (stuffing_verdict a b
           (int (count_list (map (\<lambda>(dt, x, y). x) es) ip) + int (count_list (map (\<lambda>(dt, x, y). y) es) ip))
           (int (count_list (map (\<lambda>(dt, x, y). x) es) u) + int (count_list (map (\<lambda>(dt, x, y). y) es) u)))"
  using failure_burst_verdict [OF assms, of ip u a b] by (simp add: hits_count)

theorem stuffing_test_counts_failures_witness:
  "fst (is_credential_stuffing ks_redis ''1.2.3.4'' ''bob'' 2 3
     (record_failures ks_redis ks_elapse 300
        [(0, ''1.2.3.4'', ''ann''), (1000, ''1.2.3.4'', ''bob'')] (empty_keyspace 0))) =
   Inr (True, ''ip_threshold_exceeded:2'')"
  using stuffing_test_counts_failures [OF timed_redis_ks, of 300 "empty_keyspace 0"
      "[(0, ''1.2.3.4'', ''ann''), (1000, ''1.2.3.4'', ''bob'')]" "''1.2.3.4''" "''bob''" 2 3]
  by (simp add: time_of_def stuffing_verdict_def show_int_eval)

text \<open>
  C33. Addresses and user names share one name space: if the failed logins of one window name a
  victim's address as the user name often enough, the test flags the victim's address, for every
  user name it then tries to log in with, although no failure came from that address.
\<close>

theorem victim_address_can_be_locked_out:
  assumes "timed_redis R view elapse" and "0 < w"
    and "\<And>x. entry (view s) (failed_auth_key x) = None"
    and "list_all (\<lambda>(dt, x, y). 0 \<le> dt \<and> x \<noteq> victim \<and> y = victim) es"
    and "time_of es \<le> w * 1000" and "length es < 2 ^ 60" and "a \<le> int (length es)"
  shows "fst (is_credential_stuffing R victim u a b (record_failures R elapse w es s)) =
         Inr (True, ''ip_threshold_exceeded:'' @ show_int (int (length es)))"
proof -
  have "hits victim es = int (length es)"
    using assms(4) by (rule hits_all)
  moreover have "list_all (\<lambda>(dt, x, y). 0 \<le> dt) es"
    using assms(4) by (auto simp: list_all_iff)
  ultimately show ?thesis
    using failure_burst_verdict [OF assms(1-3) _ assms(5,6), of victim u a b] assms(7)
    by (simp add: stuffing_verdict_def)
qed

theorem victim_address_can_be_locked_out_witness:
  "fst (is_credential_stuffing ks_redis ''10.0.0.7'' ''alice'' 2 20
     (record_failures ks_redis ks_elapse 300
        [(0, ''6.6.6.6'', ''10.0.0.7''), (50, ''6.6.6.6'', ''10.0.0.7'')] (empty_keyspace 0))) =
   Inr (True, ''ip_threshold_exceeded:2'')"
  using victim_address_can_be_locked_out [OF timed_redis_ks, of 300 "empty_keyspace 0"
      "''10.0.0.7''" "[(0, ''6.6.6.6'', ''10.0.0.7''), (50, ''6.6.6.6'', ''10.0.0.7'')]" 2 "''alice''" 20]
  by (simp add: time_of_def show_int_eval)

text \<open>
  C20. The timing window: after any run of requests with strictly increasing stamps and pauses of
  at most an hour, the entropy is that of the last \<open>k\<close> stamps: \<open>None\<close> below three, otherwise the
  sample standard deviation of the gaps between neighbours, and it never raises.
\<close>

theorem entropy_of_last_samples:
  assumes "timed_redis R view elapse" and "0 < k" and "history_ok es"
    and "entry (view s) (request_times_key c) = None"
  shows "fst (compute_timing_entropy R c (record_timings R elapse c (int k) es s)) =
         (let ts = last_n k (map snd es)
          in if length ts < 3 then Inr None else map_sum id Some (py_stdev (successive_gaps ts))) \<and>
         (3 \<le> k \<and> 3 \<le> length es \<longrightarrow> (\<exists>sd. fst (compute_timing_entropy R c
            (record_timings R elapse c (int k) es s)) = Inr (Some sd) \<and> 0 \<le> sd))"
  unfolding entropy_after_history [OF assms]
  by (intro conjI impI timing_entropy_nonneg) (simp_all add: Let_def timing_entropy_map)

theorem entropy_of_last_samples_witness:
  "fst (compute_timing_entropy ks_redis ''c'' (record_timings ks_redis ks_elapse ''c'' 3
     [(0, 1), (5, 10), (4, 14), (8, 22)] (empty_keyspace 0))) =
   map_sum id Some (py_stdev [4, 8])"
  using entropy_of_last_samples [OF timed_redis_ks, of 3 "[(0, 1), (5, 10), (4, 14), (8, 22)]"
      "empty_keyspace 0" "''c''"]
  by (simp add: history_ok_def last_n_def)

text \<open>
  A perfectly regular client is a bot: when the last \<open>k\<close> stamps are equally spaced, the test
  on the request that completes them answers \<open>low_timing_entropy:0.00\<close>, at every positive
  threshold.
\<close>

lemma regular_client_is_flagged:
  assumes "timed_redis R view elapse" and "3 \<le> k" and "history_ok (es @ [(dt, now)])"
    and "entry (view s) (request_times_key c) = None" and "0 < thr" and "2 \<le> length es"
    and "\<forall>g \<in> set (successive_gaps (last_n k (map snd es @ [now]))). g = p"
  shows "fst (is_bot_behavior R now c thr (int k)
           (elapse dt (record_timings R elapse c (int k) es s))) =
         Inr (True, ''low_timing_entropy:0.00'')"
proof -
  have "timing_entropy (last_n k (map snd es @ [now])) = Inr (Some 0)"
    by (rule equal_gaps_entropy [OF _ assms(7)]) (use assms(2,6) in simp)
  then show ?thesis
    using bot_after_history [OF assms(1) _ assms(3,4), of k thr] assms(2,5)
    by (simp add: bot_verdict_def fmt_2f_zero)
qed

lemma regular_client_is_flagged_example:
  "fst (is_bot_behavior ks_redis 300 ''c'' (1 / 2) 20
     (ks_elapse 100 (record_timings ks_redis ks_elapse ''c'' 20 [(0, 100), (100, 200)] (empty_keyspace 0)))) =
   Inr (True, ''low_timing_entropy:0.00'')"
  using regular_client_is_flagged [OF timed_redis_ks, of 20 "[(0, 100), (100, 200)]" 100 300
      "empty_keyspace 0" "''c''" "1 / 2" 100]
  by (simp add: history_ok_def last_n_def)

text \<open>
  C38. What the default threshold 0.5 means: the deviation is in milliseconds, so with the default
  window of 20 stamps a client with two gaps that differ by three milliseconds is never flagged,
  however regular it is otherwise.
\<close>

theorem three_ms_of_jitter_escape:
  assumes "timed_redis R view elapse" and "history_ok (es @ [(dt, now)])"
    and "entry (view s) (request_times_key c) = None" and "2 \<le> length es"
    and "g \<in> set (successive_gaps (last_n 20 (map snd es @ [now])))"
    and "h \<in> set (successive_gaps (last_n 20 (map snd es @ [now])))" and "3 \<le> g - h"
  shows "fst (is_bot_behavior R now c (scraping_entropy_threshold (default_settings ru du key)) 20
           (elapse dt (record_timings R elapse c 20 es s))) = Inr (False, [])"
proof -
  let ?ts = "last_n 20 (map snd es @ [now])"
  have l: "3 \<le> length ?ts" "length ?ts \<le> 20" using assms(4) by simp_all
  obtain sd where sd: "timing_entropy ?ts = Inr (Some sd)"
    using timing_entropy_nonneg [OF l(1)] by blast
  have "1 / 2 \<le> sd" by (rule jitter_entropy [OF l sd assms(5,6,7)])
  then show ?thesis
    using bot_after_history [OF assms(1) _ assms(2,3), of 20 "1 / 2"] sd
    by (simp add: bot_verdict_def default_settings_def)
qed

theorem three_ms_of_jitter_escape_witness:
  "fst (is_bot_behavior ks_redis 303 ''c'' (scraping_entropy_threshold (default_settings [] [] [])) 20
     (ks_elapse 103 (record_timings ks_redis ks_elapse ''c'' 20 [(0, 100), (100, 200)] (empty_keyspace 0)))) =
   Inr (False, [])"
  by (rule three_ms_of_jitter_escape [OF timed_redis_ks, of _ _ _ _ _ 103 100])
    (simp_all add: history_ok_def last_n_def)

end
