(* ===== verification/GraduatedResponse.thy ===== *)
theory GraduatedResponse
  imports RedisModel PyFloat
begin

text \<open>
  app/services/graduated_response.py: the enforcement states, the soft block (a Redis key with a
  time to live) and the score that turns the abuse signals of a request into a state and a reason.
  Logging is left out; \<open>asyncio.sleep\<close> is a parameter.
\<close>

section \<open>The code\<close>

definition soft_block_ttl :: int where "soft_block_ttl = 300"

definition throttle_delay_seconds :: int where "throttle_delay_seconds = 2"

datatype client_state = ALLOWED | THROTTLED | SOFT_BLOCK | HARD_BLOCK

primrec state_value :: "client_state \<Rightarrow> string" where
  "state_value ALLOWED = ''allowed''"
| "state_value THROTTLED = ''throttled''"
| "state_value SOFT_BLOCK = ''soft_block''"
| "state_value HARD_BLOCK = ''hard_block''"

definition block_key :: "string \<Rightarrow> string" where
  "block_key ip = ''blocked_ip:'' @ ip"

definition get_client_state :: "'r redis \<Rightarrow> string \<Rightarrow> ('r, client_state) io" where
  "get_client_state R ip =
     bind (r_exists R (block_key ip)) (\<lambda>is_blocked.
     if is_blocked \<noteq> 0 then ret SOFT_BLOCK else ret ALLOWED)"

definition apply_soft_block :: "'r redis \<Rightarrow> string \<Rightarrow> int \<Rightarrow> ('r, unit) io" where
  "apply_soft_block R ip ttl = r_set R (block_key ip) ''1'' (Some ttl)"

definition remove_soft_block :: "'r redis \<Rightarrow> string \<Rightarrow> ('r, unit) io" where
  "remove_soft_block R ip = discard (r_delete R (block_key ip))"

definition apply_throttle :: "(int \<Rightarrow> ('s, unit) io) \<Rightarrow> ('s, unit) io" where
  "apply_throttle sleep = sleep throttle_delay_seconds"

text \<open>\<open>timing_entropy is not None and timing_entropy < x\<close>, and the reason's two decimals.\<close>

definition below :: "float64 option \<Rightarrow> float64 \<Rightarrow> bool" where
  "below timing_entropy x = (case timing_entropy of None \<Rightarrow> False | Some sd \<Rightarrow> sd < x)"

definition entropy_text :: "float64 option \<Rightarrow> string" where
  "entropy_text timing_entropy = (case timing_entropy of None \<Rightarrow> [] | Some sd \<Rightarrow> fmt_2f sd)"

definition compute_abuse_score ::
  "'r redis \<Rightarrow> string \<Rightarrow> string \<Rightarrow> int \<Rightarrow> int \<Rightarrow> float64 option \<Rightarrow> int \<Rightarrow> int \<Rightarrow> float64 \<Rightarrow>
   ('r, client_state \<times> string) io" where
  "compute_abuse_score R ip client_id ip_fail_count user_fail_count timing_entropy
     ip_threshold user_threshold entropy_threshold =
     bind (get_client_state R ip) (\<lambda>existing_state.
     if existing_state = SOFT_BLOCK then ret (SOFT_BLOCK, ''existing_soft_block'')
     else
       (let ip_ratio = (if ip_threshold \<noteq> 0 then py_truediv ip_fail_count ip_threshold else 0);
            user_ratio = (if user_threshold \<noteq> 0 then py_truediv user_fail_count user_threshold else 0);
            low_entropy = below timing_entropy entropy_threshold
        in if ip_threshold \<le> ip_fail_count then
             bind (apply_soft_block R ip soft_block_ttl) (\<lambda>_.
             ret (SOFT_BLOCK, ''ip_failures:'' @ show_int ip_fail_count))
           else if user_threshold \<le> user_fail_count then
             bind (apply_soft_block R ip soft_block_ttl) (\<lambda>_.
             ret (SOFT_BLOCK, ''user_failures:'' @ show_int user_fail_count))
           else if low_entropy \<and> below timing_entropy (entropy_threshold * (1 / 2)) then
             bind (apply_soft_block R ip soft_block_ttl) (\<lambda>_.
             ret (SOFT_BLOCK, ''very_low_entropy:'' @ entropy_text timing_entropy))
           else if float_0_7 \<le> ip_ratio \<or> float_0_7 \<le> user_ratio then
             ret (THROTTLED, ''approaching_auth_threshold'')
           else if low_entropy then
             ret (THROTTLED, ''low_entropy:'' @ entropy_text timing_entropy)
           else ret (ALLOWED, [])))"

context redis_server
begin

lemma sim_get_client_state [sim_intros]:
  "simulates view (get_client_state R ip) (get_client_state ks_redis ip)"
  unfolding get_client_state_def ks_redis_sel by (intro sim_intros)

lemma sim_apply_soft_block [sim_intros]:
  "simulates view (apply_soft_block R ip t) (apply_soft_block ks_redis ip t)"
  unfolding apply_soft_block_def ks_redis_sel by (intro sim_intros)

lemma sim_remove_soft_block [sim_intros]:
  "simulates view (remove_soft_block R ip) (remove_soft_block ks_redis ip)"
  unfolding remove_soft_block_def ks_redis_sel by (intro sim_intros)

lemma sim_compute_abuse_score [sim_intros]:
  "simulates view (compute_abuse_score R ip c ipf uf ent ipt ut et)
     (compute_abuse_score ks_redis ip c ipf uf ent ipt ut et)"
  unfolding compute_abuse_score_def Let_def by (intro sim_intros)

end

section \<open>The order of the states\<close>

primrec severity :: "client_state \<Rightarrow> nat" where
  "severity ALLOWED = 0"
| "severity THROTTLED = 1"
| "severity SOFT_BLOCK = 2"
| "severity HARD_BLOCK = 3"

lemma severity_inj: "severity a = severity b \<longleftrightarrow> a = b"
  by (cases a; cases b) simp_all

instantiation client_state :: linorder
begin

definition less_eq_client_state :: "client_state \<Rightarrow> client_state \<Rightarrow> bool" where
  "a \<le> b \<longleftrightarrow> severity a \<le> severity b"

definition less_client_state :: "client_state \<Rightarrow> client_state \<Rightarrow> bool" where
  "a < b \<longleftrightarrow> severity a < severity b"

instance
  by intro_classes (auto simp: less_eq_client_state_def less_client_state_def severity_inj)

end

section \<open>The decision table\<close>

text \<open>
  The score of a request whose address is not blocked, over the integers: the ratio tests are the
  exact \<open>10 * count >= 7 * threshold\<close>.
\<close>

definition decision ::
  "int \<Rightarrow> int \<Rightarrow> float64 option \<Rightarrow> int \<Rightarrow> int \<Rightarrow> float64 \<Rightarrow> client_state \<times> string" where
  "decision ipf uf ent ipt ut et =
     (if ipt \<le> ipf then (SOFT_BLOCK, ''ip_failures:'' @ show_int ipf)
      else if ut \<le> uf then (SOFT_BLOCK, ''user_failures:'' @ show_int uf)
      else if below ent (et / 2) then (SOFT_BLOCK, ''very_low_entropy:'' @ entropy_text ent)
      else if 7 * ipt \<le> 10 * ipf \<or> 7 * ut \<le> 10 * uf then (THROTTLED, ''approaching_auth_threshold'')
      else if below ent et then (THROTTLED, ''low_entropy:'' @ entropy_text ent)
      else (ALLOWED, []))"

definition blocked :: "keyspace \<Rightarrow> string \<Rightarrow> bool" where
  "blocked ks ip \<longleftrightarrow> entry ks (block_key ip) \<noteq> None"

definition write_block :: "string \<Rightarrow> keyspace \<Rightarrow> keyspace" where
  "write_block ip ks = put (block_key ip) (RStr ''1'') (Some (know ks + soft_block_ttl * 1000)) ks"

lemma block_key_inj [simp]: "block_key a = block_key b \<longleftrightarrow> a = b"
  by (simp add: block_key_def)

lemma below_mono: "below ent x \<Longrightarrow> x \<le> y \<Longrightarrow> below ent y"
  by (auto simp: below_def split: option.splits)

lemma get_client_state_run:
  "get_client_state ks_redis ip ks = (Inr (if blocked ks ip then SOFT_BLOCK else ALLOWED), ks)"
  by (simp add: get_client_state_def ks_exists_def bind_def ret_def blocked_def)

lemma apply_soft_block_run: "apply_soft_block ks_redis ip soft_block_ttl ks = (Inr (), write_block ip ks)"
  by (simp add: apply_soft_block_def ks_set_def soft_block_ttl_def write_block_def)

lemma score_run:
  assumes "0 < ipt" "ipt \<le> 2 ^ 49" and "0 < ut" "ut \<le> 2 ^ 49" and "0 \<le> et"
  shows "compute_abuse_score ks_redis ip c ipf uf ent ipt ut et ks =
     (if blocked ks ip then (Inr (SOFT_BLOCK, ''existing_soft_block''), ks)
      else (Inr (decision ipf uf ent ipt ut et),
            if fst (decision ipf uf ent ipt ut et) = SOFT_BLOCK then write_block ip ks else ks))"
proof -
  have low: "below ent et \<and> below ent (et * (1 / 2)) \<longleftrightarrow> below ent (et / 2)"
    using below_mono [of ent "et / 2" et] assms(5) by auto
  have pos: "ipt \<noteq> 0" "ut \<noteq> 0" using assms by auto
  show ?thesis
    using pos unfolding compute_abuse_score_def Let_def low decision_def
    by (simp add: bind_def ret_def get_client_state_run apply_soft_block_run
        ratio_at_least_0_7 [OF assms(1,2)] ratio_at_least_0_7 [OF assms(3,4)])
qed

lemma decision_mono:
  assumes "ipf \<le> ipf'" and "uf \<le> uf'" and "\<And>x. below ent x \<Longrightarrow> below ent' x"
  shows "fst (decision ipf uf ent ipt ut et) \<le> fst (decision ipf' uf' ent' ipt ut et)"
  using assms by (auto simp: decision_def less_eq_client_state_def)

lemma decision_no_hard_block: "fst (decision ipf uf ent ipt ut et) \<noteq> HARD_BLOCK"
  by (simp add: decision_def)

section \<open>Sequences of scored requests\<close>

text \<open>A request: the time since the previous one, its address and its three signals.\<close>

type_synonym scored_request = "int \<times> string \<times> int \<times> int \<times> float64 option"

fun scores ::
  "'r redis \<Rightarrow> (int \<Rightarrow> 'r \<Rightarrow> 'r) \<Rightarrow> string \<Rightarrow> int \<Rightarrow> int \<Rightarrow> float64 \<Rightarrow> scored_request list \<Rightarrow> 'r \<Rightarrow>
   (exn + client_state \<times> string) list \<times> 'r" where
  "scores R elapse c ipt ut et [] s = ([], s)"
| "scores R elapse c ipt ut et ((dt, ip, ipf, uf, ent) # es) s =
     (case compute_abuse_score R ip c ipf uf ent ipt ut et (elapse dt s) of
        (r, s') \<Rightarrow> (case scores R elapse c ipt ut et es s' of (rs, t) \<Rightarrow> (r # rs, t)))"

context timed_redis
begin

lemma scores_view:
  "list_all (\<lambda>e. 0 \<le> fst e) es \<Longrightarrow>
   scores ks_redis ks_elapse c ipt ut et es (view s) =
   map_prod id view (scores R elapse c ipt ut et es s)"
proof (induction es arbitrary: s)
  case (Cons e es)
  obtain dt ip ipf uf ent where e: "e = (dt, ip, ipf, uf, ent)" by (cases e)
  obtain r s' where r: "compute_abuse_score R ip c ipf uf ent ipt ut et (elapse dt s) = (r, s')"
    by fastforce
  have "compute_abuse_score ks_redis ip c ipf uf ent ipt ut et (ks_elapse dt (view s)) = (r, view s')"
    using simulatesD [OF sim_compute_abuse_score r] Cons.prems by (simp add: elapse_law e)
  then show ?case using Cons by (simp add: e r split: prod.splits)
qed simp

end

definition blocked_until :: "keyspace \<Rightarrow> string \<Rightarrow> int \<Rightarrow> bool" where
  "blocked_until ks ip d \<longleftrightarrow> (\<exists>v. entry ks (block_key ip) = Some (v, Some d))"

lemma blocked_until_elapse:
  "0 \<le> dt \<Longrightarrow> know ks + dt \<le> d \<Longrightarrow> blocked_until ks ip d \<Longrightarrow> blocked_until (ks_elapse dt ks) ip d"
  by (auto simp: blocked_until_def entry_elapse)

lemma blocked_until_blocked: "blocked_until ks ip d \<Longrightarrow> blocked ks ip"
  by (auto simp: blocked_until_def blocked_def)

lemma blocked_after:
  "0 \<le> dt \<Longrightarrow> blocked_until ks ip d \<Longrightarrow> blocked (ks_elapse dt ks) ip \<longleftrightarrow> know ks + dt \<le> d"
  by (auto simp: blocked_until_def blocked_def entry_elapse split: if_splits)

lemma write_block_until:
  "blocked_until (write_block ip ks) ip (know ks + soft_block_ttl * 1000)"
  "know (write_block ip ks) = know ks"
  "ip' \<noteq> ip \<Longrightarrow> blocked_until (write_block ip' ks) ip d = blocked_until ks ip d"
  by (simp_all add: blocked_until_def write_block_def soft_block_ttl_def)

lemma scores_while_blocked:
  assumes "0 < ipt" "ipt \<le> 2 ^ 49" and "0 < ut" "ut \<le> 2 ^ 49" and "0 \<le> et"
    and "list_all (\<lambda>e. 0 \<le> fst e) es" and "blocked_until ks ip d"
    and "know ks + sum_list (map fst es) \<le> d"
    and "scores ks_redis ks_elapse c ipt ut et es ks = (rs, t)"
  shows "list_all2 (\<lambda>e r. fst (snd e) = ip \<longrightarrow> r = Inr (SOFT_BLOCK, ''existing_soft_block'')) es rs \<and>
         blocked_until t ip d \<and> know t = know ks + sum_list (map fst es)"
  using assms(6-)
proof (induction es arbitrary: ks rs)
  case (Cons e es)
  obtain dt a ipf uf ent where e: "e = (dt, a, ipf, uf, ent)" by (cases e)
  have dt: "0 \<le> dt" and rest: "list_all (\<lambda>e. 0 \<le> fst e) es" using Cons.prems(1) by (simp_all add: e)
  then have "0 \<le> sum_list (map fst es)" by (intro sum_list_nonneg) (auto simp: list_all_iff)
  then have b: "blocked_until (ks_elapse dt ks) ip d"
    using Cons.prems(2,3) dt by (intro blocked_until_elapse) (auto simp: e)
  obtain r ks' where run: "compute_abuse_score ks_redis a c ipf uf ent ipt ut et (ks_elapse dt ks) = (r, ks')"
    by fastforce
  have step: "(a = ip \<longrightarrow> r = Inr (SOFT_BLOCK, ''existing_soft_block'')) \<and>
              blocked_until ks' ip d \<and> know ks' = know ks + dt"
    using run b blocked_until_blocked [OF b] write_block_until(2,3)
    by (cases "a = ip") (auto simp: score_run [OF assms(1-5)] split: if_splits)
  obtain rs' where rs: "rs = r # rs'" and s: "scores ks_redis ks_elapse c ipt ut et es ks' = (rs', t)"
    using Cons.prems(4) by (auto simp: e run split: prod.splits)
  have "know ks' + sum_list (map fst es) \<le> d" using step Cons.prems(3) by (simp add: e)
  from Cons.IH [OF rest _ this s] step show ?case by (simp add: e rs)
qed simp

section \<open>Properties\<close>

text \<open>
  C11. The score implements the decision table: on any healthy Redis, for positive thresholds up
  to \<open>2 ^ 49\<close>, the answer is \<open>existing_soft_block\<close> when the address is blocked and otherwise the
  table's, with the floating-point ratio tests being exact; the block is written for 300 seconds
  exactly when the table says \<open>SOFT_BLOCK\<close>, and nothing else changes on the server.
\<close>

theorem score_is_decision_table:
  assumes "redis_server R view" and "0 < ipt \<and> ipt \<le> 2 ^ 49" and "0 < ut \<and> ut \<le> 2 ^ 49"
    and "0 \<le> et"
  shows "map_prod id view (compute_abuse_score R ip c ipf uf ent ipt ut et s) =
     (if blocked (view s) ip then (Inr (SOFT_BLOCK, ''existing_soft_block''), view s)
      else (Inr (decision ipf uf ent ipt ut et),
            if fst (decision ipf uf ent ipt ut et) = SOFT_BLOCK
            then put (block_key ip) (RStr ''1'') (Some (know (view s) + 300 * 1000)) (view s)
            else view s))"
proof -
  have "map_prod id view (compute_abuse_score R ip c ipf uf ent ipt ut et s) =
        compute_abuse_score ks_redis ip c ipf uf ent ipt ut et (view s)"
    using redis_server.sim_compute_abuse_score [OF assms(1)] by (simp add: simulates_def)
  then show ?thesis
    using assms(2-4) by (simp add: score_run write_block_def soft_block_ttl_def)
qed

theorem score_is_decision_table_witness:
  "map_prod id (\<lambda>ks. ks) (compute_abuse_score ks_redis ''1.1.1.1'' ''c'' 7 0 None 10 20 (1 / 2) (empty_keyspace 0)) =
   (Inr (THROTTLED, ''approaching_auth_threshold''), empty_keyspace 0)"
  using score_is_decision_table [OF redis_server_ks, of 10 20 "1 / 2" "''1.1.1.1''" "''c''" 7 0 None "empty_keyspace 0"]
  by (simp add: decision_def below_def blocked_def)

text \<open>
  More failures or a lower entropy never soften the response: over the order
  \<open>ALLOWED < THROTTLED < SOFT_BLOCK < HARD_BLOCK\<close> the state of the answer is monotone in the
  three signals, from the same state of the server.
\<close>

lemma score_is_monotone:
  assumes "redis_server R view" and "0 < ipt \<and> ipt \<le> 2 ^ 49" and "0 < ut \<and> ut \<le> 2 ^ 49" and "0 \<le> et"
    and "ipf \<le> ipf'" and "uf \<le> uf'" and "ent = None \<or> (\<exists>a b. ent = Some a \<and> ent' = Some b \<and> b \<le> a)"
    and "fst (compute_abuse_score R ip c ipf uf ent ipt ut et s) = Inr (st, r)"
  shows "\<exists>st' r'. fst (compute_abuse_score R ip c ipf' uf' ent' ipt ut et s) = Inr (st', r') \<and> st \<le> st'"
proof -
  note sim = simulates_fst [OF redis_server.sim_compute_abuse_score [OF assms(1)]]
  have "below ent' x" if "below ent x" for x
    using assms(7) that by (auto simp: below_def)
  then have "fst (decision ipf uf ent ipt ut et) \<le> fst (decision ipf' uf' ent' ipt ut et)"
    by (rule decision_mono [OF assms(5,6)])
  then show ?thesis
    using assms(2-4,8) unfolding sim
    by (cases "decision ipf' uf' ent' ipt ut et") (auto simp: score_run split: if_splits)
qed

lemma score_is_monotone_example:
  "\<exists>st' r'. fst (compute_abuse_score ks_redis ''1.1.1.1'' ''c'' 10 0 (Some 1) 10 20 (1 / 2) (empty_keyspace 0)) =
     Inr (st', r') \<and> THROTTLED \<le> st'"
  by (rule score_is_monotone [OF redis_server_ks, where ipf = 8 and uf = 0 and ent = None and
        r = "''approaching_auth_threshold''"])
    (simp_all add: score_run decision_def below_def blocked_def)

text \<open>
  C21. A soft block lasts exactly its time to live: after a request was newly soft-blocked, every
  later request of that address within 300 seconds is answered \<open>existing_soft_block\<close>, whatever its
  signals and whatever other addresses do, those requests do not renew the block, and 300 seconds
  after it was written the address is allowed again.
\<close>

theorem soft_block_lasts_its_ttl:
  assumes "timed_redis R view elapse" and "0 < ipt \<and> ipt \<le> 2 ^ 49" and "0 < ut \<and> ut \<le> 2 ^ 49"
    and "0 \<le> et"
    and "compute_abuse_score R ip c ipf uf ent ipt ut et s = (Inr (SOFT_BLOCK, r), s')"
    and "r \<noteq> ''existing_soft_block''"
    and "list_all (\<lambda>e. 0 \<le> fst e) es" and "sum_list (map fst es) \<le> 300 * 1000" and "0 \<le> d"
    and "scores R elapse c ipt ut et es s' = (rs, t)"
  shows "list_all2 (\<lambda>e r. fst (snd e) = ip \<longrightarrow> r = Inr (SOFT_BLOCK, ''existing_soft_block'')) es rs \<and>
         fst (get_client_state R ip (elapse d t)) =
           Inr (if sum_list (map fst es) + d \<le> 300 * 1000 then SOFT_BLOCK else ALLOWED)"
proof -
  let ?D = "know (view s) + soft_block_ttl * 1000"
  have R: "redis_server R view" using assms(1) by (simp add: timed_redis_def)
  have pos: "0 < ipt" "ipt \<le> 2 ^ 49" "0 < ut" "ut \<le> 2 ^ 49" "0 \<le> et" using assms(2-4) by auto
  have "view s' = write_block ip (view s)"
    using simulatesD [OF redis_server.sim_compute_abuse_score [OF R] assms(5)] assms(6)
    by (auto simp: score_run [OF pos] split: if_splits)
  then have b: "blocked_until (view s') ip ?D" and k: "know (view s') = know (view s)"
    by (simp_all add: write_block_until)
  have "scores ks_redis ks_elapse c ipt ut et es (view s') = (rs, view t)"
    using timed_redis.scores_view [OF assms(1,7)] assms(10) by simp
  from scores_while_blocked [OF pos assms(7) b _ this]
  have all: "list_all2 (\<lambda>e r. fst (snd e) = ip \<longrightarrow> r = Inr (SOFT_BLOCK, ''existing_soft_block'')) es rs"
    and t: "blocked_until (view t) ip ?D" "know (view t) = know (view s) + sum_list (map fst es)"
    using assms(8) k by (auto simp: soft_block_ttl_def)
  have "fst (get_client_state R ip (elapse d t)) =
        Inr (if blocked (ks_elapse d (view t)) ip then SOFT_BLOCK else ALLOWED)"
    using simulates_fst [OF redis_server.sim_get_client_state [OF R]] timed_redis.elapse_law [OF assms(1,9)]
    by (simp add: get_client_state_run)
  then show ?thesis
    using all blocked_after [OF assms(9) t(1)] t(2) by (simp add: soft_block_ttl_def)
qed

theorem soft_block_lasts_its_ttl_witness:
  "fst (get_client_state ks_redis ''9.9.9.9'' (ks_elapse 300001
     (snd (compute_abuse_score ks_redis ''9.9.9.9'' ''c'' 10 0 None 10 20 (1 / 2) (empty_keyspace 0))))) =
   Inr ALLOWED"
  using soft_block_lasts_its_ttl [OF timed_redis_ks, of 10 20 "1 / 2" "''9.9.9.9''" "''c''" 10 0 None
      "empty_keyspace 0" "''ip_failures:10''" "write_block ''9.9.9.9'' (empty_keyspace 0)" "[]" 300001 "[]"
      "write_block ''9.9.9.9'' (empty_keyspace 0)"]
  by (simp add: score_run decision_def blocked_def show_int_eval)

text \<open>
  A threshold of zero does not switch a signal off: although the ratio of a zero threshold is
  set to zero, every request then counts as over the threshold and its address is soft-blocked
  for 300 seconds.
\<close>

lemma zero_threshold_blocks_everyone:
  assumes "redis_server R view" and "\<not> blocked (view s) ip" and "0 \<le> ipf"
  shows "map_prod id view (compute_abuse_score R ip c ipf uf ent 0 ut et s) =
         (Inr (SOFT_BLOCK, ''ip_failures:'' @ show_int ipf), write_block ip (view s))"
proof -
  have "map_prod id view (compute_abuse_score R ip c ipf uf ent 0 ut et s) =
        compute_abuse_score ks_redis ip c ipf uf ent 0 ut et (view s)"
    using redis_server.sim_compute_abuse_score [OF assms(1)] by (simp add: simulates_def)
  also have "\<dots> = (Inr (SOFT_BLOCK, ''ip_failures:'' @ show_int ipf), write_block ip (view s))"
    using assms(2,3) by (simp add: compute_abuse_score_def bind_def ret_def get_client_state_run
        apply_soft_block_run)
  finally show ?thesis .
qed

lemma zero_threshold_blocks_everyone_example:
  "fst (compute_abuse_score ks_redis ''1.1.1.1'' ''c'' 0 0 None 0 20 (1 / 2) (empty_keyspace 0)) =
   Inr (SOFT_BLOCK, ''ip_failures:0'')"
  using zero_threshold_blocks_everyone [OF redis_server_ks, of "empty_keyspace 0" "''1.1.1.1''" 0 "''c''" 0 None 20 "1 / 2"]
  by (simp add: blocked_def show_int_eval map_prod_def split_beta)

end
