(* ===== verification/BloomFilterService.thy ===== *)
theory BloomFilterService
  imports RedisModel Config
begin

text \<open>
  app/services/bloom_filter.py and app/workers/bloom_sync.py: the two in-memory filters of a
  gateway instance, their reload from Redis, and the background worker. The filter itself
  (pybloom_live) is a parameter: a record \<open>'b bloom_lib\<close> of its constructor, \<open>add\<close> (which raises
  \<open>IndexError\<close> at capacity) and membership test, with its documented behaviour as the locale
  \<open>membership_filter\<close>.
\<close>

section \<open>The filter library\<close>

record 'b bloom_lib =
  b_new :: "int \<Rightarrow> float64 \<Rightarrow> 'b"
  b_add :: "string \<Rightarrow> 'b \<Rightarrow> exn + 'b"
  b_contains :: "string \<Rightarrow> 'b \<Rightarrow> bool"

fun b_add_all :: "'b bloom_lib \<Rightarrow> string list \<Rightarrow> 'b \<Rightarrow> exn + 'b" where
  "b_add_all L [] f = Inr f"
| "b_add_all L (k # ks) f = (case b_add L k f of Inl e \<Rightarrow> Inl e | Inr f' \<Rightarrow> b_add_all L ks f')"

locale membership_filter =
  fixes L :: "'b bloom_lib"
  assumes new_law: "\<not> b_contains L x (b_new L cap rate)"
    and add_law: "b_add L k f = Inr f' \<Longrightarrow> b_contains L k f'"
    and keep_law: "b_add L k f = Inr f' \<Longrightarrow> b_contains L x f \<Longrightarrow> b_contains L x f'"
    and raise_law: "b_add L k f = Inl e \<Longrightarrow> e = IndexError"
    and capacity_law: "int (length ks) \<le> cap \<Longrightarrow> \<exists>f. b_add_all L ks (b_new L cap rate) = Inr f"
begin

lemma add_all_contains:
  "b_add_all L ks f = Inr f' \<Longrightarrow> x \<in> set ks \<or> b_contains L x f \<Longrightarrow> b_contains L x f'"
  by (induction ks arbitrary: f) (auto split: sum.splits dest: add_law keep_law)

end

text \<open>
  A textbook filter for given hash functions: the set of the bits that are on, and the number of
  keys that were new. It satisfies the contract whatever the hash functions are.
\<close>

record textbook = tb_bits :: "nat fset"  tb_count :: nat  tb_cap :: int

definition textbook :: "(string \<Rightarrow> nat fset) \<Rightarrow> textbook bloom_lib" where
  "textbook h =
     \<lparr>b_new = (\<lambda>cap rate. \<lparr>tb_bits = {||}, tb_count = 0, tb_cap = cap\<rparr>),
      b_add = (\<lambda>k f.
        if tb_cap f < int (tb_count f) then Inl IndexError
        else if h k |\<subseteq>| tb_bits f then Inr f
        else Inr (f\<lparr>tb_bits := tb_bits f |\<union>| h k, tb_count := Suc (tb_count f)\<rparr>)),
      b_contains = (\<lambda>k f. h k |\<subseteq>| tb_bits f)\<rparr>"

lemma textbook_capacity:
  "int (tb_count f) + int (length ks) \<le> tb_cap f \<Longrightarrow> \<exists>g. b_add_all (textbook h) ks f = Inr g"
  by (induction ks arbitrary: f) (auto simp: textbook_def)

lemma textbook_filter: "(\<And>k. h k \<noteq> {||}) \<Longrightarrow> membership_filter (textbook h)"
proof unfold_locales
  fix ks :: "string list" and cap :: int and rate
  assume "int (length ks) \<le> cap"
  then show "\<exists>f. b_add_all (textbook h) ks (b_new (textbook h) cap rate) = Inr f"
    by (intro textbook_capacity) (simp add: textbook_def)
qed (auto simp: textbook_def split: if_splits)

definition char_sums :: "string \<Rightarrow> nat fset" where
  "char_sums s = {|sum_list (map of_char s) mod 97, length s + 100|}"

lemma char_sums_filter: "membership_filter (textbook char_sums)"
  by (rule textbook_filter) (simp add: char_sums_def)

interpretation tb: membership_filter "textbook char_sums"
  by (rule char_sums_filter)

section \<open>The service\<close>

record 'b bloom_service =
  ip_filter :: 'b
  agent_filter :: 'b
  loaded_ip_count :: int
  loaded_agent_count :: int

text \<open>The service works on its own fields and on the shared server.\<close>

record ('r, 'b) node =
  store :: 'r
  bloom :: "'b bloom_service"

definition on_store :: "('r, 'x) io \<Rightarrow> (('r, 'b) node, 'x) io" where
  "on_store m = zoom store (\<lambda>r s. s\<lparr>store := r\<rparr>) m"

definition on_bloom :: "('b bloom_service, 'x) io \<Rightarrow> (('r, 'b) node, 'x) io" where
  "on_bloom m = zoom bloom (\<lambda>b s. s\<lparr>bloom := b\<rparr>) m"

text \<open>
  \<open>BloomFilter(capacity, error_rate)\<close> raises \<open>ValueError\<close> on options out of range, so no service comes to
  be on them; \<open>bloom_filter_service\<close> is the service on options in range, and a reload builds its filters
  with the options the constructor has accepted.
\<close>

definition filter_options_ok :: "settings \<Rightarrow> bool" where
  "filter_options_ok settings \<longleftrightarrow> 0 < bloom_filter_capacity settings \<and>
     0 < bloom_filter_error_rate settings \<and> bloom_filter_error_rate settings < 1"

definition new_filter :: "'b bloom_lib \<Rightarrow> settings \<Rightarrow> 'b" where
  "new_filter L settings = b_new L (bloom_filter_capacity settings) (bloom_filter_error_rate settings)"

definition bloom_filter_service :: "'b bloom_lib \<Rightarrow> settings \<Rightarrow> 'b bloom_service" where
  "bloom_filter_service L settings =
     \<lparr>ip_filter = new_filter L settings, agent_filter = new_filter L settings,
      loaded_ip_count = 0, loaded_agent_count = 0\<rparr>"

definition create_bloom_filter_service :: "'b bloom_lib \<Rightarrow> settings \<Rightarrow> exn + 'b bloom_service" where
  "create_bloom_filter_service L settings =
     (if filter_options_ok settings then Inr (bloom_filter_service L settings) else Inl ValueError)"

lemma default_options_ok: "filter_options_ok (default_settings a b c)"
proof -
  have "0 < py_truediv 1 1000" "py_truediv 1 1000 < 1" by code_simp+
  then show ?thesis by (simp add: filter_options_ok_def default_settings_def)
qed

definition add_ip :: "'b bloom_lib \<Rightarrow> string \<Rightarrow> ('b bloom_service, unit) io" where
  "add_ip L ip = (\<lambda>self. case b_add L ip (ip_filter self) of
      Inl e \<Rightarrow> (Inl e, self) | Inr f \<Rightarrow> (Inr (), self\<lparr>ip_filter := f\<rparr>))"

definition might_contain_ip :: "'b bloom_lib \<Rightarrow> 'b bloom_service \<Rightarrow> string \<Rightarrow> bool" where
  "might_contain_ip L self ip = b_contains L ip (ip_filter self)"

definition add_ip_to_redis :: "'b bloom_lib \<Rightarrow> 'r redis \<Rightarrow> string \<Rightarrow> (('r, 'b) node, unit) io" where
  "add_ip_to_redis L R ip =
     bind (on_store (r_sadd R ''known_bad_ips'' ip)) (\<lambda>_. on_bloom (add_ip L ip))"

definition add_agent :: "'b bloom_lib \<Rightarrow> string \<Rightarrow> ('b bloom_service, unit) io" where
  "add_agent L user_agent = (\<lambda>self. case b_add L user_agent (agent_filter self) of
      Inl e \<Rightarrow> (Inl e, self) | Inr f \<Rightarrow> (Inr (), self\<lparr>agent_filter := f\<rparr>))"

definition might_contain_agent :: "'b bloom_lib \<Rightarrow> 'b bloom_service \<Rightarrow> string \<Rightarrow> bool" where
  "might_contain_agent L self user_agent = b_contains L user_agent (agent_filter self)"

definition add_agent_to_redis :: "'b bloom_lib \<Rightarrow> 'r redis \<Rightarrow> string \<Rightarrow> (('r, 'b) node, unit) io" where
  "add_agent_to_redis L R user_agent =
     bind (on_store (r_sadd R ''abusive_agents'' user_agent)) (\<lambda>_. on_bloom (add_agent L user_agent))"

definition sync_from_redis :: "'b bloom_lib \<Rightarrow> settings \<Rightarrow> 'r redis \<Rightarrow> (('r, 'b) node, int) io" where
  "sync_from_redis L settings R =
     bind (on_store (r_smembers R ''known_bad_ips'')) (\<lambda>bad_ips.
     bind (on_store (r_smembers R ''abusive_agents'')) (\<lambda>bad_agents.
     bind (on_bloom (modify (\<lambda>self. self\<lparr>ip_filter := new_filter L settings,
                                        agent_filter := new_filter L settings\<rparr>))) (\<lambda>_.
     bind (for_io bad_ips (\<lambda>ip. on_bloom (add_ip L ip))) (\<lambda>_.
     bind (for_io bad_agents (\<lambda>agent. on_bloom (add_agent L agent))) (\<lambda>_.
     bind (on_bloom (modify (\<lambda>self. self\<lparr>loaded_ip_count := int (length bad_ips),
                                        loaded_agent_count := int (length bad_agents)\<rparr>))) (\<lambda>_.
     gets (\<lambda>s. loaded_ip_count (bloom s) + loaded_agent_count (bloom s))))))))"

section \<open>The worker\<close>

definition sync_interval_seconds :: int where "sync_interval_seconds = 60"

text \<open>
  The worker's filters are those of the service it creates itself. The infinite loop runs for
  \<open>n\<close> rounds; \<open>sleep\<close> lets the time between two rounds pass.
\<close>

definition worker_round ::
  "'b bloom_lib \<Rightarrow> settings \<Rightarrow> 'r redis \<Rightarrow> (int \<Rightarrow> 'r \<Rightarrow> 'r) \<Rightarrow> (('r, 'b) node, unit) io" where
  "worker_round L settings R sleep =
     bind (try_except (discard (sync_from_redis L settings R)) (\<lambda>exc. ret ())) (\<lambda>_.
     on_store (modify (sleep sync_interval_seconds)))"

primrec worker_rounds ::
  "'b bloom_lib \<Rightarrow> settings \<Rightarrow> 'r redis \<Rightarrow> (int \<Rightarrow> 'r \<Rightarrow> 'r) \<Rightarrow> nat \<Rightarrow> (('r, 'b) node, unit) io" where
  "worker_rounds L settings R sleep 0 = ret ()"
| "worker_rounds L settings R sleep (Suc n) =
     bind (worker_round L settings R sleep) (\<lambda>_. worker_rounds L settings R sleep n)"

definition bloom_sync_worker ::
  "'b bloom_lib \<Rightarrow> settings \<Rightarrow> 'r redis \<Rightarrow> (int \<Rightarrow> 'r \<Rightarrow> 'r) \<Rightarrow> nat \<Rightarrow> 'r \<Rightarrow> ('r, 'b) node" where
  "bloom_sync_worker L settings R sleep n r =
     snd (worker_rounds L settings R sleep n \<lparr>store = r, bloom = bloom_filter_service L settings\<rparr>)"

text \<open>
  main.py's lifespan gives the requests a service of their own: what the worker leaves of the server
  is all they share.
\<close>

definition gateway_after_worker ::
  "'b bloom_lib \<Rightarrow> settings \<Rightarrow> 'r redis \<Rightarrow> (int \<Rightarrow> 'r \<Rightarrow> 'r) \<Rightarrow> nat \<Rightarrow> ('r, 'b) node \<Rightarrow> ('r, 'b) node" where
  "gateway_after_worker L settings R sleep n s =
     s\<lparr>store := store (bloom_sync_worker L settings R sleep n (store s))\<rparr>"

section \<open>Loading the filters\<close>

lemma node_eta [simp]: "s\<lparr>store := store s\<rparr> = (s :: ('r, 'b) node)" "s\<lparr>bloom := bloom s\<rparr> = s"
  by simp_all

lemma on_store_run [io_simps]: "m (store s) = (r, a) \<Longrightarrow> on_store m s = (r, s\<lparr>store := a\<rparr>)"
  by (simp add: on_store_def zoom_def)

lemma on_bloom_run [io_simps]: "m (bloom s) = (r, b) \<Longrightarrow> on_bloom m s = (r, s\<lparr>bloom := b\<rparr>)"
  by (simp add: on_bloom_def zoom_def)

lemma load_ips:
  "\<exists>f. for_io ks (\<lambda>ip. on_bloom (add_ip L ip)) s =
     (case b_add_all L ks (ip_filter (bloom s)) of
        Inl e \<Rightarrow> (Inl e, s\<lparr>bloom := (bloom s)\<lparr>ip_filter := f\<rparr>\<rparr>)
      | Inr g \<Rightarrow> (Inr (), s\<lparr>bloom := (bloom s)\<lparr>ip_filter := g\<rparr>\<rparr>))"
proof (induction ks arbitrary: s)
  case (Cons k ks)
  show ?case
  proof (cases "b_add L k (ip_filter (bloom s))")
    case (Inl e)
    then show ?thesis
      by (intro exI [of _ "ip_filter (bloom s)"]) (simp add: bind_def on_bloom_def zoom_def add_ip_def)
  next
    case (Inr f)
    then show ?thesis
      using Cons.IH [of "s\<lparr>bloom := (bloom s)\<lparr>ip_filter := f\<rparr>\<rparr>"]
      by (cases "b_add_all L ks f") (simp_all add: bind_def on_bloom_def zoom_def add_ip_def)
  qed
qed (simp add: ret_def)

lemma load_agents:
  "\<exists>f. for_io ks (\<lambda>a. on_bloom (add_agent L a)) s =
     (case b_add_all L ks (agent_filter (bloom s)) of
        Inl e \<Rightarrow> (Inl e, s\<lparr>bloom := (bloom s)\<lparr>agent_filter := f\<rparr>\<rparr>)
      | Inr g \<Rightarrow> (Inr (), s\<lparr>bloom := (bloom s)\<lparr>agent_filter := g\<rparr>\<rparr>))"
proof (induction ks arbitrary: s)
  case (Cons k ks)
  show ?case
  proof (cases "b_add L k (agent_filter (bloom s))")
    case (Inl e)
    then show ?thesis
      by (intro exI [of _ "agent_filter (bloom s)"])
        (simp add: bind_def on_bloom_def zoom_def add_agent_def)
  next
    case (Inr f)
    then show ?thesis
      using Cons.IH [of "s\<lparr>bloom := (bloom s)\<lparr>agent_filter := f\<rparr>\<rparr>"]
      by (cases "b_add_all L ks f") (simp_all add: bind_def on_bloom_def zoom_def add_agent_def)
  qed
qed (simp add: ret_def)

text \<open>The two sets the filters are loaded from.\<close>

definition bad_sets :: "keyspace \<Rightarrow> (string fset \<times> string fset) option" where
  "bad_sets ks = (case (set_members ks ''known_bad_ips'', set_members ks ''abusive_agents'') of
      (Some A, Some B) \<Rightarrow> Some (A, B) | _ \<Rightarrow> None)"

lemma sync_run:
  assumes R: "redis_server R view" and sets: "bad_sets (view (store s)) = Some (A, B)"
  obtains ips agents r f g where "distinct ips" "set ips = fset A" "distinct agents" "set agents = fset B"
    and "view r = view (store s)"
    and "sync_from_redis L S R s =
      (case b_add_all L ips (new_filter L S) of
         Inl e \<Rightarrow> (Inl e, \<lparr>store = r, bloom = (bloom s)\<lparr>ip_filter := f, agent_filter := new_filter L S\<rparr>\<rparr>)
       | Inr F \<Rightarrow>
           (case b_add_all L agents (new_filter L S) of
              Inl e \<Rightarrow> (Inl e, \<lparr>store = r, bloom = (bloom s)\<lparr>ip_filter := F, agent_filter := g\<rparr>\<rparr>)
            | Inr G \<Rightarrow> (Inr (int (length ips) + int (length agents)),
                \<lparr>store = r, bloom = \<lparr>ip_filter = F, agent_filter = G,
                   loaded_ip_count = int (length ips), loaded_agent_count = int (length agents)\<rparr>\<rparr>)))"
proof -
  have A: "set_members (view (store s)) ''known_bad_ips'' = Some A"
    and B: "set_members (view (store s)) ''abusive_agents'' = Some B"
    using sets by (auto simp: bad_sets_def split: option.splits)
  obtain ips r1 where 1: "r_smembers R ''known_bad_ips'' (store s) = (Inr ips, r1)"
    "view r1 = view (store s)" "distinct ips" "set ips = fset A"
    using redis_server.smembers_law [OF R, of "''known_bad_ips''" "store s"] A by auto
  obtain agents r where 2: "r_smembers R ''abusive_agents'' r1 = (Inr agents, r)"
    "view r = view r1" "distinct agents" "set agents = fset B"
    using redis_server.smembers_law [OF R, of "''abusive_agents''" r1] B 1(2) by auto
  let ?s1 = "\<lparr>store = r, bloom = (bloom s)\<lparr>ip_filter := new_filter L S, agent_filter := new_filter L S\<rparr>\<rparr>"
  obtain f where f: "for_io ips (\<lambda>ip. on_bloom (add_ip L ip)) ?s1 =
     (case b_add_all L ips (new_filter L S) of
        Inl e \<Rightarrow> (Inl e, ?s1\<lparr>bloom := (bloom ?s1)\<lparr>ip_filter := f\<rparr>\<rparr>)
      | Inr g \<Rightarrow> (Inr (), ?s1\<lparr>bloom := (bloom ?s1)\<lparr>ip_filter := g\<rparr>\<rparr>))"
    using load_ips [of ips L ?s1] by auto
  let ?s2 = "\<lambda>F. ?s1\<lparr>bloom := (bloom ?s1)\<lparr>ip_filter := F\<rparr>\<rparr>"
  have "\<exists>g. \<forall>F. b_add_all L ips (new_filter L S) = Inr F \<longrightarrow>
     for_io agents (\<lambda>a. on_bloom (add_agent L a)) (?s2 F) =
     (case b_add_all L agents (new_filter L S) of
        Inl e \<Rightarrow> (Inl e, (?s2 F)\<lparr>bloom := (bloom (?s2 F))\<lparr>agent_filter := g\<rparr>\<rparr>)
      | Inr G \<Rightarrow> (Inr (), (?s2 F)\<lparr>bloom := (bloom (?s2 F))\<lparr>agent_filter := G\<rparr>\<rparr>))"
  proof (cases "b_add_all L ips (new_filter L S)")
    case (Inr F)
    then show ?thesis using load_agents [of agents L "?s2 F"] by simp
  qed simp
  then obtain g where g: "\<And>F. b_add_all L ips (new_filter L S) = Inr F \<Longrightarrow>
     for_io agents (\<lambda>a. on_bloom (add_agent L a)) (?s2 F) =
     (case b_add_all L agents (new_filter L S) of
        Inl e \<Rightarrow> (Inl e, (?s2 F)\<lparr>bloom := (bloom (?s2 F))\<lparr>agent_filter := g\<rparr>\<rparr>)
      | Inr G \<Rightarrow> (Inr (), (?s2 F)\<lparr>bloom := (bloom (?s2 F))\<lparr>agent_filter := G\<rparr>\<rparr>))"
    by blast
  show thesis
  proof (rule that [OF 1(3,4) 2(3,4)])
    show "view r = view (store s)" using 1 2 by simp
    have "sync_from_redis L S R s =
       bind (for_io ips (\<lambda>ip. on_bloom (add_ip L ip))) (\<lambda>_.
       bind (for_io agents (\<lambda>agent. on_bloom (add_agent L agent))) (\<lambda>_.
       bind (on_bloom (modify (\<lambda>self. self\<lparr>loaded_ip_count := int (length ips),
                                          loaded_agent_count := int (length agents)\<rparr>))) (\<lambda>_.
       gets (\<lambda>s. loaded_ip_count (bloom s) + loaded_agent_count (bloom s))))) ?s1"
      unfolding sync_from_redis_def
      by (subst bind_run_Inr, rule on_store_run, rule 1(1), subst bind_run_Inr, rule on_store_run,
          simp add: 2(1), subst bind_run_Inr, rule on_bloom_run, rule modify_run) (cases s; simp)
    also have "\<dots> = (case b_add_all L ips (new_filter L S) of
         Inl e \<Rightarrow> (Inl e, \<lparr>store = r, bloom = (bloom s)\<lparr>ip_filter := f, agent_filter := new_filter L S\<rparr>\<rparr>)
       | Inr F \<Rightarrow>
           (case b_add_all L agents (new_filter L S) of
              Inl e \<Rightarrow> (Inl e, \<lparr>store = r, bloom = (bloom s)\<lparr>ip_filter := F, agent_filter := g\<rparr>\<rparr>)
            | Inr G \<Rightarrow> (Inr (int (length ips) + int (length agents)),
                \<lparr>store = r, bloom = \<lparr>ip_filter = F, agent_filter = G,
                   loaded_ip_count = int (length ips), loaded_agent_count = int (length agents)\<rparr>\<rparr>)))"
      using f g by (cases "b_add_all L ips (new_filter L S)"; cases "b_add_all L agents (new_filter L S)")
        (simp_all add: bind_def on_bloom_def zoom_def modify_def gets_def)
    finally show "sync_from_redis L S R s = \<dots>" .
  qed
qed

text \<open>The two sets, stored without a deadline as SADD stores them.\<close>

definition sets_are :: "keyspace \<Rightarrow> string fset \<Rightarrow> string fset \<Rightarrow> bool" where
  "sets_are ks A B \<longleftrightarrow>
     entry ks ''known_bad_ips'' = (if A = {||} then None else Some (RSet A, None)) \<and>
     entry ks ''abusive_agents'' = (if B = {||} then None else Some (RSet B, None))"

lemma sets_are_bad_sets: "sets_are ks A B \<Longrightarrow> bad_sets ks = Some (A, B)"
  by (auto simp: sets_are_def bad_sets_def set_members_def split: if_splits)

lemma sets_are_elapse: "0 \<le> d \<Longrightarrow> sets_are ks A B \<Longrightarrow> sets_are (ks_elapse d ks) A B"
  by (simp add: sets_are_def entry_elapse)

lemma sadd_ip_sets:
  "sets_are ks A B \<Longrightarrow>
   \<exists>n ks'. ks_sadd ''known_bad_ips'' ip ks = (Inr n, ks') \<and> sets_are ks' (finsert ip A) B"
  by (auto simp: sets_are_def ks_sadd_def split: if_splits)

lemma length_fcard: "distinct xs \<Longrightarrow> set xs = fset A \<Longrightarrow> length xs = fcard A"
  by (simp add: fcard.rep_eq flip: distinct_card)

lemma sync_success:
  assumes "redis_server R view" and L: "membership_filter L" and "bad_sets (view (store s)) = Some (A, B)"
    and "int (fcard A) \<le> bloom_filter_capacity S" and "int (fcard B) \<le> bloom_filter_capacity S"
  obtains s' where "sync_from_redis L S R s = (Inr (int (fcard A) + int (fcard B)), s')"
    and "view (store s') = view (store s)"
    and "loaded_ip_count (bloom s') = int (fcard A)" "loaded_agent_count (bloom s') = int (fcard B)"
    and "\<And>ip. ip |\<in>| A \<Longrightarrow> might_contain_ip L (bloom s') ip"
    and "\<And>a. a |\<in>| B \<Longrightarrow> might_contain_agent L (bloom s') a"
proof -
  obtain ips agents r f g where d: "distinct ips" "set ips = fset A" "distinct agents" "set agents = fset B"
    and r: "view r = view (store s)"
    and run: "sync_from_redis L S R s =
      (case b_add_all L ips (new_filter L S) of
         Inl e \<Rightarrow> (Inl e, \<lparr>store = r, bloom = (bloom s)\<lparr>ip_filter := f, agent_filter := new_filter L S\<rparr>\<rparr>)
       | Inr F \<Rightarrow>
           (case b_add_all L agents (new_filter L S) of
              Inl e \<Rightarrow> (Inl e, \<lparr>store = r, bloom = (bloom s)\<lparr>ip_filter := F, agent_filter := g\<rparr>\<rparr>)
            | Inr G \<Rightarrow> (Inr (int (length ips) + int (length agents)),
                \<lparr>store = r, bloom = \<lparr>ip_filter = F, agent_filter = G,
                   loaded_ip_count = int (length ips), loaded_agent_count = int (length agents)\<rparr>\<rparr>)))"
    by (rule sync_run [OF assms(1,3)])
  have len: "length ips = fcard A" "length agents = fcard B" using d by (simp_all add: length_fcard)
  obtain F where F: "b_add_all L ips (new_filter L S) = Inr F"
    using membership_filter.capacity_law [OF L, of ips] assms(4) len by (auto simp: new_filter_def)
  obtain G where G: "b_add_all L agents (new_filter L S) = Inr G"
    using membership_filter.capacity_law [OF L, of agents] assms(5) len by (auto simp: new_filter_def)
  show thesis
    using d r len membership_filter.add_all_contains [OF L F] membership_filter.add_all_contains [OF L G]
    by (intro that [of "\<lparr>store = r, bloom = \<lparr>ip_filter = F, agent_filter = G,
          loaded_ip_count = int (length ips), loaded_agent_count = int (length agents)\<rparr>\<rparr>"])
      (simp_all add: run F G might_contain_ip_def might_contain_agent_def)
qed

lemma sync_failure:
  assumes "redis_server R view" and L: "membership_filter L" and "bad_sets (view (store s)) = Some (A, B)"
    and "int (fcard B) \<le> bloom_filter_capacity S" and "sync_from_redis L S R s = (Inl e, s')"
  shows "e = IndexError \<and> agent_filter (bloom s') = new_filter L S \<and>
         loaded_ip_count (bloom s') = loaded_ip_count (bloom s)"
proof -
  obtain ips agents r f g where d: "distinct ips" "set ips = fset A" "distinct agents" "set agents = fset B"
    and r: "view r = view (store s)"
    and run: "sync_from_redis L S R s =
      (case b_add_all L ips (new_filter L S) of
         Inl e \<Rightarrow> (Inl e, \<lparr>store = r, bloom = (bloom s)\<lparr>ip_filter := f, agent_filter := new_filter L S\<rparr>\<rparr>)
       | Inr F \<Rightarrow>
           (case b_add_all L agents (new_filter L S) of
              Inl e \<Rightarrow> (Inl e, \<lparr>store = r, bloom = (bloom s)\<lparr>ip_filter := F, agent_filter := g\<rparr>\<rparr>)
            | Inr G \<Rightarrow> (Inr (int (length ips) + int (length agents)),
                \<lparr>store = r, bloom = \<lparr>ip_filter = F, agent_filter = G,
                   loaded_ip_count = int (length ips), loaded_agent_count = int (length agents)\<rparr>\<rparr>)))"
    by (rule sync_run [OF assms(1,3)])
  obtain G where G: "b_add_all L agents (new_filter L S) = Inr G"
    using membership_filter.capacity_law [OF L, of agents] assms(4) length_fcard [OF d(3,4)]
    by (auto simp: new_filter_def)
  have ips: "b_add_all L ips (new_filter L S) = Inl e"
    using assms(5) G by (auto simp: run split: sum.splits)
  have "b_add_all L ks h = Inl e \<Longrightarrow> e = IndexError" for ks h
    by (induction ks arbitrary: h) (auto split: sum.splits dest: membership_filter.raise_law [OF L])
  with ips show ?thesis using assms(5) by (auto simp: run)
qed

lemma add_ip_to_redis_run:
  assumes R: "redis_server R view" and L: "membership_filter L" and sets: "sets_are (view (store s)) A B"
  obtains r t where "add_ip_to_redis L R ip s = (r, t)"
    and "sets_are (view (store t)) (finsert ip A) B"
    and "r = Inr () \<Longrightarrow> might_contain_ip L (bloom t) ip"
    and "agent_filter (bloom t) = agent_filter (bloom s)"
proof -
  obtain n ks' where "ks_sadd ''known_bad_ips'' ip (view (store s)) = (Inr n, ks')"
    and k: "sets_are ks' (finsert ip A) B"
    using sadd_ip_sets [OF sets] by blast
  from simulates_run [OF redis_server.sadd_law [OF R] this(1)]
  obtain q where q: "r_sadd R ''known_bad_ips'' ip (store s) = (Inr n, q)" "view q = ks'" by blast
  show thesis
  proof (cases "b_add L ip (ip_filter (bloom s))")
    case (Inl e)
    then show thesis
      using q k by (intro that [of "Inl e" "s\<lparr>store := q\<rparr>"])
        (simp_all add: add_ip_to_redis_def bind_def on_store_def on_bloom_def zoom_def add_ip_def)
  next
    case (Inr f)
    then show thesis
      using q k membership_filter.add_law [OF L Inr]
      by (intro that [of "Inr ()" "s\<lparr>store := q, bloom := (bloom s)\<lparr>ip_filter := f\<rparr>\<rparr>"])
        (simp_all add: add_ip_to_redis_def bind_def on_store_def on_bloom_def zoom_def add_ip_def
          might_contain_ip_def)
  qed
qed

lemma worker_round_run:
  assumes "timed_redis R view elapse" and L: "membership_filter L"
    and "int (fcard A) \<le> bloom_filter_capacity S" and "int (fcard B) \<le> bloom_filter_capacity S"
    and sets: "sets_are (view (store s)) A B"
  shows "\<exists>s'. worker_round L S R (\<lambda>d. elapse (d * 1000)) s = (Inr (), s') \<and>
           sets_are (view (store s')) A B \<and> (\<forall>ip. ip |\<in>| A \<longrightarrow> might_contain_ip L (bloom s') ip)"
proof -
  have R: "redis_server R view" using assms(1) by (simp add: timed_redis_def)
  obtain t where t: "sync_from_redis L S R s = (Inr (int (fcard A) + int (fcard B)), t)"
    and v: "view (store t) = view (store s)"
    and c: "\<And>ip. ip |\<in>| A \<Longrightarrow> might_contain_ip L (bloom t) ip"
    by (rule sync_success [OF R L sets_are_bad_sets [OF sets] assms(3,4)]) blast
  have "worker_round L S R (\<lambda>d. elapse (d * 1000)) s = (Inr (), t\<lparr>store := elapse 60000 (store t)\<rparr>)"
    by (simp add: worker_round_def t bind_def try_except_def discard_def ret_def on_store_def zoom_def
        modify_def sync_interval_seconds_def)
  then show ?thesis
    using sets v c timed_redis.elapse_law [OF assms(1), of 60000 "store t"]
    by (simp add: sets_are_elapse)
qed

lemma worker_rounds_run:
  assumes "timed_redis R view elapse" and L: "membership_filter L"
    and "int (fcard A) \<le> bloom_filter_capacity S" and "int (fcard B) \<le> bloom_filter_capacity S"
    and "sets_are (view (store s)) A B"
  shows "\<exists>s'. worker_rounds L S R (\<lambda>d. elapse (d * 1000)) (Suc n) s = (Inr (), s') \<and>
           sets_are (view (store s')) A B \<and> (\<forall>ip. ip |\<in>| A \<longrightarrow> might_contain_ip L (bloom s') ip)"
  using assms(5)
proof (induction n arbitrary: s)
  case (0 s)
  show ?case using worker_round_run [OF assms(1-4) 0] by (auto simp: bind_def ret_def)
next
  case (Suc n s)
  obtain u where u: "worker_round L S R (\<lambda>d. elapse (d * 1000)) s = (Inr (), u)"
    "sets_are (view (store u)) A B"
    using worker_round_run [OF assms(1-4) Suc.prems] by blast
  then show ?case
    using Suc.IH [OF u(2)] by (subst worker_rounds.simps) (simp add: bind_def)
qed

section \<open>Properties\<close>

text \<open>
  C17. No false negatives after a sync: on a healthy Redis whose two sets fit the configured
  capacity, \<open>sync_from_redis\<close> returns, leaves Redis as it was, counts both sets exactly, and from
  then on every stored address and user agent is recognised.
\<close>

theorem sync_has_no_false_negatives:
  assumes "redis_server R view" and "membership_filter L"
    and "bad_sets (view (store s)) = Some (A, B)"
    and "int (fcard A) \<le> bloom_filter_capacity S" and "int (fcard B) \<le> bloom_filter_capacity S"
  shows "\<exists>s'. sync_from_redis L S R s = (Inr (int (fcard A) + int (fcard B)), s') \<and>
           view (store s') = view (store s) \<and>
           loaded_ip_count (bloom s') = int (fcard A) \<and> loaded_agent_count (bloom s') = int (fcard B) \<and>
           (\<forall>ip. ip |\<in>| A \<longrightarrow> might_contain_ip L (bloom s') ip) \<and>
           (\<forall>a. a |\<in>| B \<longrightarrow> might_contain_agent L (bloom s') a)"
  by (rule sync_success [OF assms]) blast

theorem sync_has_no_false_negatives_witness:
  "fst (sync_from_redis (textbook char_sums) (default_settings [] [] []) ks_redis
     \<lparr>store = put ''known_bad_ips'' (RSet {|''6.6.6.6'', ''7.7.7.7''|}) None (empty_keyspace 0),
      bloom = bloom_filter_service (textbook char_sums) (default_settings [] [] [])\<rparr>) = Inr 2"
  using sync_has_no_false_negatives [OF redis_server_ks char_sums_filter,
      of "\<lparr>store = put ''known_bad_ips'' (RSet {|''6.6.6.6'', ''7.7.7.7''|}) None (empty_keyspace 0),
           bloom = bloom_filter_service (textbook char_sums) (default_settings [] [] [])\<rparr>"
        "{|''6.6.6.6'', ''7.7.7.7''|}" "{||}" "default_settings [] [] []"]
  by (auto simp: bad_sets_def set_members_def fcard_finsert_if fcard_fempty)

text \<open>
  A hard block reaches every instance: blocking an address stores it in Redis in every case,
  the instance that handled the request recognises it at once if its filter took it, and any other
  instance on the same Redis recognises it after its own next sync.
\<close>

lemma block_reaches_every_instance:
  assumes "redis_server R view" and "membership_filter L" and "sets_are (view (store s)) A B"
    and "int (fcard (finsert ip A)) \<le> bloom_filter_capacity S" and "int (fcard B) \<le> bloom_filter_capacity S"
    and "view (store t) = view (store (snd (add_ip_to_redis L R ip s)))"
  shows "(fst (add_ip_to_redis L R ip s) = Inr () \<longrightarrow>
            might_contain_ip L (bloom (snd (add_ip_to_redis L R ip s))) ip) \<and>
         (\<exists>n t'. sync_from_redis L S R t = (Inr n, t') \<and> might_contain_ip L (bloom t') ip)"
proof -
  obtain r s' where r: "add_ip_to_redis L R ip s = (r, s')" "sets_are (view (store s')) (finsert ip A) B"
      "r = Inr () \<Longrightarrow> might_contain_ip L (bloom s') ip"
    by (rule add_ip_to_redis_run [OF assms(1-3), of ip]) blast
  have "bad_sets (view (store t)) = Some (finsert ip A, B)"
    using sets_are_bad_sets [OF r(2)] assms(6) r(1) by simp
  then obtain t' where "sync_from_redis L S R t = (Inr (int (fcard (finsert ip A)) + int (fcard B)), t')"
    "might_contain_ip L (bloom t') ip"
    by (rule sync_success [OF assms(1,2) _ assms(4,5)]) simp
  with r show ?thesis by auto
qed

lemma block_reaches_every_instance_example:
  "\<exists>n t'. sync_from_redis (textbook char_sums) (default_settings [] [] []) ks_redis
     \<lparr>store = store (snd (add_ip_to_redis (textbook char_sums) ks_redis ''6.6.6.6''
        \<lparr>store = empty_keyspace 0, bloom = bloom_filter_service (textbook char_sums) (default_settings [] [] [])\<rparr>)),
      bloom = bloom_filter_service (textbook char_sums) (default_settings [] [] [])\<rparr> = (Inr n, t') \<and>
     might_contain_ip (textbook char_sums) (bloom t') ''6.6.6.6''"
  by (rule conjunct2 [OF block_reaches_every_instance [OF redis_server_ks char_sums_filter,
          where A = "{||}" and B = "{||}" and s = "\<lparr>store = empty_keyspace 0,
            bloom = bloom_filter_service (textbook char_sums) (default_settings [] [] [])\<rparr>"]])
    (simp_all add: sets_are_def fcard_finsert_if fcard_fempty)

text \<open>
  C39. A failed sync does not keep the last known state: if the stored addresses overflow the
  filter, the sync raises \<open>IndexError\<close> after both filters were replaced, the counters keep their
  old values, and no user agent is recognised any more, whatever was recognised before.
\<close>

theorem failed_sync_forgets_agents:
  assumes "redis_server R view" and "membership_filter L"
    and "bad_sets (view (store s)) = Some (A, B)" and "int (fcard B) \<le> bloom_filter_capacity S"
    and "sync_from_redis L S R s = (Inl e, s')"
  shows "e = IndexError \<and> loaded_ip_count (bloom s') = loaded_ip_count (bloom s) \<and>
         \<not> might_contain_agent L (bloom s') a"
  using sync_failure [OF assms] membership_filter.new_law [OF assms(2)]
  by (simp add: might_contain_agent_def new_filter_def)

text \<open>The instance of the witness: a capacity of one, three stored addresses.\<close>

definition tiny_settings :: settings where
  "tiny_settings = (default_settings [] [] [])\<lparr>bloom_filter_capacity := 1\<rparr>"

definition full_node :: "(keyspace, textbook) node" where
  "full_node =
     \<lparr>store = put ''known_bad_ips'' (RSet {|''1'', ''22'', ''333''|}) None
                (put ''abusive_agents'' (RSet {|''bot''|}) None (empty_keyspace 0)),
      bloom = (bloom_filter_service (textbook char_sums) tiny_settings)
                \<lparr>agent_filter := \<lparr>tb_bits = char_sums ''bot'', tb_count = 1, tb_cap = 1\<rparr>\<rparr>\<rparr>"

lemma full_node_sync:
  "fst (sync_from_redis (textbook char_sums) tiny_settings ks_redis full_node) = Inl IndexError"
  by code_simp

theorem failed_sync_forgets_agents_witness:
  "might_contain_agent (textbook char_sums) (bloom full_node) ''bot'' \<and>
   \<not> might_contain_agent (textbook char_sums)
       (bloom (snd (sync_from_redis (textbook char_sums) tiny_settings ks_redis full_node))) ''bot''"
proof
  show "might_contain_agent (textbook char_sums) (bloom full_node) ''bot''"
    by (simp add: might_contain_agent_def full_node_def textbook_def)
  show "\<not> might_contain_agent (textbook char_sums)
       (bloom (snd (sync_from_redis (textbook char_sums) tiny_settings ks_redis full_node))) ''bot''"
    using failed_sync_forgets_agents [OF redis_server_ks char_sums_filter, of full_node
        "{|''1'', ''22'', ''333''|}" "{|''bot''|}" tiny_settings IndexError _ "''bot''"] full_node_sync
    by (cases "sync_from_redis (textbook char_sums) tiny_settings ks_redis full_node")
      (simp add: full_node_def tiny_settings_def bad_sets_def set_members_def fcard_finsert_if fcard_fempty)
qed

text \<open>
  The worker reloads filters that no request reads: it creates a service of its own, so after
  any positive number of rounds its own filter recognises an address blocked by another instance,
  while the filter of the gateway instance, which shares only the server with it, is unchanged.
\<close>

lemma worker_never_updates_the_gateway:
  assumes "timed_redis R view elapse" and "membership_filter L" and "sets_are (view (store s)) A B"
    and "int (fcard A) \<le> bloom_filter_capacity S" and "int (fcard B) \<le> bloom_filter_capacity S"
    and "ip |\<in>| A"
  shows "might_contain_ip L (bloom (bloom_sync_worker L S R (\<lambda>d. elapse (d * 1000)) (Suc n) (store s))) ip \<and>
         might_contain_ip L (bloom (gateway_after_worker L S R (\<lambda>d. elapse (d * 1000)) (Suc n) s)) ip =
         might_contain_ip L (bloom s) ip"
  using worker_rounds_run [OF assms(1,2,4,5), of "\<lparr>store = store s, bloom = bloom_filter_service L S\<rparr>" n] assms(3,6)
  by (auto simp: bloom_sync_worker_def gateway_after_worker_def)

lemma worker_never_updates_the_gateway_example:
  "\<not> might_contain_ip (textbook char_sums) (bloom (gateway_after_worker (textbook char_sums)
       (default_settings [] [] []) ks_redis (\<lambda>d. ks_elapse (d * 1000)) (Suc 5)
       \<lparr>store = put ''known_bad_ips'' (RSet {|''6.6.6.6''|}) None (empty_keyspace 0),
        bloom = bloom_filter_service (textbook char_sums) (default_settings [] [] [])\<rparr>)) ''6.6.6.6''"
  using worker_never_updates_the_gateway [OF timed_redis_ks char_sums_filter,
      of "\<lparr>store = put ''known_bad_ips'' (RSet {|''6.6.6.6''|}) None (empty_keyspace 0),
           bloom = bloom_filter_service (textbook char_sums) (default_settings [] [] [])\<rparr>"
         "{|''6.6.6.6''|}" "{||}" "default_settings [] [] []" "''6.6.6.6''" 5]
    tb.new_law
  by (simp add: sets_are_def fcard_finsert_if fcard_fempty bloom_filter_service_def
      new_filter_def might_contain_ip_def)

end
