(* ===== verification/Json.thy ===== *)
theory Json
  imports Prelude
begin

text \<open>
  The part of Python's \<open>json\<close> module the shadow log uses: \<open>json.dumps\<close> with its default settings
  (ASCII output, separators \<open>, \<close> and \<open>: \<close>) and \<open>json.loads\<close>. Numbers with a fraction or an
  exponent are kept as their text. Strings are those of the model, with code points below 256: an
  escape that denotes a code point beyond is reported as \<open>outside_model\<close>.
\<close>

datatype json =
    JNull
  | JBool bool
  | JInt int
  | JFloat string
  | JStr string
  | JArr "json list"
  | JObj "(string \<times> json) list"

definition outside_model :: exn where "outside_model = OtherError ''code point above 255''"

definition out_of_fuel :: exn where "out_of_fuel = OtherError ''fuel''"

section \<open>Printing\<close>

definition hex_digit :: "nat \<Rightarrow> char" where
  "hex_digit n = (if n < 10 then digit_char n else char_of (87 + n))"

definition json_escape :: "char \<Rightarrow> string" where
  "json_escape c = (let n = (of_char c :: nat) in
     if n = 34 then [CHR 0x5C, CHR 0x22]
     else if n = 92 then [CHR 0x5C, CHR 0x5C]
     else if n = 10 then [CHR 0x5C, CHR ''n'']
     else if n = 13 then [CHR 0x5C, CHR ''r'']
     else if n = 9 then [CHR 0x5C, CHR ''t'']
     else if n = 12 then [CHR 0x5C, CHR ''f'']
     else if n = 8 then [CHR 0x5C, CHR ''b'']
     else if n < 32 \<or> 126 < n then
       [CHR 0x5C, CHR ''u'', CHR ''0'', CHR ''0'', hex_digit (n div 16), hex_digit (n mod 16)]
     else [c])"

definition json_quote :: "string \<Rightarrow> string" where
  "json_quote s = CHR 0x22 # concat (map json_escape s) @ [CHR 0x22]"

fun join_with :: "string \<Rightarrow> string list \<Rightarrow> string" where
  "join_with sep [] = []"
| "join_with sep [w] = w"
| "join_with sep (w # v # ws) = w @ sep @ join_with sep (v # ws)"

fun json_dumps :: "json \<Rightarrow> string" where
  "json_dumps JNull = ''null''"
| "json_dumps (JBool b) = (if b then ''true'' else ''false'')"
| "json_dumps (JInt i) = show_int i"
| "json_dumps (JFloat t) = t"
| "json_dumps (JStr s) = json_quote s"
| "json_dumps (JArr vs) = CHR ''['' # join_with '', '' (map json_dumps vs) @ '']''"
| "json_dumps (JObj kvs) =
     CHR ''{'' # join_with '', '' (map (\<lambda>(k, v). json_quote k @ '': '' @ json_dumps v) kvs) @ ''}''"

section \<open>Parsing\<close>

fun then_parse :: "exn + 'a \<times> string \<Rightarrow> ('a \<Rightarrow> string \<Rightarrow> exn + 'b) \<Rightarrow> exn + 'b" where
  "then_parse (Inl e) f = Inl e"
| "then_parse (Inr (x, r)) f = f x r"

definition json_space :: "char \<Rightarrow> bool" where
  "json_space c \<longleftrightarrow> c = CHR '' '' \<or> c = CHR 0x09 \<or> c = CHR 0x0A \<or> c = CHR 0x0D"

definition skip_ws :: "string \<Rightarrow> string" where
  "skip_ws s = dropWhile json_space s"

definition hex_val :: "char \<Rightarrow> nat option" where
  "hex_val c = (let n = (of_char c :: nat) in
     if 48 \<le> n \<and> n \<le> 57 then Some (n - 48)
     else if 97 \<le> n \<and> n \<le> 102 then Some (n - 87)
     else if 65 \<le> n \<and> n \<le> 70 then Some (n - 55)
     else None)"

fun hex4 :: "string \<Rightarrow> exn + char \<times> string" where
  "hex4 (a # b # c # d # r) =
     (case (hex_val a, hex_val b, hex_val c, hex_val d) of
        (Some w, Some x, Some y, Some z) \<Rightarrow>
          (let n = 4096 * w + 256 * x + 16 * y + z
           in if n < 256 then Inr (char_of n, r) else Inl outside_model)
      | _ \<Rightarrow> Inl JSONDecodeError)"
| "hex4 r = Inl JSONDecodeError"

text \<open>What follows a backslash.\<close>

fun unescape :: "string \<Rightarrow> exn + char \<times> string" where
  "unescape [] = Inl JSONDecodeError"
| "unescape (e # r) =
     (if e = CHR ''u'' then hex4 r
      else if e = CHR 0x22 \<or> e = CHR 0x5C \<or> e = CHR ''/'' then Inr (e, r)
      else if e = CHR ''n'' then Inr (CHR 0x0A, r)
      else if e = CHR ''r'' then Inr (CHR 0x0D, r)
      else if e = CHR ''t'' then Inr (CHR 0x09, r)
      else if e = CHR ''f'' then Inr (CHR 0x0C, r)
      else if e = CHR ''b'' then Inr (CHR 0x08, r)
      else Inl JSONDecodeError)"

lemma hex4_shorter: "hex4 s = Inr (c, r) \<Longrightarrow> length r < length s"
  by (cases s rule: hex4.cases) (auto simp: Let_def split: option.splits if_splits)

lemma unescape_shorter: "unescape s = Inr (c, r) \<Longrightarrow> length r < length s"
  by (cases s) (auto dest: hex4_shorter split: if_splits)

text \<open>The rest of a string after its opening quote; control characters are refused.\<close>

function scan_string :: "string \<Rightarrow> exn + string \<times> string" where
  "scan_string [] = Inl JSONDecodeError"
| "scan_string (c # cs) =
     (if c = CHR 0x22 then Inr ([], cs)
      else if c = CHR 0x5C then
        (case unescape cs of
           Inl e \<Rightarrow> Inl e
         | Inr (d, r) \<Rightarrow> then_parse (scan_string r) (\<lambda>s r'. Inr (d # s, r')))
      else if (of_char c :: nat) < 32 then Inl JSONDecodeError
      else then_parse (scan_string cs) (\<lambda>s r'. Inr (c # s, r')))"
  by pat_completeness auto
termination
  by (relation "measure length") (auto dest: unescape_shorter)

text \<open>Numbers: the integer part, then the longest fraction and exponent.\<close>

definition scan_int_part :: "string \<Rightarrow> string" where
  "scan_int_part s =
     (let ds = takeWhile is_digit s in if take 1 ds = ''0'' then ''0'' else ds)"

definition scan_fraction :: "string \<Rightarrow> string" where
  "scan_fraction s = (case s of
      [] \<Rightarrow> []
    | c # r \<Rightarrow> (let ds = takeWhile is_digit r in if c = CHR ''.'' \<and> ds \<noteq> [] then c # ds else []))"

definition scan_exponent :: "string \<Rightarrow> string" where
  "scan_exponent s = (case s of
      [] \<Rightarrow> []
    | c # r \<Rightarrow>
        (let sign = takeWhile (\<lambda>x. x = CHR ''+'' \<or> x = CHR ''-'') (take 1 r);
             ds = takeWhile is_digit (drop (length sign) r)
         in if (c = CHR ''e'' \<or> c = CHR ''E'') \<and> ds \<noteq> [] then c # sign @ ds else []))"

definition scan_number :: "string \<Rightarrow> exn + json \<times> string" where
  "scan_number s =
     (let sign = takeWhile (\<lambda>x. x = CHR ''-'') (take 1 s);
          s1 = drop (length sign) s;
          ip = scan_int_part s1; s2 = drop (length ip) s1;
          fp = scan_fraction s2; s3 = drop (length fp) s2;
          ep = scan_exponent s3; s4 = drop (length ep) s3
      in if ip = [] then Inl JSONDecodeError
         else if fp = [] \<and> ep = [] then
           (case py_int (sign @ ip) of Inl e \<Rightarrow> Inl e | Inr i \<Rightarrow> Inr (JInt i, s4))
         else Inr (JFloat (sign @ ip @ fp @ ep), s4))"

definition json_words :: "(string \<times> json) list" where
  "json_words =
     [(''null'', JNull), (''true'', JBool True), (''false'', JBool False), (''NaN'', JFloat ''NaN''),
      (''Infinity'', JFloat ''Infinity''), (''-Infinity'', JFloat ''-Infinity'')]"

definition scan_atom :: "string \<Rightarrow> exn + json \<times> string" where
  "scan_atom s =
     (case find (\<lambda>(w, v). py_startswith s w) json_words of
        Some (w, v) \<Rightarrow> Inr (v, drop (length w) s)
      | None \<Rightarrow> scan_number s)"

text \<open>Values; every call spends one unit of fuel.\<close>

fun parse_value :: "nat \<Rightarrow> string \<Rightarrow> exn + json \<times> string"
  and parse_elems :: "nat \<Rightarrow> string \<Rightarrow> exn + json list \<times> string"
  and parse_members :: "nat \<Rightarrow> string \<Rightarrow> exn + (string \<times> json) list \<times> string" where
  "parse_value 0 s = Inl out_of_fuel"
| "parse_value (Suc n) s = (case s of
      [] \<Rightarrow> Inl JSONDecodeError
    | c # r \<Rightarrow>
        (if c = CHR 0x22 then then_parse (scan_string r) (\<lambda>t r'. Inr (JStr t, r'))
         else if c = CHR ''['' then
           (let r1 = skip_ws r
            in if take 1 r1 = '']'' then Inr (JArr [], drop 1 r1)
               else then_parse (parse_elems n r1) (\<lambda>vs r'. Inr (JArr vs, r')))
         else if c = CHR ''{'' then
           (let r1 = skip_ws r
            in if take 1 r1 = ''}'' then Inr (JObj [], drop 1 r1)
               else then_parse (parse_members n r1) (\<lambda>kvs r'. Inr (JObj kvs, r')))
         else scan_atom s))"
| "parse_elems 0 s = Inl out_of_fuel"
| "parse_elems (Suc n) s =
     then_parse (parse_value n s) (\<lambda>v r.
       (let r1 = skip_ws r
        in if take 1 r1 = '']'' then Inr ([v], drop 1 r1)
           else if take 1 r1 = '','' then
             then_parse (parse_elems n (skip_ws (drop 1 r1))) (\<lambda>vs r'. Inr (v # vs, r'))
           else Inl JSONDecodeError))"
| "parse_members 0 s = Inl out_of_fuel"
| "parse_members (Suc n) s =
     (if take 1 s = [CHR 0x22] then
        then_parse (scan_string (drop 1 s)) (\<lambda>k r.
          (let r1 = skip_ws r
           in if take 1 r1 = '':'' then
                then_parse (parse_value n (skip_ws (drop 1 r1))) (\<lambda>v r2.
                  (let r3 = skip_ws r2
                   in if take 1 r3 = ''}'' then Inr ([(k, v)], drop 1 r3)
                      else if take 1 r3 = '','' then
                        then_parse (parse_members n (skip_ws (drop 1 r3))) (\<lambda>kvs r'. Inr ((k, v) # kvs, r'))
                      else Inl JSONDecodeError))
              else Inl JSONDecodeError))
      else Inl JSONDecodeError)"

definition json_loads :: "string \<Rightarrow> exn + json" where
  "json_loads s =
     then_parse (parse_value (2 * length s + 1) (skip_ws s)) (\<lambda>v r.
       if skip_ws r = [] then Inr v else Inl JSONDecodeError)"

text \<open>\<open>d.get(k, default)\<close> on a decoded object: of repeated keys, the last one counts.\<close>

definition json_get :: "string \<Rightarrow> json \<Rightarrow> (string \<times> json) list \<Rightarrow> json" where
  "json_get k d kvs = (case find (\<lambda>(x, v). x = k) (rev kvs) of Some (x, v) \<Rightarrow> v | None \<Rightarrow> d)"

section \<open>Reading back what was printed\<close>

lemma hex_val_digit: "k < 16 \<Longrightarrow> hex_val (hex_digit k) = Some k"
  by (auto simp: hex_val_def hex_digit_def digit_char_def)

lemma of_char_less: "(of_char c :: nat) < 256"
  using nat_of_char_less_256 by simp

lemma char_eqI: "(of_char c :: nat) = of_char d \<Longrightarrow> c = d"
  by (metis char_of_char)

lemma scan_escaped: "scan_string (json_escape c @ t) = then_parse (scan_string t) (\<lambda>s r. Inr (c # s, r))"
proof -
  let ?n = "of_char c :: nat"
  have special: "?n = 34 \<Longrightarrow> c = CHR 0x22" "?n = 92 \<Longrightarrow> c = CHR 0x5C" "?n = 10 \<Longrightarrow> c = CHR 0x0A"
    "?n = 13 \<Longrightarrow> c = CHR 0x0D" "?n = 9 \<Longrightarrow> c = CHR 0x09" "?n = 12 \<Longrightarrow> c = CHR 0x0C" "?n = 8 \<Longrightarrow> c = CHR 0x08"
    by (rule char_eqI, simp)+
  consider "?n \<in> {34, 92, 10, 13, 9, 12, 8}" | "?n \<notin> {34, 92, 10, 13, 9, 12, 8}" "?n < 32 \<or> 126 < ?n"
    | "?n \<notin> {34, 92}" "32 \<le> ?n" "?n \<le> 126"
    by fastforce
  then show ?thesis
  proof cases
    case 1
    then have "c = CHR 0x22 \<or> c = CHR 0x5C \<or> c = CHR 0x0A \<or> c = CHR 0x0D \<or> c = CHR 0x09 \<or>
        c = CHR 0x0C \<or> c = CHR 0x08"
      using special by blast
    then show ?thesis by (elim disjE) (simp_all add: json_escape_def)
  next
    case 2
    have d: "?n div 16 < 16" by (rule less_mult_imp_div_less) (use of_char_less [of c] in simp)
    have h: "hex_val (CHR ''0'') = Some 0" by (simp add: hex_val_def)
    have "16 * (?n div 16) + ?n mod 16 = ?n" by simp
    then show ?thesis
      using 2 of_char_less [of c] hex_val_digit [OF d] hex_val_digit [of "?n mod 16"] h
      by (simp add: json_escape_def Let_def)
  next
    case 3
    then have "c \<noteq> CHR 0x22" "c \<noteq> CHR 0x5C" by auto
    then show ?thesis using 3 by (simp add: json_escape_def Let_def)
  qed
qed

lemma scan_quoted: "scan_string (concat (map json_escape s) @ CHR 0x22 # r) = Inr (s, r)"
  by (induction s) (simp_all add: scan_escaped)

text \<open>A number ends before a character that cannot continue it.\<close>

definition ends_number :: "string \<Rightarrow> bool" where
  "ends_number r \<longleftrightarrow>
     (case r of [] \<Rightarrow> True | c # cs \<Rightarrow> \<not> is_digit c \<and> c \<noteq> CHR ''.'' \<and> c \<noteq> CHR ''e'' \<and> c \<noteq> CHR ''E'')"

lemma show_nat_leading_zero: "show_nat n = CHR ''0'' # ds \<Longrightarrow> ds = []"
proof (induction n arbitrary: ds rule: show_nat.induct)
  case (1 n)
  show ?case
  proof (cases "n < 10")
    case True
    then show ?thesis using "1.prems" by (simp add: show_nat.simps [of n])
  next
    case False
    obtain c es where s: "show_nat (n div 10) = c # es" by (cases "show_nat (n div 10)") auto
    have "show_nat n = show_nat (n div 10) @ [digit_char (n mod 10)]"
      using False by (subst show_nat.simps) simp
    with "1.prems" s have "c = CHR ''0''" by simp
    with "1.IH" [OF False] s have "show_nat (n div 10) = ''0''" by simp
    then have "n div 10 = 0" using py_int_show_nat [of "n div 10"] py_int_show_nat [of 0]
      by (simp add: show_nat_numeral)
    with False show ?thesis by simp
  qed
qed

lemma scan_int_part_show_nat:
  assumes "ends_number r"
  shows "scan_int_part (show_nat n @ r) = show_nat n"
proof -
  have r: "takeWhile is_digit r = []" using assms by (cases r) (auto simp: ends_number_def)
  have t: "takeWhile is_digit (show_nat n @ r) = show_nat n"
    using r by (simp add: show_nat_digits)
  obtain c ds where s: "show_nat n = c # ds" by (cases "show_nat n") auto
  show ?thesis
    using show_nat_leading_zero [of n ds] s t by (auto simp: scan_int_part_def)
qed

lemma scan_number_show_int:
  assumes "ends_number r"
  shows "scan_number (show_int i @ r) = Inr (JInt i, r)"
proof -
  have f: "scan_fraction r = []" "scan_exponent r = []"
    using assms by (auto simp: scan_fraction_def scan_exponent_def ends_number_def Let_def split: list.splits)
  show ?thesis
  proof (cases "i < 0")
    case True
    then have s: "show_int i = CHR ''-'' # show_nat (nat (- i))" by (simp add: show_int_def)
    then show ?thesis
      using f scan_int_part_show_nat [OF assms, of "nat (- i)"] py_int_show_int [of i]
      by (simp add: scan_number_def Let_def)
  next
    case False
    then have s: "show_int i = show_nat (nat i)" by (simp add: show_int_def)
    obtain c ds where c: "show_nat (nat i) = c # ds" by (cases "show_nat (nat i)") auto
    then have "takeWhile (\<lambda>x. x = CHR ''-'') (take 1 (show_int i @ r)) = []"
      using show_nat_Cons_sign [of "nat i" c ds] s by simp
    then show ?thesis
      using f s scan_int_part_show_nat [OF assms, of "nat i"] py_int_show_int [of i]
      by (simp add: scan_number_def Let_def)
  qed
qed

lemma scan_atom_show_int:
  assumes "ends_number r"
  shows "scan_atom (show_int i @ r) = Inr (JInt i, r)"
proof -
  have "\<not> py_startswith (show_int i @ r) w" if "(w, v) \<in> set json_words" for w v
  proof (cases "i < 0")
    case True
    obtain c ds where s: "show_nat (nat (- i)) = c # ds" by (cases "show_nat (nat (- i))") auto
    then have "is_digit c" using show_nat_digits [of c "nat (- i)"] by simp
    then show ?thesis
      using True s that by (auto simp: show_int_def json_words_def py_startswith_def is_digit_def)
  next
    case False
    obtain c ds where s: "show_nat (nat i) = c # ds" by (cases "show_nat (nat i)") auto
    then have "is_digit c" using show_nat_digits [of c "nat i"] by simp
    then show ?thesis
      using False s that by (auto simp: show_int_def json_words_def py_startswith_def is_digit_def)
  qed
  then have "find (\<lambda>(w, v). py_startswith (show_int i @ r) w) json_words = None"
    by (auto simp: find_None_iff)
  then show ?thesis by (simp add: scan_atom_def scan_number_show_int [OF assms])
qed

text \<open>Values without floats print and parse back, whatever follows them.\<close>

fun plain :: "json \<Rightarrow> bool" where
  "plain (JFloat t) = False"
| "plain (JArr vs) = list_all plain vs"
| "plain (JObj kvs) = list_all (\<lambda>(k, v). plain v) kvs"
| "plain v = True"

lemma skip_ws_quote [simp]: "skip_ws (json_quote s @ r) = json_quote s @ r"
  by (simp add: skip_ws_def json_quote_def json_space_def)

lemma show_int_head: "\<exists>c ds. show_int i = c # ds \<and> (is_digit c \<or> c = CHR ''-'')"
  using show_int_chars [of "hd (show_int i)" i] by (cases "show_int i") auto

lemma dumps_head: "plain v \<Longrightarrow> \<exists>c ds. json_dumps v = c # ds \<and> c \<noteq> CHR '']'' \<and> \<not> json_space c"
  using show_int_head by (cases v) (fastforce simp: json_quote_def is_digit_def json_space_def)+

lemma skip_ws_dumps:
  assumes "plain v"
  shows "skip_ws (json_dumps v @ r) = json_dumps v @ r"
  using dumps_head [OF assms] by (auto simp: skip_ws_def)

lemma skip_ws_comma [simp]: "skip_ws (CHR '' '' # s) = skip_ws s" "skip_ws (CHR '','' # s) = CHR '','' # s"
  "skip_ws (CHR '']'' # s) = CHR '']'' # s" "skip_ws (CHR ''}'' # s) = CHR ''}'' # s"
  "skip_ws (CHR '':'' # s) = CHR '':'' # s" "skip_ws [] = []"
  by (simp_all add: skip_ws_def json_space_def)

lemma parse_quoted:
  "0 < n \<Longrightarrow> parse_value n (json_quote s @ r) = Inr (JStr s, r)"
  by (cases n) (simp_all add: json_quote_def scan_quoted)

lemma ends_number_sep [simp]: "ends_number (CHR '','' # r)" "ends_number (CHR '']'' # r)"
  "ends_number (CHR ''}'' # r)" "ends_number []"
  by (simp_all add: ends_number_def is_digit_def)

lemma parse_elems_dumps:
  assumes "\<And>v n r. v \<in> set vs \<Longrightarrow> ends_number r \<Longrightarrow> length (json_dumps v) < n \<Longrightarrow>
             parse_value n (json_dumps v @ r) = Inr (v, r)"
    and "list_all plain vs" and "vs \<noteq> []" and "length (join_with '', '' (map json_dumps vs)) + 1 < n"
  shows "parse_elems n (join_with '', '' (map json_dumps vs) @ CHR '']'' # r) = Inr (vs, r)"
  using assms
proof (induction vs arbitrary: n)
  case (Cons v vs)
  obtain m where n: "n = Suc m" using Cons.prems(4) by (cases n) auto
  show ?case
  proof (cases vs)
    case Nil
    then show ?thesis using Cons.prems(1) [of v "CHR '']'' # r" m] Cons.prems(4) n by simp
  next
    case (Cons w ws)
    let ?t = "join_with '', '' (map json_dumps vs) @ CHR '']'' # r"
    have j: "join_with '', '' (map json_dumps (v # vs)) =
             json_dumps v @ '', '' @ join_with '', '' (map json_dumps vs)"
      using Cons by simp
    have sk: "skip_ws ?t = ?t"
      using Cons Cons.prems(2) by (cases ws) (simp_all add: skip_ws_dumps)
    have "parse_value m (json_dumps v @ CHR '','' # CHR '' '' # ?t) = Inr (v, CHR '','' # CHR '' '' # ?t)"
      using Cons.prems(1,4) n j by simp
    moreover have "parse_elems m ?t = Inr (vs, r)"
      by (rule Cons.IH) (use Cons.prems n j Cons in auto)
    ultimately show ?thesis using sk unfolding j n by (simp add: Let_def)
  qed
qed simp

lemma parse_members_dumps:
  assumes "\<And>k v n r. (k, v) \<in> set kvs \<Longrightarrow> ends_number r \<Longrightarrow> length (json_dumps v) < n \<Longrightarrow>
             parse_value n (json_dumps v @ r) = Inr (v, r)"
    and "list_all (\<lambda>(k, v). plain v) kvs" and "kvs \<noteq> []"
    and "length (join_with '', '' (map (\<lambda>(k, v). json_quote k @ '': '' @ json_dumps v) kvs)) + 1 < n"
  shows "parse_members n (join_with '', '' (map (\<lambda>(k, v). json_quote k @ '': '' @ json_dumps v) kvs)
           @ CHR ''}'' # r) = Inr (kvs, r)"
  using assms
proof (induction kvs arbitrary: n)
  case (Cons kv kvs)
  obtain k v where kv: "kv = (k, v)" by (cases kv)
  obtain m where n: "n = Suc m" using Cons.prems(4) by (cases n) auto
  let ?f = "\<lambda>(k, v). json_quote k @ '': '' @ json_dumps v"
  have pv: "plain v" using Cons.prems(2) kv by simp
  have q: "take 1 (json_quote k @ x) = [CHR 0x22]"
    "scan_string (drop 1 (json_quote k @ x)) = Inr (k, x)" for x
    by (simp_all add: json_quote_def scan_quoted)
  show ?case
  proof (cases kvs)
    case Nil
    have "parse_value m (json_dumps v @ CHR ''}'' # r) = Inr (v, CHR ''}'' # r)"
      using Cons.prems(1) [of k v] Cons.prems(4) n kv Nil by simp
    then show ?thesis using Nil q pv unfolding kv n by (simp add: skip_ws_dumps Let_def)
  next
    case (Cons w ws)
    let ?t = "join_with '', '' (map ?f kvs) @ CHR ''}'' # r"
    have j: "join_with '', '' (map ?f (kv # kvs)) =
             json_quote k @ '': '' @ json_dumps v @ '', '' @ join_with '', '' (map ?f kvs)"
      using Cons kv by simp
    have sk: "skip_ws ?t = ?t" using Cons by (cases w; cases ws) simp_all
    have "parse_value m (json_dumps v @ CHR '','' # CHR '' '' # ?t) = Inr (v, CHR '','' # CHR '' '' # ?t)"
      using Cons.prems(1) [of k v] Cons.prems(4) n j kv by simp
    moreover have "parse_members m ?t = Inr (kvs, r)"
      by (rule Cons.IH) (use Cons.prems n j Cons in auto)
    ultimately show ?thesis using sk q pv unfolding j n by (simp add: skip_ws_dumps Let_def kv)
  qed
qed simp

lemma parse_value_dumps:
  "plain v \<Longrightarrow> ends_number r \<Longrightarrow> length (json_dumps v) < n \<Longrightarrow>
   parse_value n (json_dumps v @ r) = Inr (v, r)"
proof (induction v arbitrary: n r)
  case (JInt i)
  obtain m where n: "n = Suc m" using JInt.prems(3) by (cases n) auto
  obtain c ds where s: "show_int i = c # ds" by (cases "show_int i") auto
  then have "is_digit c \<or> c = CHR ''-''" using show_int_chars [of c i] by simp
  then have "c \<noteq> CHR 0x22" "c \<noteq> CHR ''[''" "c \<noteq> CHR ''{''" by (auto simp: is_digit_def)
  then show ?case using scan_atom_show_int [OF JInt.prems(2), of i] s n by simp
next
  case (JBool b)
  obtain m where n: "n = Suc m" using JBool.prems(3) by (cases n) auto
  show ?case by (cases b) (simp_all add: n scan_atom_def json_words_def py_startswith_def)
next
  case JNull
  obtain m where n: "n = Suc m" using JNull.prems(3) by (cases n) auto
  show ?case by (simp add: n scan_atom_def json_words_def py_startswith_def)
next
  case (JStr s)
  then show ?case by (simp add: parse_quoted)
next
  case (JArr vs)
  obtain m where n: "n = Suc m" using JArr.prems(3) by (cases n) auto
  show ?case
  proof (cases vs)
    case (Cons w ws)
    let ?t = "join_with '', '' (map json_dumps vs) @ CHR '']'' # r"
    have pw: "plain w" using JArr.prems(1) Cons by simp
    have "parse_elems m ?t = Inr (vs, r)"
    proof (rule parse_elems_dumps)
      show "parse_value k (json_dumps v @ q) = Inr (v, q)"
        if "v \<in> set vs" "ends_number q" "length (json_dumps v) < k" for v k q
        using JArr.IH [OF that(1) _ that(2,3)] JArr.prems(1) that(1) by (simp add: list_all_iff)
    qed (use JArr.prems n Cons in auto)
    moreover have "skip_ws ?t = ?t" using Cons pw by (cases ws) (simp_all add: skip_ws_dumps)
    moreover have "take 1 ?t \<noteq> '']''"
    proof -
      obtain c ds where c: "json_dumps w = c # ds" "c \<noteq> CHR '']''"
        using dumps_head [OF pw] by blast
      then show ?thesis using Cons by (cases ws) simp_all
    qed
    ultimately show ?thesis by (simp add: n Let_def)
  qed (simp add: n)
next
  case (JObj kvs)
  obtain m where n: "n = Suc m" using JObj.prems(3) by (cases n) auto
  show ?case
  proof (cases kvs)
    case (Cons w ws)
    let ?t = "join_with '', '' (map (\<lambda>(k, v). json_quote k @ '': '' @ json_dumps v) kvs) @ CHR ''}'' # r"
    have "parse_members m ?t = Inr (kvs, r)"
    proof (rule parse_members_dumps)
      show "parse_value k (json_dumps v @ q) = Inr (v, q)"
        if "(x, v) \<in> set kvs" "ends_number q" "length (json_dumps v) < k" for x v k q
        using JObj.IH [OF that(1) _ _ that(2,3)] JObj.prems(1) that(1) by (auto simp: list_all_iff)
    qed (use JObj.prems n Cons in auto)
    moreover have "skip_ws ?t = ?t" using Cons by (cases w; cases ws) simp_all
    moreover have "take 1 ?t \<noteq> ''}''" using Cons by (cases w; cases ws) (simp_all add: json_quote_def)
    ultimately show ?thesis by (simp add: n Let_def)
  qed (simp add: n)
qed simp

theorem loads_dumps: "plain v \<Longrightarrow> json_loads (json_dumps v) = Inr v"
  using parse_value_dumps [of v "[]" "2 * length (json_dumps v) + 1"] skip_ws_dumps [of v "[]"]
  by (simp add: json_loads_def)

section \<open>The fuel is enough\<close>

lemma scan_string_shorter: "scan_string s = Inr (t, r) \<Longrightarrow> length r < length s"
proof (induction s arbitrary: t r rule: scan_string.induct)
  case (2 c cs)
  have esc: "length r < length (c # cs)"
    if "c \<noteq> CHR 0x22" "c = CHR 0x5C" "unescape cs = Inr (d, q)" "scan_string q = Inr (u, r)" for d q u
    using "2.IH"(1) [OF that(1,2,3) refl that(4)] unescape_shorter [OF that(3)] by simp
  show ?case
    using "2.prems" "2.IH"(2) esc
    by (cases "scan_string cs") (auto split: if_splits sum.splits elim!: then_parse.elims)
qed simp

lemma scan_number_shorter: "scan_number s = Inr (v, r) \<Longrightarrow> length r < length s"
proof -
  assume s: "scan_number s = Inr (v, r)"
  let ?s1 = "drop (length (takeWhile (\<lambda>x. x = CHR ''-'') (take 1 s))) s"
  let ?ip = "scan_int_part ?s1"
  have "length r \<le> length ?s1 - length ?ip" and "?ip \<noteq> []"
    using s by (auto simp: scan_number_def Let_def split: if_splits sum.splits)
  moreover have "scan_int_part [] = []" by (simp add: scan_int_part_def)
  then have "0 < length ?s1" using \<open>?ip \<noteq> []\<close> by fastforce
  ultimately have "length r < length ?s1" by (cases ?ip) auto
  then show "length r < length s" by simp
qed

lemma find_SomeD: "find P xs = Some x \<Longrightarrow> x \<in> set xs \<and> P x"
  by (induction xs) (auto split: if_splits)

lemma scan_atom_shorter: "scan_atom s = Inr (v, r) \<Longrightarrow> length r < length s"
proof (cases "find (\<lambda>(w, v). py_startswith s w) json_words")
  case (Some wv)
  assume "scan_atom s = Inr (v, r)"
  then have "r = drop (length (fst wv)) s" using Some by (auto simp: scan_atom_def split: prod.splits)
  moreover have "wv \<in> set json_words \<and> py_startswith s (fst wv)"
    using find_SomeD [OF Some] by (simp add: split_beta)
  ultimately show ?thesis
    by (auto simp: json_words_def py_startswith_iff)
qed (auto simp: scan_atom_def dest: scan_number_shorter)

lemma skip_ws_length: "length (skip_ws s) \<le> length s"
  unfolding skip_ws_def by (rule length_dropWhile_le)

lemma then_parse_Inr: "then_parse x f = Inr y \<longleftrightarrow> (\<exists>a r. x = Inr (a, r) \<and> f a r = Inr y)"
  by (cases x) auto

lemma then_parse_Inl: "then_parse x f = Inl e \<longleftrightarrow> x = Inl e \<or> (\<exists>a r. x = Inr (a, r) \<and> f a r = Inl e)"
  by (cases x) auto

lemma after_token:
  "take 1 (skip_ws q) = [c] \<Longrightarrow> length (drop 1 (skip_ws q)) < length q"
  "take 1 (skip_ws q) = [c] \<Longrightarrow> length (skip_ws (drop 1 (skip_ws q))) < length q"
  using skip_ws_length [of q] skip_ws_length [of "drop 1 (skip_ws q)"]
  by (cases "skip_ws q"; simp)+

lemma parse_shorter:
  "parse_value n s = Inr (v, r) \<Longrightarrow> length r < length s"
  "parse_elems n s = Inr (vs, r) \<Longrightarrow> length r < length s"
  "parse_members n s = Inr (kvs, r) \<Longrightarrow> length r < length s"
proof (induction n s and n s and n s arbitrary: v r and vs r and kvs r
    rule: parse_value_parse_elems_parse_members.induct)
  case (2 n s)
  obtain c t where s: "s = c # t" using "2.prems" by (cases s) auto
  consider "c = CHR 0x22" | "c = CHR ''[''" "c \<noteq> CHR 0x22" | "c = CHR ''{''" "c \<noteq> CHR 0x22" "c \<noteq> CHR ''[''"
    | "c \<noteq> CHR 0x22" "c \<noteq> CHR ''[''" "c \<noteq> CHR ''{''"
    by blast
  then show ?case
  proof cases
    case 1
    then show ?thesis using "2.prems" s by (auto simp: then_parse_Inr dest: scan_string_shorter)
  next
    case 2
    then show ?thesis
      using "2.prems" "2.IH"(1) [OF s 2(2,1) refl] s skip_ws_length [of t]
      by (fastforce simp: then_parse_Inr Let_def split: if_splits)
  next
    case 3
    then show ?thesis
      using "2.prems" "2.IH"(2) [OF s 3(2,3,1) refl] s skip_ws_length [of t]
      by (fastforce simp: then_parse_Inr Let_def split: if_splits)
  next
    case 4
    then show ?thesis using "2.prems" s scan_atom_shorter [of s] by simp
  qed
next
  case (4 n s)
  obtain w q where q: "parse_value n s = Inr (w, q)" using "4.prems" by (auto simp: then_parse_Inr)
  note sh = "4.IH"(1) [OF q]
  show ?case
  proof (cases "take 1 (skip_ws q) = '']''")
    case True
    then show ?thesis using "4.prems" q sh after_token(1) [OF True] by simp
  next
    case False
    then have c: "take 1 (skip_ws q) = '',''"
      using "4.prems" q by (simp add: Let_def split: if_splits)
    obtain ws where "parse_elems n (skip_ws (drop 1 (skip_ws q))) = Inr (ws, r)"
      using "4.prems" q c by (auto simp: Let_def then_parse_Inr)
    from "4.IH"(2) [OF refl False c this] show ?thesis
      using sh after_token(2) [OF c] by linarith
  qed
next
  case (6 n s)
  obtain k q where q: "scan_string (drop 1 s) = Inr (k, q)" and s: "take 1 s = [CHR 0x22]"
    using "6.prems" by (auto simp: then_parse_Inr split: if_splits)
  let ?q = "skip_ws (drop 1 (skip_ws q))"
  obtain w q2 where q2: "parse_value n ?q = Inr (w, q2)" and c: "take 1 (skip_ws q) = '':''"
    using "6.prems" q s by (auto simp: then_parse_Inr Let_def split: if_splits)
  have l: "length q2 < length ?q" "length ?q < length q" "length q < length s"
    using "6.IH"(1) [OF s refl c q2] after_token(2) [OF c] scan_string_shorter [OF q]
    by simp_all
  show ?case
  proof (cases "take 1 (skip_ws q2) = ''}''")
    case True
    then show ?thesis using "6.prems" q s c q2 l after_token(1) [OF True] by (auto simp: Let_def)
  next
    case False
    then have d: "take 1 (skip_ws q2) = '',''"
      using "6.prems" q s c q2 by (simp add: Let_def split: if_splits)
    obtain ws where "parse_members n (skip_ws (drop 1 (skip_ws q2))) = Inr (ws, r)"
      using "6.prems" q s c q2 d by (auto simp: Let_def then_parse_Inr)
    from "6.IH"(2) [OF s refl c refl False d this] show ?thesis
      using l after_token(2) [OF d] by linarith
  qed
qed auto

lemma decode_error_not_fuel [simp]: "JSONDecodeError \<noteq> out_of_fuel" "out_of_fuel \<noteq> JSONDecodeError"
  by (simp_all add: out_of_fuel_def)

lemma unescape_error: "unescape t \<noteq> Inl out_of_fuel"
  by (cases t; cases "tl t" rule: hex4.cases)
    (auto simp: out_of_fuel_def outside_model_def Let_def split: option.splits)

lemma scan_string_error: "scan_string s \<noteq> Inl out_of_fuel"
proof (induction s rule: scan_string.induct)
  case (2 c cs)
  have "scan_string q \<noteq> Inl out_of_fuel"
    if "c \<noteq> CHR 0x22" "c = CHR 0x5C" "unescape cs = Inr (d, q)" for d q
    using "2.IH"(1) [OF that refl] .
  then show ?case
    using "2.IH"(2) unescape_error [of cs] by (auto simp: then_parse_Inl split: sum.splits)
qed simp

lemma scan_atom_error: "scan_atom s = Inl e \<Longrightarrow> e \<noteq> out_of_fuel"
  by (auto simp: scan_atom_def scan_number_def Let_def out_of_fuel_def py_int_def
      split: option.splits if_splits sum.splits prod.splits list.splits)

lemma parse_fuel:
  "2 * length s < n \<Longrightarrow> parse_value n s \<noteq> Inl out_of_fuel"
  "2 * length s + 1 < n \<Longrightarrow> parse_elems n s \<noteq> Inl out_of_fuel"
  "2 * length s + 1 < n \<Longrightarrow> parse_members n s \<noteq> Inl out_of_fuel"
proof (induction n s and n s and n s rule: parse_value_parse_elems_parse_members.induct)
  case (2 n s)
  show ?case
  proof (cases s)
    case (Cons c t)
    have "parse_elems n (skip_ws t) \<noteq> Inl out_of_fuel"
      if "c \<noteq> CHR 0x22" "c = CHR ''[''" "take 1 (skip_ws t) \<noteq> '']''"
      using "2.IH"(1) [OF Cons that(1,2) refl that(3)] "2.prems" skip_ws_length [of t] Cons by simp
    moreover have "parse_members n (skip_ws t) \<noteq> Inl out_of_fuel"
      if "c \<noteq> CHR 0x22" "c \<noteq> CHR ''[''" "c = CHR ''{''" "take 1 (skip_ws t) \<noteq> ''}''"
      using "2.IH"(2) [OF Cons that(1,2,3) refl that(4)] "2.prems" skip_ws_length [of t] Cons by simp
    ultimately show ?thesis
      using Cons scan_string_error [of t] scan_atom_error [of s]
      by (auto simp: Let_def then_parse_Inl split: if_splits)
  qed (simp add: out_of_fuel_def)
next
  case (4 n s)
  have v: "parse_value n s \<noteq> Inl out_of_fuel" using "4.IH"(1) "4.prems" by simp
  show ?case
  proof (cases "parse_value n s")
    case (Inl e)
    then show ?thesis using v by auto
  next
    case (Inr a)
    obtain w q where q: "parse_value n s = Inr (w, q)" using Inr by (cases a) auto
    show ?thesis
    proof (cases "take 1 (skip_ws q) = '',''")
      case True
      have "length q < length s" using parse_shorter(1) [OF q] .
      then have "parse_elems n (skip_ws (drop 1 (skip_ws q))) \<noteq> Inl out_of_fuel"
        using "4.IH"(2) [OF refl _ True] "4.prems" after_token(2) [OF True] True by simp
      then show ?thesis using q True by (auto simp: Let_def then_parse_Inl)
    qed (use q in \<open>simp add: Let_def out_of_fuel_def\<close>)
  qed
next
  case (6 n s)
  show ?case
  proof (cases "take 1 s = [CHR 0x22]")
    case s: True
    show ?thesis
    proof (cases "scan_string (drop 1 s)")
      case (Inl e)
      then show ?thesis using s scan_string_error [of "drop 1 s"] Inl by auto
    next
      case (Inr a)
      obtain k q where q: "scan_string (drop 1 s) = Inr (k, q)" using Inr by (cases a) auto
      have lq: "length q < length s" using scan_string_shorter [OF q] by simp
      show ?thesis
      proof (cases "take 1 (skip_ws q) = '':''")
        case c: True
        let ?q = "skip_ws (drop 1 (skip_ws q))"
        have v: "parse_value n ?q \<noteq> Inl out_of_fuel"
          using "6.IH"(1) [OF s refl c] "6.prems" after_token(2) [OF c] lq by simp
        have "parse_members n (skip_ws (drop 1 (skip_ws q2))) \<noteq> Inl out_of_fuel"
          if "parse_value n ?q = Inr (w, q2)" "take 1 (skip_ws q2) = '',''" for w q2
          using "6.IH"(2) [OF s refl c refl _ that(2)] "6.prems" after_token(2) [OF c] lq
            parse_shorter(1) [OF that(1)] after_token(2) [OF that(2)] that(2) by simp
        then show ?thesis
          using v q s c by (auto simp: Let_def then_parse_Inl out_of_fuel_def)
      qed (use q s in \<open>simp add: Let_def out_of_fuel_def\<close>)
    qed
  qed (simp add: out_of_fuel_def)
qed auto

lemma json_loads_total: "json_loads s \<noteq> Inl out_of_fuel"
proof -
  have "2 * length (skip_ws s) < 2 * length s + 1" using skip_ws_length [of s] by simp
  from parse_fuel(1) [OF this] show ?thesis
    by (auto simp: json_loads_def then_parse_Inl out_of_fuel_def split: if_splits)
qed

end
