(* ===== verification/ShadowLogger.thy ===== *)
theory ShadowLogger
  imports RedisModel Json
begin

text \<open>
  app/services/shadow_logger.py: the log of would-be blocks, one JSON document per request with a
  time to live of a day, and its aggregation by rule. \<open>now\<close> is the reading \<open>int(time.time())\<close>.
\<close>

section \<open>The code\<close>

definition shadow_log_ttl :: int where "shadow_log_ttl = 86400"

definition shadow_log_key :: "string \<Rightarrow> string" where
  "shadow_log_key request_id = ''shadow_log:'' @ request_id"

record shadow_event =
  ev_request_id :: string
  ev_rule_triggered :: string
  ev_client_id :: string
  ev_path :: string
  ev_reason :: string
  ev_timestamp :: int

definition event_json :: "shadow_event \<Rightarrow> json" where
  "event_json ev =
     JObj [(''request_id'', JStr (ev_request_id ev)),
           (''rule_triggered'', JStr (ev_rule_triggered ev)),
           (''client_id'', JStr (ev_client_id ev)),
           (''path'', JStr (ev_path ev)),
           (''reason'', JStr (ev_reason ev)),
           (''timestamp'', JInt (ev_timestamp ev))]"

definition log_shadow_event ::
  "'r redis \<Rightarrow> int \<Rightarrow> string \<Rightarrow> string \<Rightarrow> string \<Rightarrow> string \<Rightarrow> string \<Rightarrow> ('r, unit) io" where
  "log_shadow_event R now request_id rule_triggered client_id path reason =
     (let key = shadow_log_key request_id;
          event = \<lparr>ev_request_id = request_id, ev_rule_triggered = rule_triggered,
                   ev_client_id = client_id, ev_path = path, ev_reason = reason,
                   ev_timestamp = now\<rparr>
      in r_set R key (json_dumps (event_json event)) (Some shadow_log_ttl))"

text \<open>
  The dictionary from rules to counts, in insertion order. A key is any decoded value that Python
  can hash; \<open>True\<close> and \<open>1\<close> are the same key, and the first one stays.
\<close>

fun hashable :: "json \<Rightarrow> bool" where
  "hashable (JArr vs) = False"
| "hashable (JObj kvs) = False"
| "hashable v = True"

fun key_norm :: "json \<Rightarrow> json" where
  "key_norm (JBool b) = JInt (if b then 1 else 0)"
| "key_norm v = v"

fun count_rule :: "json \<Rightarrow> (json \<times> int) list \<Rightarrow> (json \<times> int) list" where
  "count_rule rule [] = [(rule, 1)]"
| "count_rule rule ((x, n) # stats) =
     (if key_norm x = key_norm rule then (x, n + 1) # stats else (x, n) # count_rule rule stats)"

fun aggregate :: "string option list \<Rightarrow> (json \<times> int) list \<Rightarrow> int \<Rightarrow> exn + int \<times> (json \<times> int) list" where
  "aggregate [] stats total_n = Inr (total_n, stats)"
| "aggregate (raw # values) stats total_n =
     (case raw of
        None \<Rightarrow> aggregate values stats total_n
      | Some text \<Rightarrow>
          (if text = [] then aggregate values stats total_n
           else (case json_loads text of
               Inl e \<Rightarrow> (if e = JSONDecodeError then aggregate values stats total_n else Inl e)
             | Inr (JObj event) \<Rightarrow>
                 (let rule = json_get ''rule_triggered'' (JStr ''unknown'') event
                  in if hashable rule then aggregate values (count_rule rule stats) (total_n + 1)
                     else Inl TypeError)
             | Inr v \<Rightarrow> Inl AttributeError)))"

definition get_shadow_stats :: "'r redis \<Rightarrow> ('r, int \<times> (json \<times> int) list) io" where
  "get_shadow_stats R =
     bind (r_scan_iter R ''shadow_log:*'') (\<lambda>keys.
     if keys = [] then ret (0, [])
     else bind (pipe_execute (map (r_get R) keys)) (\<lambda>values.
          lift_result (aggregate values [] 0)))"

context redis_server
begin

lemma sim_log_shadow_event [sim_intros]:
  "simulates view (log_shadow_event R now q rule c p reason)
     (log_shadow_event ks_redis now q rule c p reason)"
  unfolding log_shadow_event_def Let_def ks_redis_sel by (intro sim_intros)

lemma sim_gets: "simulates view (pipe_execute (map (r_get R) keys)) (pipe_execute (map ks_get keys))"
  by (rule sim_pipe) (simp add: list_all2_conv_all_nth get_law)

end

section \<open>Aggregation\<close>

definition rule_count :: "json \<Rightarrow> (json \<times> int) list \<Rightarrow> int" where
  "rule_count rule stats =
     sum_list (map (\<lambda>(x, n). if key_norm x = key_norm rule then n else 0) stats)"

lemma count_rule_sum: "sum_list (map snd (count_rule k st)) = sum_list (map snd st) + 1"
  by (induction st rule: count_rule.induct) auto

lemma rule_count_step:
  "rule_count r (count_rule k st) = rule_count r st + (if key_norm k = key_norm r then 1 else 0)"
  by (induction k st rule: count_rule.induct) (auto simp: rule_count_def)

lemma count_rule_keys:
  "set (map (key_norm \<circ> fst) (count_rule k st)) = insert (key_norm k) (set (map (key_norm \<circ> fst) st))"
  by (induction k st rule: count_rule.induct) auto

lemma count_rule_distinct:
  "distinct (map (key_norm \<circ> fst) st) \<Longrightarrow> distinct (map (key_norm \<circ> fst) (count_rule k st))"
proof (induction k st rule: count_rule.induct)
  case (2 rule x n stats)
  then show ?case using count_rule_keys [of rule stats] by (auto simp: comp_def image_iff)
qed simp

lemma count_rule_positive:
  "list_all (\<lambda>(x, c). 0 < c) st \<Longrightarrow> list_all (\<lambda>(x, c). 0 < c) (count_rule k st)"
  by (induction k st rule: count_rule.induct) auto

definition stats_ok :: "int \<Rightarrow> (json \<times> int) list \<Rightarrow> bool" where
  "stats_ok t st \<longleftrightarrow> t = sum_list (map snd st) \<and> distinct (map (key_norm \<circ> fst) st) \<and>
     list_all (\<lambda>(x, c). 0 < c) st"

lemma stats_ok_step: "stats_ok t st \<Longrightarrow> stats_ok (t + 1) (count_rule k st)"
  by (simp add: stats_ok_def count_rule_sum count_rule_distinct count_rule_positive)

lemma aggregate_ok:
  "aggregate raws st t = Inr (t', st') \<Longrightarrow> stats_ok t st \<Longrightarrow> stats_ok t' st' \<and> t' \<le> t + int (length raws)"
proof (induction raws st t rule: aggregate.induct)
  case (2 raw raws st t)
  show ?case
  proof (cases raw)
    case None
    then show ?thesis using "2.IH"(1) "2.prems" by force
  next
    case (Some body)
    show ?thesis
    proof (cases "body = [] \<or> json_loads body = Inl JSONDecodeError")
      case True
      then have run: "aggregate raws st t = Inr (t', st')"
        using "2.prems"(1) Some by (cases "body = []") auto
      from True have "stats_ok t' st' \<and> t' \<le> t + int (length raws)"
        using "2.IH"(2) [OF Some _ run "2.prems"(2)] "2.IH"(3) [OF Some _ _ refl run "2.prems"(2)]
        by blast
      then show ?thesis by simp
    next
      case False
      with "2.prems"(1) Some obtain ev where ev: "json_loads body = Inr (JObj ev)"
        and h: "hashable (json_get ''rule_triggered'' (JStr ''unknown'') ev)"
        by (auto simp: Let_def split: sum.splits json.splits if_splits)
      then show ?thesis
        using "2.IH"(4) [OF Some _ ev refl refl h _ stats_ok_step] "2.prems" False Some by simp
    qed
  qed
qed simp

lemma event_json_loads [simp]: "json_loads (json_dumps (event_json ev)) = Inr (event_json ev)"
  by (rule loads_dumps) (simp add: event_json_def)

lemma event_json_text [simp]: "json_dumps (event_json ev) \<noteq> []"
  by (simp add: event_json_def)

lemma event_rule [simp]:
  "json_get ''rule_triggered'' d
     [(''request_id'', a), (''rule_triggered'', r), (''client_id'', b), (''path'', c), (''reason'', e),
      (''timestamp'', t)] = r"
  by (simp add: json_get_def)

lemma aggregate_events:
  "\<exists>st'. aggregate (map (\<lambda>ev. Some (json_dumps (event_json ev))) evs) st t = Inr (t + int (length evs), st') \<and>
     (\<forall>r. rule_count (JStr r) st' =
        rule_count (JStr r) st + int (length (filter (\<lambda>ev. ev_rule_triggered ev = r) evs)))"
proof (induction evs arbitrary: st t)
  case (Cons ev evs)
  have step: "aggregate (map (\<lambda>ev. Some (json_dumps (event_json ev))) (ev # evs)) st t =
      aggregate (map (\<lambda>ev. Some (json_dumps (event_json ev))) evs)
        (count_rule (JStr (ev_rule_triggered ev)) st) (t + 1)"
  proof -
    define body where "body = json_dumps (event_json ev)"
    obtain kvs where "event_json ev = JObj kvs"
      and r: "json_get ''rule_triggered'' (JStr ''unknown'') kvs = JStr (ev_rule_triggered ev)"
      by (simp add: event_json_def)
    then have "json_loads body = Inr (JObj kvs)" "body \<noteq> []"
      unfolding body_def by (metis event_json_loads, simp)
    then show ?thesis by (simp add: r flip: body_def)
  qed
  show ?case
    using Cons [of "count_rule (JStr (ev_rule_triggered ev)) st" "t + 1"] unfolding step
    by (fastforce simp: rule_count_step)
qed simp

section \<open>Reading the log\<close>

lemma glob_prefix:
  "CHR ''*'' \<notin> set p \<Longrightarrow> CHR ''?'' \<notin> set p \<Longrightarrow> glob (p @ ''*'') k \<longleftrightarrow> py_startswith k p"
proof (induction p arbitrary: k)
  case Nil
  have "glob ''*'' k" by (induction k) auto
  then show ?case by (simp add: py_startswith_def)
next
  case (Cons c p)
  then show ?case by (cases k) (auto simp: py_startswith_def)
qed

lemma live_shadow_keys:
  "k |\<in>| live_keys ks ''shadow_log:*'' \<longleftrightarrow> entry ks k \<noteq> None \<and> py_startswith k ''shadow_log:''"
  using glob_prefix [of "''shadow_log:''" k]
  by (auto simp: live_keys_def entry_def fmlookup_dom_iff split: option.splits)

lemma run_gets:
  "(\<And>k. k \<in> set keys \<Longrightarrow> string_value ks k \<noteq> None) \<Longrightarrow>
   pipe_execute (map ks_get keys) ks = (Inr (map (string_value ks) keys), ks)"
proof (induction keys)
  case (Cons k keys)
  have "ks_get k ks = (Inr (string_value ks k), ks)"
    using Cons.prems [of k] by (auto simp: string_value_def ks_get_def split: option.splits rval.splits)
  with Cons show ?case by (auto simp: pipe_execute_def split: prod.splits)
qed (simp add: pipe_execute_def)

text \<open>The log on the server: the live keys under the prefix are those of \<open>f\<close>, with its events.\<close>

definition log_is :: "keyspace \<Rightarrow> (string \<rightharpoonup> shadow_event) \<Rightarrow> bool" where
  "log_is ks f \<longleftrightarrow>
     dom f = fset (live_keys ks ''shadow_log:*'') \<and>
     (\<forall>k ev. f k = Some ev \<longrightarrow> string_value ks k = Some (json_dumps (event_json ev)))"

lemma stats_run:
  assumes R: "redis_server R view" and f: "log_is (view s) f"
  shows "\<exists>l st. fst (r_scan_iter R ''shadow_log:*'' s) = Inr l \<and> set l = dom f \<and>
           fst (get_shadow_stats R s) = Inr (int (length l), st) \<and>
           (\<forall>r. rule_count (JStr r) st =
              int (length (filter (\<lambda>k. map_option ev_rule_triggered (f k) = Some r) l)))"
proof -
  obtain l s' where l: "r_scan_iter R ''shadow_log:*'' s = (Inr l, s')" "view s' = view s" "set l = dom f"
    using redis_server.scan_law [OF R, of "''shadow_log:*''" s] f by (auto simp: log_is_def)
  have v: "map (string_value (view s)) l = map (\<lambda>ev. Some (json_dumps (event_json ev))) (map (\<lambda>k. the (f k)) l)"
    using f l(3) unfolding log_is_def by (simp, metis domD option.sel)
  have "pipe_execute (map ks_get l) (view s) = (Inr (map (string_value (view s)) l), view s)"
    by (rule run_gets) (use v in \<open>auto simp: map_eq_conv\<close>)
  then obtain s2 where g: "pipe_execute (map (r_get R) l) s' = (Inr (map (string_value (view s)) l), s2)"
    using simulates_run [OF redis_server.sim_gets [OF R], of l s'] l(2) by auto
  obtain st where st: "aggregate (map (string_value (view s)) l) [] 0 = Inr (int (length l), st)"
    "\<And>r. rule_count (JStr r) st =
          int (length (filter (\<lambda>ev. ev_rule_triggered ev = r) (map (\<lambda>k. the (f k)) l)))"
    using aggregate_events [of "map (\<lambda>k. the (f k)) l" "[]" 0] unfolding v by (auto simp: rule_count_def)
  have c: "filter (\<lambda>k. ev_rule_triggered (the (f k)) = r) l =
        filter (\<lambda>k. map_option ev_rule_triggered (f k) = Some r) l" for r
    by (rule filter_cong) (use l(3) in auto)
  have "get_shadow_stats R s = (Inr (int (length l), st), if l = [] then s' else s2)"
    using l(1) g st(1) by (auto simp: get_shadow_stats_def bind_def ret_def lift_result_def)
  then show ?thesis
    using l(1,3) st(2) c by (intro exI [of _ l] exI [of _ st]) (simp add: comp_def filter_map)
qed

section \<open>Properties\<close>

text \<open>
  C30. A logged event can be read back for a day: whatever the texts of its fields are, the value
  stored under \<open>shadow_log:<request id>\<close> parses back to exactly the event for 86400 seconds, and
  is gone afterwards.
\<close>

theorem shadow_event_round_trip:
  assumes "timed_redis R view elapse" and "0 \<le> d"
    and "log_shadow_event R now rid rule cid path reason s = (r, s')"
  shows "r = Inr () \<and>
         map_sum id (map_option json_loads) (fst (r_get R (''shadow_log:'' @ rid) (elapse d s'))) =
           Inr (if d \<le> 86400 * 1000
                then Some (Inr (JObj [(''request_id'', JStr rid), (''rule_triggered'', JStr rule),
                       (''client_id'', JStr cid), (''path'', JStr path), (''reason'', JStr reason),
                       (''timestamp'', JInt now)]))
                else None)"
proof -
  let ?ev = "\<lparr>ev_request_id = rid, ev_rule_triggered = rule, ev_client_id = cid, ev_path = path,
               ev_reason = reason, ev_timestamp = now\<rparr>"
  let ?k = "''shadow_log:'' @ rid"
  let ?ks = "put ?k (RStr (json_dumps (event_json ?ev))) (Some (know (view s) + 86400 * 1000)) (view s)"
  have R: "redis_server R view" using assms(1) by (simp add: timed_redis_def)
  have "log_shadow_event ks_redis now rid rule cid path reason (view s) = (Inr (), ?ks)"
    by (simp add: log_shadow_event_def ks_set_def shadow_log_ttl_def shadow_log_key_def Let_def)
  with simulatesD [OF redis_server.sim_log_shadow_event [OF R] assms(3)]
  have r: "r = Inr ()" and v: "view s' = ?ks" by auto
  have "entry (ks_elapse d ?ks) ?k = (if d \<le> 86400 * 1000
      then Some (RStr (json_dumps (event_json ?ev)), Some (know (view s) + 86400 * 1000)) else None)"
    using assms(2) by (simp add: entry_elapse)
  then have "fst (ks_get ?k (ks_elapse d ?ks)) =
      Inr (if d \<le> 86400 * 1000 then Some (json_dumps (event_json ?ev)) else None)"
    by (simp add: ks_get_def)
  moreover have "fst (r_get R ?k (elapse d s')) = fst (ks_get ?k (ks_elapse d ?ks))"
    using simulates_fst [OF redis_server.get_law [OF R]] timed_redis.elapse_law [OF assms(1,2)] v by simp
  moreover have "json_loads (json_dumps (event_json ?ev)) = Inr (event_json ?ev)"
    by (rule event_json_loads)
  moreover have "event_json ?ev = JObj [(''request_id'', JStr rid), (''rule_triggered'', JStr rule),
      (''client_id'', JStr cid), (''path'', JStr path), (''reason'', JStr reason), (''timestamp'', JInt now)]"
    by (simp add: event_json_def)
  ultimately show ?thesis using r by simp
qed

theorem shadow_event_round_trip_witness:
  "map_sum id (map_option json_loads) (fst (r_get ks_redis ''shadow_log:7'' (ks_elapse 5
     (snd (log_shadow_event ks_redis 99 ''7'' [CHR 0x22, CHR 0x0A] ''c'' ''/p'' [] (empty_keyspace 0)))))) =
   Inr (Some (Inr (JObj [(''request_id'', JStr ''7''), (''rule_triggered'', JStr [CHR 0x22, CHR 0x0A]),
     (''client_id'', JStr ''c''), (''path'', JStr ''/p''), (''reason'', JStr []), (''timestamp'', JInt 99)])))"
  using shadow_event_round_trip [OF timed_redis_ks, of 5 99 "''7''" "[CHR 0x22, CHR 0x0A]" "''c''" "''/p''" "[]"
      "empty_keyspace 0" "fst (log_shadow_event ks_redis 99 ''7'' [CHR 0x22, CHR 0x0A] ''c'' ''/p'' [] (empty_keyspace 0))"
      "snd (log_shadow_event ks_redis 99 ''7'' [CHR 0x22, CHR 0x0A] ''c'' ''/p'' [] (empty_keyspace 0))"]
  by simp

text \<open>
  C40. The statistics count what SCAN returned: when the live keys under the prefix hold genuine
  events, the total is the length of SCAN's answer and the count of a rule is the number of its
  keys in that answer. SCAN may repeat a key, and a repeated key is counted again; if it does
  not, the total is the number of logged events.
\<close>

theorem shadow_stats_count_scan_answer:
  assumes "redis_server R view" and "log_is (view s) f"
  shows "\<exists>l st. fst (r_scan_iter R ''shadow_log:*'' s) = Inr l \<and> set l = dom f \<and>
           fst (get_shadow_stats R s) = Inr (int (length l), st) \<and>
           (\<forall>rule. rule_count (JStr rule) st =
              int (length (filter (\<lambda>k. map_option ev_rule_triggered (f k) = Some rule) l))) \<and>
           (distinct l \<longrightarrow> length l = card (dom f))"
  using stats_run [OF assms] distinct_card by metis

text \<open>A log of two events, and a third key that holds no JSON.\<close>

definition sample_event :: "string \<Rightarrow> shadow_event" where
  "sample_event rule = \<lparr>ev_request_id = ''q'', ev_rule_triggered = rule, ev_client_id = ''c'',
     ev_path = ''/p'', ev_reason = ''r'', ev_timestamp = 5\<rparr>"

definition sample_log :: keyspace where
  "sample_log =
     put ''shadow_log:1'' (RStr (json_dumps (event_json (sample_event ''ab'')))) None
       (put ''shadow_log:2'' (RStr (json_dumps (event_json (sample_event ''ab'')))) None (empty_keyspace 0))"

theorem shadow_stats_count_scan_answer_witness:
  "\<exists>st. fst (get_shadow_stats ks_redis sample_log) = Inr (2, st)"
proof -
  define f where "f = [''shadow_log:1'' \<mapsto> sample_event ''ab'', ''shadow_log:2'' \<mapsto> sample_event ''ab'']"
  have e: "entry sample_log k =
      (if k = ''shadow_log:1'' \<or> k = ''shadow_log:2''
       then Some (RStr (json_dumps (event_json (sample_event ''ab''))), None) else None)" for k
    by (auto simp: sample_log_def)
  have "x |\<in>| live_keys sample_log ''shadow_log:*'' \<longleftrightarrow> f x \<noteq> None" for x
    by (auto simp: live_shadow_keys e f_def py_startswith_def)
  then have d: "fset (live_keys sample_log ''shadow_log:*'') = dom f" by auto
  have "log_is sample_log f"
    unfolding log_is_def d by (auto simp: string_value_def e f_def)
  from shadow_stats_count_scan_answer [OF redis_server_ks, of sample_log, OF this]
  obtain l st where "fst (r_scan_iter ks_redis ''shadow_log:*'' sample_log) = Inr l"
    "fst (get_shadow_stats ks_redis sample_log) = Inr (int (length l), st)"
    "distinct l \<longrightarrow> length l = card (dom f)"
    by blast
  moreover from this(1) have "distinct l"
    by (auto simp: ks_scan_iter_def sorted_list_of_fset.rep_eq)
  moreover have "card (dom f) = 2" by (simp add: f_def)
  ultimately show ?thesis by auto
qed

text \<open>
  The statistics add up: over any server and whatever is stored under the prefix, if
  \<open>get_shadow_stats\<close> returns, the total is the sum of the counts by rule, no rule is listed
  twice, and texts that are not JSON are skipped.
\<close>

lemma shadow_stats_add_up:
  assumes "get_shadow_stats R s = (Inr (n, by_rule), s')"
  shows "n = sum_list (map snd by_rule) \<and> distinct (map (key_norm \<circ> fst) by_rule) \<and>
         list_all (\<lambda>(rule, count). 0 < count) by_rule"
proof -
  have "stats_ok n by_rule" if "aggregate raws [] 0 = Inr (n, by_rule)" for raws
    using aggregate_ok [OF that] by (simp add: stats_ok_def)
  moreover have "stats_ok 0 []" by (simp add: stats_ok_def)
  ultimately have "stats_ok n by_rule"
    using assms by (auto simp: get_shadow_stats_def bind_eq_Inr ret_def lift_result_def split: if_splits)
  then show ?thesis by (simp add: stats_ok_def)
qed

end
