(* ===== verification/RedisClient.thy ===== *)
theory RedisClient
  imports RedisModel Config
begin

text \<open>
  app/core/redis_client.py: the connection made at startup, with its retries, and the run-time
  shadow-mode flag. A client is the interface itself; \<open>asyncio.sleep\<close> is a parameter.
\<close>

section \<open>The code\<close>

definition max_retries :: nat where "max_retries = 5"

definition base_delay :: float64 where "base_delay = 1"

text \<open>
  One iteration per attempt \<open>1, ..., max_retries\<close>; only a connection error is retried. After the
  loop the function would raise, but the last attempt returns or raises itself.
\<close>

fun connect_attempts ::
  "('s, bool) io \<Rightarrow> (float64 \<Rightarrow> ('s, unit) io) \<Rightarrow> nat list \<Rightarrow> ('s, unit) io" where
  "connect_attempts ping sleep [] = raise_exn ConnectionError"
| "connect_attempts ping sleep (attempt # rest) =
     (\<lambda>s. case ping s of
        (Inr pong, s') \<Rightarrow> (Inr (), s')
      | (Inl e, s') \<Rightarrow>
          (if e \<noteq> ConnectionError then (Inl e, s')
           else if attempt = max_retries then (Inl ConnectionError, s')
           else bind (sleep (base_delay * 2 ^ (attempt - 1)))
                  (\<lambda>_. connect_attempts ping sleep rest) s'))"

definition create_redis_client :: "('s, bool) io \<Rightarrow> (float64 \<Rightarrow> ('s, unit) io) \<Rightarrow> ('s, unit) io" where
  "create_redis_client ping sleep = connect_attempts ping sleep [1..<max_retries + 1]"

definition close_redis_client :: "('s, unit) io \<Rightarrow> ('s, unit) io" where
  "close_redis_client aclose = aclose"

definition is_shadow_mode_enabled :: "'r redis \<Rightarrow> bool \<Rightarrow> ('r, bool) io" where
  "is_shadow_mode_enabled R fallback =
     bind (r_get R ''config:shadow_mode_enabled'') (\<lambda>val.
     case val of None \<Rightarrow> ret fallback | Some v \<Rightarrow> ret (py_lower v = ''true''))"

context redis_server
begin

lemma sim_is_shadow_mode_enabled [sim_intros]:
  "simulates view (is_shadow_mode_enabled R b) (is_shadow_mode_enabled ks_redis b)"
  unfolding is_shadow_mode_enabled_def ks_redis_sel by (intro sim_intros)

end

section \<open>Retries\<close>

text \<open>
  A network whose answers to PING are a given list (then connection errors for ever), with the
  delays slept so far. It is the most general environment of the retry loop.
\<close>

record network =
  answers :: "(exn + bool) list"
  slept :: "float64 list"
  pings :: nat

definition net_ping :: "(network, bool) io" where
  "net_ping n =
     (case answers n of
        [] \<Rightarrow> (Inl ConnectionError, n\<lparr>pings := Suc (pings n)\<rparr>)
      | a # as \<Rightarrow> (a, n\<lparr>answers := as, pings := Suc (pings n)\<rparr>))"

definition net_sleep :: "float64 \<Rightarrow> (network, unit) io" where
  "net_sleep d n = (Inr (), n\<lparr>slept := slept n @ [d]\<rparr>)"

definition connect_net :: "(exn + bool) list \<Rightarrow> (exn + unit) \<times> network" where
  "connect_net as = create_redis_client net_ping net_sleep \<lparr>answers = as, slept = [], pings = 0\<rparr>"

lemma attempts_run:
  assumes "1 \<le> j" "j \<le> max_retries" and "pings n = j - 1" and "slept n = map (\<lambda>i. 2 ^ i) [0..<j - 1]"
    and "connect_attempts net_ping net_sleep [j..<max_retries + 1] n = (r, n')"
  shows "pings n' \<le> max_retries \<and> slept n' = map (\<lambda>i. 2 ^ i) [0..<pings n' - 1] \<and>
    (r = Inr () \<longleftrightarrow> (\<exists>k < max_retries + 1 - j. k < length (answers n) \<and> (\<exists>b. answers n ! k = Inr b) \<and>
        (\<forall>i < k. answers n ! i = Inl ConnectionError)))"
  using assms
proof (induction "max_retries - j" arbitrary: j n)
  case 0
  have j: "j = max_retries" "[j..<max_retries + 1] = [max_retries]" "max_retries + 1 - j = 1"
    using "0.hyps" "0.prems"(2) by auto
  have p: "Suc (pings n) = max_retries" "Suc (pings n) - 1 = j - 1"
    using "0.prems"(1,3) j(1) by simp_all
  have run: "connect_attempts net_ping net_sleep [max_retries] n = (r, n')"
    using "0.prems"(5) unfolding j(2) .
  consider "answers n = []" | e as where "answers n = Inl e # as" | b as where "answers n = Inr b # as"
    by (metis neq_Nil_conv sum.exhaust)
  then show ?case
  proof cases
    case 1
    then show ?thesis using run p "0.prems"(4) unfolding j(3) by (auto simp: net_ping_def)
  next
    case 2
    then show ?thesis
      using run p "0.prems"(4) unfolding j(3) by (auto simp: net_ping_def split: if_splits)
  next
    case 3
    then show ?thesis using run p "0.prems"(4) unfolding j(3) by (auto simp: net_ping_def)
  qed
next
  case (Suc m)
  have j: "j < max_retries" "[j..<max_retries + 1] = j # [Suc j..<max_retries + 1]"
    using Suc.hyps(2) by (auto simp: upt_rec)
  show ?case
  proof (cases "answers n = [] \<or> hd (answers n) = Inl ConnectionError")
    case True
    let ?n = "n\<lparr>answers := tl (answers n), pings := j, slept := slept n @ [2 ^ (j - 1)]\<rparr>"
    have run: "connect_attempts net_ping net_sleep [Suc j..<max_retries + 1] ?n = (r, n')"
      using Suc.prems(1,3,5) True j(1) unfolding j(2)
      by (cases n; cases "answers n")
        (simp_all add: net_ping_def net_sleep_def bind_def base_delay_def del: upt_Suc One_nat_def)
    have "slept ?n = map (\<lambda>i. 2 ^ i) [0..<Suc j - 1]"
      using Suc.prems(1,4) by (cases j) simp_all
    from Suc.hyps(1) [OF _ _ _ _ this run] Suc.hyps(2) j(1)
    have "pings n' \<le> max_retries \<and> slept n' = map (\<lambda>i. 2 ^ i) [0..<pings n' - 1] \<and>
      (r = Inr () \<longleftrightarrow> (\<exists>k < max_retries - j. k < length (tl (answers n)) \<and>
         (\<exists>b. tl (answers n) ! k = Inr b) \<and> (\<forall>i < k. tl (answers n) ! i = Inl ConnectionError)))"
      by simp
    moreover have "(\<exists>k < max_retries - j. k < length (tl (answers n)) \<and>
         (\<exists>b. tl (answers n) ! k = Inr b) \<and> (\<forall>i < k. tl (answers n) ! i = Inl ConnectionError)) \<longleftrightarrow>
       (\<exists>k < max_retries + 1 - j. k < length (answers n) \<and> (\<exists>b. answers n ! k = Inr b) \<and>
         (\<forall>i < k. answers n ! i = Inl ConnectionError))"
    proof (cases "answers n")
      case (Cons a as)
      then have "a = Inl ConnectionError" using True by simp
      moreover have "max_retries + 1 - j = Suc (max_retries - j)" using j(1) by simp
      ultimately show ?thesis using Cons by (simp add: Ex_less_Suc2 All_less_Suc2)
    qed simp
    ultimately show ?thesis by simp
  next
    case False
    then obtain a as where a: "answers n = a # as" "a \<noteq> Inl ConnectionError" by (cases "answers n") auto
    have "r = map_sum id (\<lambda>_. ()) a \<and> n' = n\<lparr>answers := as, pings := j\<rparr>"
      using Suc.prems(1,3,5) a unfolding j(2) by (cases a) (auto simp: net_ping_def simp del: upt_Suc)
    moreover obtain q where q: "max_retries + 1 - j = Suc q" using j(1) by (cases "max_retries + 1 - j") auto
    ultimately show ?thesis
      using a j(1) Suc.prems(4) unfolding q by (cases a) (auto simp: Ex_less_Suc2 All_less_Suc2)
  qed
qed

section \<open>Properties\<close>

text \<open>
  C26. The startup retries are bounded and exact, whatever the network answers: at most five pings
  are sent, the delay after the \<open>i\<close>-th failed one is \<open>2 ^ (i - 1)\<close> seconds and none follows the
  last, and the client is returned exactly when one of the first five answers succeeds and all
  before it are connection errors.
\<close>

theorem startup_retries:
  "let (r, n) = connect_net as
   in pings n \<le> 5 \<and> slept n = map (\<lambda>i. 2 ^ i) [0..<pings n - 1] \<and> sum_list (slept n) \<le> 15 \<and>
      (r = Inr () \<longleftrightarrow> (\<exists>k < 5. k < length as \<and> (\<exists>b. as ! k = Inr b) \<and> (\<forall>i < k. as ! i = Inl ConnectionError)))"
proof -
  obtain r n where rn: "connect_net as = (r, n)" by fastforce
  have "pings n \<le> max_retries \<and> slept n = map (\<lambda>i. 2 ^ i) [0..<pings n - 1] \<and>
    (r = Inr () \<longleftrightarrow> (\<exists>k < max_retries + 1 - 1. k < length as \<and> (\<exists>b. as ! k = Inr b) \<and>
        (\<forall>i < k. as ! i = Inl ConnectionError)))"
    using attempts_run [of 1 "\<lparr>answers = as, slept = [], pings = 0\<rparr>" r n] rn
    by (simp add: connect_net_def create_redis_client_def max_retries_def)
  moreover have "sum_list (map (\<lambda>i. 2 ^ i :: float64) [0..<p - 1]) \<le> 15" if "p \<le> 5" for p :: nat
  proof -
    have "p = 0 \<or> p = 1 \<or> p = 2 \<or> p = 3 \<or> p = 4 \<or> p = 5" using that by arith
    then show ?thesis by (elim disjE) (simp_all add: upt_rec)
  qed
  ultimately show ?thesis by (simp add: rn max_retries_def)
qed

theorem startup_retries_witness:
  "fst (connect_net [Inl ConnectionError, Inr True]) = Inr ()"
proof -
  let ?as = "[Inl ConnectionError, Inr True]"
  have "\<exists>k < 5. k < length ?as \<and> (\<exists>b. ?as ! k = Inr b) \<and> (\<forall>i < k. ?as ! i = Inl ConnectionError)"
    by (rule exI [of _ 1], simp, blast)
  then show ?thesis
    using startup_retries [of ?as] by (cases "connect_net ?as") simp
qed

end
