(* ===== verification/Security.thy ===== *)
theory Security
  imports Config Json
begin

text \<open>
  app/core/security.py and app/core/exceptions.py: access tokens, password hashes and the HTTP
  errors. The JWT library (python-jose) and bcrypt are parameters, records \<open>jwt_lib\<close> and
  \<open>bcrypt_lib\<close>, with what the code relies on as the locales \<open>jwt_contract\<close> and
  \<open>bcrypt_contract\<close>. Claims are the members of a JSON object.
\<close>

section \<open>Errors\<close>

definition rate_limit_exceeded_error :: "int \<Rightarrow> exn" where
  "rate_limit_exceeded_error retry_after =
     HTTPException RateLimitExceeded 429
       ''Rate limit exceeded - please retry after the indicated period''
       [(''Retry-After'', show_int retry_after)]"

definition unauthorized_error :: "string \<Rightarrow> exn" where
  "unauthorized_error detail = HTTPException Unauthorized 401 detail [(''WWW-Authenticate'', ''Bearer'')]"

definition forbidden_error :: "string \<Rightarrow> exn" where
  "forbidden_error detail = HTTPException Forbidden 403 detail []"

definition abuse_detected_error :: "string \<Rightarrow> exn" where
  "abuse_detected_error reason = HTTPException AbuseDetected 403 reason []"

section \<open>Access tokens\<close>

type_synonym claims = "(string \<times> json) list"

record jwt_lib =
  jwt_encode :: "claims \<Rightarrow> string \<Rightarrow> string"
  jwt_decode :: "string \<Rightarrow> string \<Rightarrow> int \<Rightarrow> exn + claims"

definition access_token_expire_minutes :: int where "access_token_expire_minutes = 30"

text \<open>\<open>d.update({k: v})\<close> keeps the place of a key that is there already.\<close>

fun dict_put :: "string \<Rightarrow> json \<Rightarrow> claims \<Rightarrow> claims" where
  "dict_put k v [] = [(k, v)]"
| "dict_put k v ((x, w) # d) = (if x = k then (k, v) # d else (x, w) # dict_put k v d)"

text \<open>\<open>now\<close> is the clock in seconds; the library stores the expiry as an integer.\<close>

definition create_access_token :: "jwt_lib \<Rightarrow> settings \<Rightarrow> int \<Rightarrow> claims \<Rightarrow> string" where
  "create_access_token J settings now data =
     (let expire = now + access_token_expire_minutes * 60
      in jwt_encode J (dict_put ''exp'' (JInt expire) data) (secret_key settings))"

definition decode_access_token :: "jwt_lib \<Rightarrow> settings \<Rightarrow> int \<Rightarrow> string \<Rightarrow> exn + claims option" where
  "decode_access_token J settings now token =
     (case jwt_decode J token (secret_key settings) now of
        Inr payload \<Rightarrow> Inr (Some payload)
      | Inl e \<Rightarrow> (if e = JWTError then Inr None else Inl e))"

text \<open>
  The claims the gateway issues: texts as \<open>sub\<close> and \<open>role\<close>, a number as \<open>exp\<close>. The library checks other
  registered claims (\<open>nbf\<close>, \<open>aud\<close>, a \<open>sub\<close> that is no text, ...), about which the contract says nothing.
\<close>

fun gateway_claim :: "string \<times> json \<Rightarrow> bool" where
  "gateway_claim (k, JStr v) \<longleftrightarrow> k = ''sub'' \<or> k = ''role''"
| "gateway_claim (k, JInt t) \<longleftrightarrow> k = ''exp''"
| "gateway_claim (k, v) \<longleftrightarrow> False"

definition plain_claims :: "claims \<Rightarrow> bool" where
  "plain_claims cl \<longleftrightarrow> list_all gateway_claim cl \<and> distinct (map fst cl)"

lemma gateway_claims_plain: "list_all gateway_claim cl \<Longrightarrow> list_all (\<lambda>(k, v). plain v) cl"
  by (induction cl) (auto elim: gateway_claim.elims)

definition token_char :: "char \<Rightarrow> bool" where
  "token_char c \<longleftrightarrow> \<not> is_space c"

locale jwt_contract =
  fixes J :: jwt_lib
  assumes valid_law: "plain_claims cl \<Longrightarrow> (''exp'', JInt t) \<in> set cl \<Longrightarrow> now \<le> t \<Longrightarrow>
      jwt_decode J (jwt_encode J cl key) key now = Inr cl"
    and expired_law: "plain_claims cl \<Longrightarrow> (''exp'', JInt t) \<in> set cl \<Longrightarrow> t < now \<Longrightarrow>
      jwt_decode J (jwt_encode J cl key) key now = Inl JWTError"
    and error_law: "jwt_decode J token key now = Inl e \<Longrightarrow> e = JWTError"
    and token_law: "plain_claims cl \<Longrightarrow> jwt_encode J cl key \<noteq> [] \<and> list_all token_char (jwt_encode J cl key)"
begin

text \<open>A token is valid for exactly thirty minutes, and decoding never raises.\<close>

lemma token_decodes:
  assumes "plain_claims cl" and "''exp'' \<notin> fst ` set cl"
  shows "decode_access_token J S now' (create_access_token J S now cl) =
         Inr (if now' \<le> now + 1800 then Some (cl @ [(''exp'', JInt (now + 1800))]) else None)"
proof -
  have put: "dict_put ''exp'' v cl = cl @ [(''exp'', v)]" for v
    using assms(2) by (induction cl) auto
  have p: "plain_claims (cl @ [(''exp'', JInt t)])" for t
    using assms by (auto simp: plain_claims_def)
  have m: "(''exp'', JInt t) \<in> set (cl @ [(''exp'', JInt t)])" for t by simp
  show ?thesis
    using valid_law [OF p m] expired_law [OF p m]
    by (simp add: decode_access_token_def create_access_token_def Let_def put access_token_expire_minutes_def)
qed

lemma decode_total: "\<exists>v. decode_access_token J S now token = Inr v"
  using error_law by (auto simp: decode_access_token_def split: sum.splits)

end

section \<open>Passwords\<close>

record bcrypt_lib =
  bcrypt_hashpw :: "string \<Rightarrow> string \<Rightarrow> exn + string"
  bcrypt_checkpw :: "string \<Rightarrow> string \<Rightarrow> exn + bool"

definition verify_password :: "bcrypt_lib \<Rightarrow> string \<Rightarrow> string \<Rightarrow> exn + bool" where
  "verify_password B plain_password hashed_password = bcrypt_checkpw B plain_password hashed_password"

text \<open>\<open>salt\<close> is the result of \<open>bcrypt.gensalt()\<close>.\<close>

definition hash_password :: "bcrypt_lib \<Rightarrow> string \<Rightarrow> string \<Rightarrow> exn + string" where
  "hash_password B salt password = bcrypt_hashpw B password salt"

text \<open>The length of the UTF-8 encoding of a string with code points below 256.\<close>

definition utf8_length :: "string \<Rightarrow> nat" where
  "utf8_length s = sum_list (map (\<lambda>c. if (of_char c :: nat) < 128 then 1 else 2) s)"

text \<open>bcrypt 5 refuses passwords of more than 72 bytes.\<close>

locale bcrypt_contract =
  fixes B :: bcrypt_lib
  assumes check_law: "bcrypt_hashpw B pw salt = Inr h \<Longrightarrow> bcrypt_checkpw B pw h = Inr True"
    and long_hash_law: "72 < utf8_length pw \<Longrightarrow> bcrypt_hashpw B pw salt = Inl ValueError"
    and long_check_law: "72 < utf8_length pw \<Longrightarrow> bcrypt_checkpw B pw h = Inl ValueError"
    and raise_law: "bcrypt_hashpw B pw salt = Inl e \<Longrightarrow> e = ValueError" "bcrypt_checkpw B pw h = Inl e \<Longrightarrow> e = ValueError"

section \<open>Reference libraries\<close>

text \<open>
  Tokens that carry their claims and key as JSON, shifted out of the range of white space, and
  hashes that carry the password: they satisfy the contracts the code relies on.
\<close>

definition shift :: "char \<Rightarrow> char" where "shift c = char_of (of_char c + 129 :: nat)"

definition unshift :: "char \<Rightarrow> char" where "unshift c = char_of (of_char c - 129 :: nat)"

definition ref_jwt :: jwt_lib where
  "ref_jwt =
     \<lparr>jwt_encode = (\<lambda>cl key. map shift (json_dumps (JArr [JStr key, JObj cl]))),
      jwt_decode = (\<lambda>token key now.
        case json_loads (map unshift token) of
          Inr (JArr [JStr k, JObj cl]) \<Rightarrow>
            (case map_of cl ''exp'' of
               Some (JInt t) \<Rightarrow> (if k = key \<and> now \<le> t then Inr cl else Inl JWTError)
             | _ \<Rightarrow> Inl JWTError)
        | _ \<Rightarrow> Inl JWTError)\<rparr>"

definition ref_bcrypt :: bcrypt_lib where
  "ref_bcrypt =
     \<lparr>bcrypt_hashpw = (\<lambda>pw salt. if 72 < utf8_length pw then Inl ValueError else Inr (''$2b$'' @ pw)),
      bcrypt_checkpw = (\<lambda>pw h. if 72 < utf8_length pw then Inl ValueError else Inr (h = ''$2b$'' @ pw))\<rparr>"

interpretation ref_bcrypt: bcrypt_contract ref_bcrypt
  by unfold_locales (auto simp: ref_bcrypt_def split: if_splits)

lemma bcrypt_contract_ref: "bcrypt_contract ref_bcrypt"
  by (rule ref_bcrypt.bcrypt_contract_axioms)

definition printable :: "char \<Rightarrow> bool" where
  "printable c \<longleftrightarrow> 32 \<le> (of_char c :: nat) \<and> (of_char c :: nat) < 127"

lemma printable_literals [simp]:
  "printable (CHR ''['')" "printable (CHR '']'')" "printable (CHR ''{'')" "printable (CHR ''}'')"
  "printable (CHR '','')" "printable (CHR '' '')" "printable (CHR '':'')" "printable (CHR 0x22)"
  by (simp_all add: printable_def)

lemma hex_digit_printable: "n < 16 \<Longrightarrow> printable (hex_digit n)"
  by (auto simp: printable_def hex_digit_def)

lemma json_escape_printable: "list_all printable (json_escape c)"
proof -
  have "(of_char c :: nat) div 16 < 16" by (rule less_mult_imp_div_less) (use of_char_less [of c] in simp)
  then show ?thesis
    using hex_digit_printable [of "of_char c div 16"] hex_digit_printable [of "of_char c mod 16"]
    by (auto simp: json_escape_def Let_def printable_def)
qed

lemma json_quote_printable: "list_all printable (json_quote s)"
  using json_escape_printable by (auto simp: json_quote_def printable_def list_all_iff)

lemma join_with_printable:
  "list_all printable sep \<Longrightarrow> list_all (list_all printable) ws \<Longrightarrow> list_all printable (join_with sep ws)"
  by (induction sep ws rule: join_with.induct) auto

lemma json_dumps_printable: "plain v \<Longrightarrow> list_all printable (json_dumps v)"
proof (induction v)
  case (JInt i)
  have "printable c" if "c \<in> set (show_int i)" for c
    using show_int_chars [OF that] by (auto simp: is_digit_def printable_def)
  then show ?case by (simp add: list_all_iff)
next
  case (JArr vs)
  have "list_all (list_all printable) (map json_dumps vs)"
    using JArr by (simp add: list_all_iff)
  from join_with_printable [OF _ this, of "'', ''"] show ?case by simp
next
  case (JObj kvs)
  have "list_all (list_all printable) (map (\<lambda>(k, v). json_quote k @ '': '' @ json_dumps v) kvs)"
    using JObj json_quote_printable by (fastforce simp: list_all_iff)
  from join_with_printable [OF _ this, of "'', ''"] show ?case by simp
qed (auto simp: json_quote_printable, simp_all add: printable_def)

lemma shift_facts:
  assumes "printable c"
  shows "unshift (shift c) = c" and "token_char (shift c)"
proof -
  have n: "(of_char (shift c) :: nat) = of_char c + 129"
    using assms by (simp add: shift_def printable_def)
  then show "unshift (shift c) = c" by (simp add: unshift_def)
  show "token_char (shift c)"
    using assms by (simp add: token_char_def is_space_def n printable_def)
qed

lemma shift_list:
  "list_all printable s \<Longrightarrow> map unshift (map shift s) = s"
  "list_all printable s \<Longrightarrow> list_all token_char (map shift s)"
  by (induction s) (simp_all add: shift_facts)

lemma ref_token:
  assumes "plain_claims cl"
  shows "map unshift (map shift (json_dumps (JArr [JStr key, JObj cl]))) = json_dumps (JArr [JStr key, JObj cl])"
    and "list_all token_char (map shift (json_dumps (JArr [JStr key, JObj cl])))"
proof -
  have "plain (JArr [JStr key, JObj cl])" using assms gateway_claims_plain by (simp add: plain_claims_def)
  then have p: "list_all printable (json_dumps (JArr [JStr key, JObj cl]))" by (rule json_dumps_printable)
  then show "map unshift (map shift (json_dumps (JArr [JStr key, JObj cl]))) = json_dumps (JArr [JStr key, JObj cl])"
    by (rule shift_list(1))
  show "list_all token_char (map shift (json_dumps (JArr [JStr key, JObj cl])))"
    using p by (rule shift_list(2))
qed

interpretation ref_jwt: jwt_contract ref_jwt
proof unfold_locales
  fix cl :: claims and t now :: int and key
  assume p: "plain_claims cl" and e: "(''exp'', JInt t) \<in> set cl"
  have m: "map_of cl ''exp'' = Some (JInt t)"
    using p e by (simp add: plain_claims_def map_of_is_SomeI)
  have "plain (JArr [JStr key, JObj cl])" using p gateway_claims_plain by (simp add: plain_claims_def)
  then have "json_loads (map unshift (jwt_encode ref_jwt cl key)) = Inr (JArr [JStr key, JObj cl])"
    unfolding ref_jwt_def using ref_token(1) [OF p] by (simp add: loads_dumps del: json_dumps.simps map_map)
  then have d: "jwt_decode ref_jwt (jwt_encode ref_jwt cl key) key now =
      (if now \<le> t then Inr cl else Inl JWTError)"
    by (simp add: ref_jwt_def m)
  show "now \<le> t \<Longrightarrow> jwt_decode ref_jwt (jwt_encode ref_jwt cl key) key now = Inr cl"
    and "t < now \<Longrightarrow> jwt_decode ref_jwt (jwt_encode ref_jwt cl key) key now = Inl JWTError"
    using d by simp_all
next
  show "e = JWTError" if "jwt_decode ref_jwt token key now = Inl e" for token key now e
    using that by (auto simp: ref_jwt_def split: sum.splits json.splits list.splits option.splits if_splits)
next
  show "jwt_encode ref_jwt cl key \<noteq> [] \<and> list_all token_char (jwt_encode ref_jwt cl key)"
    if "plain_claims cl" for cl key
    using ref_token(2) [OF that] by (simp add: ref_jwt_def)
qed

lemma jwt_contract_ref: "jwt_contract ref_jwt"
  by (rule ref_jwt.jwt_contract_axioms)

end
