(* ===== verification/Http.thy ===== *)
theory Http
  imports RateLimiter AbuseDetector GraduatedResponse BloomFilterService ShadowLogger RedisClient Security
begin

text \<open>
  What the middleware and the routers share: requests and responses, the per-request state, the
  metrics of app/core/metrics.py, the users of app/models/user.py with their table, and the state of
  a gateway process. FastAPI's routing and validation are not modelled: a request comes with the
  endpoint it resolves to and its validated arguments. The table of users is a parameter, a record
  of the two transactions the code makes, with their documented behaviour as the locale
  \<open>user_table\<close>.
\<close>

section \<open>Requests and responses\<close>

datatype endpoint =
    Register string string string
  | Login string string
  | Proxy
  | ShadowStats
  | BlockIp string
  | BlockAgent string
  | SoftBlockIp string
  | RemoveSoftBlock string
  | BlockStatus string
  | SetShadowMode bool
  | Health
  | Metrics
  | DebugConfig
  | Other string

primrec endpoint_path :: "endpoint \<Rightarrow> string" where
  "endpoint_path (Register username email password) = ''/auth/register''"
| "endpoint_path (Login username password) = ''/auth/login''"
| "endpoint_path Proxy = ''/gateway/proxy''"
| "endpoint_path ShadowStats = ''/admin/shadow-stats''"
| "endpoint_path (BlockIp ip) = ''/admin/block-ip/'' @ ip"
| "endpoint_path (BlockAgent user_agent) = ''/admin/block-agent''"
| "endpoint_path (SoftBlockIp ip) = ''/admin/soft-block-ip/'' @ ip"
| "endpoint_path (RemoveSoftBlock ip) = ''/admin/soft-block-ip/'' @ ip"
| "endpoint_path (BlockStatus ip) = ''/admin/block-status/'' @ ip"
| "endpoint_path (SetShadowMode enabled) = ''/admin/shadow-mode''"
| "endpoint_path Health = ''/health''"
| "endpoint_path Metrics = ''/metrics''"
| "endpoint_path DebugConfig = ''/debug/config''"
| "endpoint_path (Other path) = path"

record request =
  rq_endpoint :: endpoint
  rq_client :: "string option"
  rq_headers :: "(string \<times> string) list"

definition url_path :: "request \<Rightarrow> string" where
  "url_path request = endpoint_path (rq_endpoint request)"

text \<open>Header names are compared without case, the first match counts.\<close>

definition header_get :: "request \<Rightarrow> string \<Rightarrow> string \<Rightarrow> string" where
  "header_get request name d =
     (case find (\<lambda>(k, v). py_lower k = py_lower name) (rq_headers request) of
        None \<Rightarrow> d | Some (k, v) \<Rightarrow> v)"

record response =
  status_code :: int
  content :: json
  rs_headers :: "(string \<times> string) list"

definition json_response :: "int \<Rightarrow> json \<Rightarrow> (string \<times> string) list \<Rightarrow> response" where
  "json_response code body hs =
     \<lparr>status_code = code, content = body, rs_headers = map (\<lambda>(k, v). (py_lower k, v)) hs\<rparr>"

definition detail :: "string \<Rightarrow> json" where
  "detail message = JObj [(''detail'', JStr message)]"

text \<open>\<open>response.headers[name] = value\<close>: the first entry of that name is replaced, the others go.\<close>

fun header_put :: "string \<Rightarrow> string \<Rightarrow> (string \<times> string) list \<Rightarrow> (string \<times> string) list" where
  "header_put name value [] = [(name, value)]"
| "header_put name value ((k, v) # hs) =
     (if k = name then (name, value) # filter (\<lambda>(x, w). x \<noteq> name) hs
      else (k, v) # header_put name value hs)"

definition set_header :: "string \<Rightarrow> string \<Rightarrow> response \<Rightarrow> response" where
  "set_header name value response =
     response\<lparr>rs_headers := header_put (py_lower name) value (rs_headers response)\<rparr>"

lemma map_of_header_put:
  "map_of (header_put n v hs) k = (if k = n then Some v else map_of hs k)"
proof (induction n v hs rule: header_put.induct)
  case (2 n v x w hs)
  have "map_of (filter (\<lambda>(x, w). x \<noteq> n) hs) k = map_of hs k" if "k \<noteq> n"
    using that by (induction hs) auto
  with 2 show ?case by auto
qed simp

section \<open>Users\<close>

record user =
  u_id :: string
  u_username :: string
  u_email :: string
  u_hashed_password :: string
  u_is_active :: bool
  u_role :: string
  u_created_at :: int

datatype user_role = USER | ADMIN

primrec role_value :: "user_role \<Rightarrow> string" where
  "role_value USER = ''user''"
| "role_value ADMIN = ''admin''"

definition user_response :: "user \<Rightarrow> json" where
  "user_response u =
     JObj [(''id'', JStr (u_id u)), (''username'', JStr (u_username u)), (''email'', JStr (u_email u)),
           (''is_active'', JBool (u_is_active u)), (''role'', JStr (u_role u))]"

definition token_response :: "string \<Rightarrow> json" where
  "token_response access_token =
     JObj [(''access_token'', JStr access_token), (''token_type'', JStr ''bearer'')]"

text \<open>
  The two transactions: \<open>select(User).where(User.username == ...)\<close> with \<open>scalar_one_or_none\<close>, and
  \<open>add\<close>, \<open>commit\<close>, \<open>refresh\<close>.
\<close>

record 'd user_db =
  db_find :: "string \<Rightarrow> ('d, user option) io"
  db_add :: "user \<Rightarrow> ('d, unit) io"

text \<open>
  The table with its columns' constraints: unique user names and addresses, and the lengths of the
  columns, over which PostgreSQL raises.
\<close>

definition fits_columns :: "user \<Rightarrow> bool" where
  "fits_columns u \<longleftrightarrow> length (u_username u) \<le> 50 \<and> length (u_email u) \<le> 255 \<and>
     length (u_hashed_password u) \<le> 255 \<and> length (u_role u) \<le> 20"

definition tbl_find :: "string \<Rightarrow> (user list, user option) io" where
  "tbl_find name = gets (find (\<lambda>u. u_username u = name))"

definition tbl_add :: "user \<Rightarrow> (user list, unit) io" where
  "tbl_add u = (\<lambda>us.
     if \<not> fits_columns u then (Inl DatabaseError, us)
     else if \<exists>v \<in> set us. u_id v = u_id u \<or> u_username v = u_username u \<or> u_email v = u_email u
     then (Inl IntegrityError, us)
     else (Inr (), us @ [u]))"

locale user_table =
  fixes D :: "'d user_db" and rows :: "'d \<Rightarrow> user list"
  assumes find_law: "simulates rows (db_find D name) (tbl_find name)"
    and add_law: "simulates rows (db_add D u) (tbl_add u)"

definition list_users :: "user list user_db" where
  "list_users = \<lparr>db_find = tbl_find, db_add = tbl_add\<rparr>"

interpretation list_users: user_table list_users "\<lambda>us. us"
  by unfold_locales (simp_all add: list_users_def sim_id)

lemma user_table_list: "user_table list_users (\<lambda>us. us)"
  by (rule list_users.user_table_axioms)

section \<open>The state of a gateway process\<close>

datatype metric =
    RequestDuration rat
  | RequestsTotal string string
  | RateLimitRejections string
  | BloomFilterHits string
  | AbuseDetections string string
  | DbPoolCheckedout int
  | DbPoolOverflow int

text \<open>\<open>request.state\<close>: attributes that are set or not.\<close>

record request_state =
  st_request_id :: "string option"
  st_client_id :: "string option"
  st_client_ip :: "string option"
  st_user_agent :: "string option"
  st_shadow_rule :: "string option"
  st_shadow_reason :: "string option"

definition fresh_state :: request_state where
  "fresh_state = \<lparr>st_request_id = None, st_client_id = None, st_client_ip = None,
     st_user_agent = None, st_shadow_rule = None, st_shadow_reason = None\<rparr>"

text \<open>\<open>getattr(request.state, name, default)\<close>.\<close>

definition attr_or :: "string option \<Rightarrow> string \<Rightarrow> string" where
  "attr_or v d = (case v of None \<Rightarrow> d | Some x \<Rightarrow> x)"

lemma attr_or_simps [simp]: "attr_or None d = d" "attr_or (Some x) d = x"
  by (simp_all add: attr_or_def)

record ('r, 'b, 'd) gateway =
  gw_node :: "('r, 'b) node"
  gw_users :: 'd
  gw_metrics :: "metric list"
  gw_state :: request_state

definition on_node :: "(('r, 'b) node, 'x) io \<Rightarrow> (('r, 'b, 'd) gateway, 'x) io" where
  "on_node m = zoom gw_node (\<lambda>n g. g\<lparr>gw_node := n\<rparr>) m"

definition on_redis :: "('r, 'x) io \<Rightarrow> (('r, 'b, 'd) gateway, 'x) io" where
  "on_redis m = on_node (on_store m)"

definition on_users :: "('d, 'x) io \<Rightarrow> (('r, 'b, 'd) gateway, 'x) io" where
  "on_users m = zoom gw_users (\<lambda>d g. g\<lparr>gw_users := d\<rparr>) m"

text \<open>Counters and histograms as the list of what was recorded.\<close>

definition observe :: "metric \<Rightarrow> (('r, 'b, 'd) gateway, unit) io" where
  "observe m = modify (\<lambda>g. g\<lparr>gw_metrics := gw_metrics g @ [m]\<rparr>)"

definition set_state :: "(request_state \<Rightarrow> request_state) \<Rightarrow> (('r, 'b, 'd) gateway, unit) io" where
  "set_state f = modify (\<lambda>g. g\<lparr>gw_state := f (gw_state g)\<rparr>)"

definition get_state :: "(('r, 'b, 'd) gateway, request_state) io" where
  "get_state = gets gw_state"

definition get_bloom :: "(('r, 'b, 'd) gateway, 'b bloom_service) io" where
  "get_bloom = gets (\<lambda>g. bloom (gw_node g))"

text \<open>The statistics of the connection pool.\<close>

record pool =
  checkedout :: int
  checkedin :: int
  pool_overflow :: int
  pool_size :: int

definition record_pool_stats :: "pool \<Rightarrow> (('r, 'b, 'd) gateway, unit) io" where
  "record_pool_stats p =
     bind (observe (DbPoolCheckedout (checkedout p))) (\<lambda>_. observe (DbPoolOverflow (pool_overflow p)))"

text \<open>
  The parameters of the model: the libraries, the settings, how time passes on the server during a
  sleep, and what FastAPI itself answers to a path no router has. The readings are what the clock
  shows at each place that reads it (in seconds or milliseconds), the random values and the pool.
\<close>

record ('r, 'b, 'd) env =
  e_redis :: "'r redis"
  e_bloom :: "'b bloom_lib"
  e_jwt :: jwt_lib
  e_bcrypt :: bcrypt_lib
  e_users :: "'d user_db"
  e_settings :: settings
  e_elapse :: "int \<Rightarrow> 'r \<Rightarrow> 'r"
  e_framework :: "string \<Rightarrow> response"

record readings =
  rd_uuid :: string
  rd_duration :: rat
  rd_auth_s :: int
  rd_admin_s :: int
  rd_login_s :: int
  rd_shadow_s :: int
  rd_rate_ms :: int
  rd_timing_ms :: int
  rd_salt :: string
  rd_user_id :: string
  rd_created_us :: int
  rd_pool :: pool

lemma on_node_run [io_simps]: "m (gw_node g) = (r, n) \<Longrightarrow> on_node m g = (r, g\<lparr>gw_node := n\<rparr>)"
  by (simp add: on_node_def zoom_def)

lemma on_redis_run [io_simps]:
  "m (store (gw_node g)) = (r, a) \<Longrightarrow> on_redis m g = (r, g\<lparr>gw_node := (gw_node g)\<lparr>store := a\<rparr>\<rparr>)"
  by (simp add: on_redis_def on_node_def on_store_def zoom_def)

lemma on_users_run [io_simps]: "m (gw_users g) = (r, d) \<Longrightarrow> on_users m g = (r, g\<lparr>gw_users := d\<rparr>)"
  by (simp add: on_users_def zoom_def)

lemma observe_run [io_simps]: "observe m g = (Inr (), g\<lparr>gw_metrics := gw_metrics g @ [m]\<rparr>)"
  by (simp add: observe_def modify_def)

lemma set_state_run [io_simps]: "set_state f g = (Inr (), g\<lparr>gw_state := f (gw_state g)\<rparr>)"
  by (simp add: set_state_def modify_def)

lemma get_state_run [io_simps]: "get_state g = (Inr (gw_state g), g)"
  by (simp add: get_state_def gets_def)

lemma get_bloom_run [io_simps]: "get_bloom g = (Inr (bloom (gw_node g)), g)"
  by (simp add: get_bloom_def gets_def)

end
