(* ===== verification/Middleware.thy ===== *)
theory Middleware
  imports Http
begin

text \<open>
  app/middleware/: the six middleware classes. Each takes the request and the rest of the chain
  (\<open>call_next\<close>) and works on the state of the gateway; the order of the chain is main.py's and is
  put together in the theory Gateway.
\<close>

type_synonym ('r, 'b, 'd) app = "(('r, 'b, 'd) gateway, response) io"

section \<open>Request ID\<close>

definition request_id_dispatch ::
  "readings \<Rightarrow> request \<Rightarrow> ('r, 'b, 'd) app \<Rightarrow> ('r, 'b, 'd) app" where
  "request_id_dispatch rd request call_next =
     bind (set_state (\<lambda>s. s\<lparr>st_request_id := Some (rd_uuid rd)\<rparr>)) (\<lambda>_.
     bind call_next (\<lambda>response.
     bind (observe (RequestDuration (rd_duration rd))) (\<lambda>_.
     bind (observe (RequestsTotal (show_int (status_code response)) (url_path request))) (\<lambda>_.
     ret (set_header ''X-Request-ID'' (rd_uuid rd) response)))))"

section \<open>Authentication\<close>

definition public_paths :: "string list" where
  "public_paths =
     [''/health'', ''/metrics'', ''/auth/login'', ''/auth/register'', ''/docs'', ''/openapi.json'']"

definition not_authenticated :: "string \<Rightarrow> response" where
  "not_authenticated message =
     json_response 401 (detail message) [(''WWW-Authenticate'', ''Bearer'')]"

text \<open>\<open>payload.get("sub", default)\<close>; the token library accepts only strings as subject.\<close>

definition claim_text :: "string \<Rightarrow> string \<Rightarrow> claims \<Rightarrow> string" where
  "claim_text k d payload = (case map_of payload k of Some (JStr v) \<Rightarrow> v | _ \<Rightarrow> d)"

definition auth_dispatch ::
  "('r, 'b, 'd) env \<Rightarrow> readings \<Rightarrow> request \<Rightarrow> ('r, 'b, 'd) app \<Rightarrow> ('r, 'b, 'd) app" where
  "auth_dispatch E rd request call_next =
     (if url_path request \<in> set public_paths then
        bind (set_state (\<lambda>s. s\<lparr>st_client_id := Some ''anonymous''\<rparr>)) (\<lambda>_. call_next)
      else
        (let auth_header = header_get request ''Authorization'' []
         in if \<not> py_startswith auth_header ''Bearer '' then ret (not_authenticated ''Not authenticated'')
            else
              bind (lift_result (list_item (py_split_sep (CHR '' '') auth_header) 1)) (\<lambda>token.
              bind (lift_result (decode_access_token (e_jwt E) (e_settings E) (rd_auth_s rd) token)) (\<lambda>payload.
              case payload of
                None \<Rightarrow> ret (not_authenticated ''Invalid or expired token'')
              | Some claims \<Rightarrow>
                  bind (set_state (\<lambda>s. s\<lparr>st_client_id := Some (claim_text ''sub'' ''unknown'' claims)\<rparr>))
                    (\<lambda>_. call_next)))))"

section \<open>Bloom filter\<close>

definition bloom_filter_dispatch ::
  "('r, 'b, 'd) env \<Rightarrow> request \<Rightarrow> ('r, 'b, 'd) app \<Rightarrow> ('r, 'b, 'd) app" where
  "bloom_filter_dispatch E request call_next =
     (let client_ip = attr_or (rq_client request) ''unknown'';
          user_agent = header_get request ''User-Agent'' []
      in bind get_bloom (\<lambda>bloom.
         if might_contain_ip (e_bloom E) bloom client_ip then
           bind (observe (BloomFilterHits ''ip'')) (\<lambda>_.
           ret (json_response 403 (detail ''Access denied - known bad IP'') []))
         else if user_agent \<noteq> [] \<and> might_contain_agent (e_bloom E) bloom user_agent then
           bind (observe (BloomFilterHits ''agent'')) (\<lambda>_.
           ret (json_response 403 (detail ''Access denied - abusive user agent'') []))
         else
           bind (set_state (\<lambda>s. s\<lparr>st_client_ip := Some client_ip, st_user_agent := Some user_agent\<rparr>))
             (\<lambda>_. call_next)))"

section \<open>Rate limit\<close>

definition excluded_paths :: "string list" where
  "excluded_paths =
     [''/health'', ''/metrics'', ''/docs'', ''/openapi.json'', ''/redoc'', ''/auth/register'']"

text \<open>
  The response made of an \<open>HTTPException\<close>: its status, detail and headers; main.py's handler of
  \<open>AbuseDetectedError\<close> leaves the headers out. There is no handler for other exceptions.
\<close>

fun exception_response :: "exn \<Rightarrow> response option" where
  "exception_response (HTTPException c code message hs) =
     Some (json_response code (detail message) (if c = AbuseDetected then [] else hs))"
| "exception_response e = None"

definition rate_limit_dispatch ::
  "('r, 'b, 'd) env \<Rightarrow> readings \<Rightarrow> request \<Rightarrow> ('r, 'b, 'd) app \<Rightarrow> ('r, 'b, 'd) app" where
  "rate_limit_dispatch E rd request call_next =
     (if url_path request \<in> set excluded_paths then call_next
      else
        (let client_host = attr_or (rq_client request) ''127.0.0.1''
         in bind get_state (\<lambda>st.
            let client_id = attr_or (st_client_id st) client_host
            in bind (on_redis (check_rate_limit (e_redis E) (rd_rate_ms rd) client_id
                        (rate_limit_requests (e_settings E)) (rate_limit_window_seconds (e_settings E))))
                 (\<lambda>(allowed, remaining).
               if \<not> allowed then
                 bind (observe (RateLimitRejections client_id)) (\<lambda>_.
                 ret (the (exception_response
                        (rate_limit_exceeded_error (rate_limit_window_seconds (e_settings E))))))
               else
                 bind call_next (\<lambda>response.
                 ret (set_header ''X-RateLimit-Remaining'' (show_int remaining) response))))))"

section \<open>Abuse detection\<close>

text \<open>\<open>reason.split(":")[0]\<close>: the split is never empty.\<close>

definition reason_type :: "string \<Rightarrow> string" where
  "reason_type reason = hd (py_split_sep (CHR '':'') reason)"

text \<open>\<open>asyncio.sleep(n)\<close> lets \<open>n\<close> seconds pass on the server.\<close>

definition sleep_on :: "('r, 'b, 'd) env \<Rightarrow> int \<Rightarrow> ('r, unit) io" where
  "sleep_on E n = modify (e_elapse E (n * 1000))"

definition enforce ::
  "('r, 'b, 'd) env \<Rightarrow> client_state \<Rightarrow> string \<Rightarrow> ('r, 'b, 'd) app \<Rightarrow> ('r, 'b, 'd) app" where
  "enforce E state reason call_next =
     (if state = SOFT_BLOCK then
        bind (observe (AbuseDetections ''soft_block'' (reason_type reason))) (\<lambda>_.
        ret (json_response 429 (detail ''Too many requests - temporary block applied'')
               [(''Retry-After'', show_int soft_block_ttl)]))
      else if state = THROTTLED then
        bind (observe (AbuseDetections ''throttled'' (reason_type reason))) (\<lambda>_.
        bind (on_redis (apply_throttle (sleep_on E))) (\<lambda>_.
        bind call_next (\<lambda>response.
        ret (set_header ''Retry-After'' (show_int throttle_delay_seconds) response))))
      else call_next)"

text \<open>\<open>now\<close> is the reading of the clock in \<open>record_request_timing\<close>, in milliseconds.\<close>

definition abuse_signals ::
  "'r redis \<Rightarrow> settings \<Rightarrow> int \<Rightarrow> string \<Rightarrow> string \<Rightarrow> ('r, int \<times> int \<times> float64 option) io" where
  "abuse_signals R S now client_ip client_id =
     bind (r_mget R [failed_auth_key client_ip, failed_auth_key client_id]) (\<lambda>raws.
     bind (lift_result (unpack2 raws)) (\<lambda>(ip_count_raw, user_count_raw).
     bind (lift_result (int_or_zero ip_count_raw)) (\<lambda>ip_fail_count.
     bind (lift_result (int_or_zero user_count_raw)) (\<lambda>user_fail_count.
     bind (record_request_timing R now client_id (scraping_sample_size S)) (\<lambda>_.
     bind (compute_timing_entropy R client_id) (\<lambda>timing_entropy.
     ret (ip_fail_count, user_fail_count, timing_entropy)))))))"

definition abuse_verdict ::
  "'r redis \<Rightarrow> settings \<Rightarrow> int \<Rightarrow> string \<Rightarrow> string \<Rightarrow> ('r, (client_state \<times> string) \<times> bool) io" where
  "abuse_verdict R S now client_ip client_id =
     bind (abuse_signals R S now client_ip client_id) (\<lambda>(ip_fail_count, user_fail_count, timing_entropy).
     bind (compute_abuse_score R client_ip client_id ip_fail_count user_fail_count timing_entropy
             (auth_failure_ip_threshold S) (auth_failure_user_threshold S)
             (scraping_entropy_threshold S)) (\<lambda>verdict.
     bind (is_shadow_mode_enabled R (shadow_mode_enabled S)) (\<lambda>shadow_enabled.
     ret (verdict, shadow_enabled))))"

context redis_server
begin

lemma sim_abuse_verdict [sim_intros]:
  "simulates view (abuse_verdict R S now ip c) (abuse_verdict ks_redis S now ip c)"
  unfolding abuse_verdict_def abuse_signals_def ks_redis_sel by (intro sim_intros)

end

definition abuse_detector_dispatch ::
  "('r, 'b, 'd) env \<Rightarrow> readings \<Rightarrow> ('r, 'b, 'd) app \<Rightarrow> ('r, 'b, 'd) app" where
  "abuse_detector_dispatch E rd call_next =
     bind get_state (\<lambda>st.
     let client_id = attr_or (st_client_id st) ''anonymous'';
         client_ip = attr_or (st_client_ip st) ''unknown''
     in bind (on_redis (abuse_verdict (e_redis E) (e_settings E) (rd_timing_ms rd) client_ip client_id)) (\<lambda>((state, reason), shadow_enabled).
        if shadow_enabled \<and> state \<noteq> ALLOWED then
          bind (observe (AbuseDetections (state_value state) (reason_type reason))) (\<lambda>_.
          bind (set_state (\<lambda>s. s\<lparr>st_shadow_rule := Some (''abuse_detector:'' @ state_value state),
                                   st_shadow_reason := Some reason\<rparr>)) (\<lambda>_.
          call_next))
        else enforce E state reason call_next))"

section \<open>Shadow mode\<close>

definition shadow_mode_dispatch ::
  "('r, 'b, 'd) env \<Rightarrow> readings \<Rightarrow> request \<Rightarrow> ('r, 'b, 'd) app \<Rightarrow> ('r, 'b, 'd) app" where
  "shadow_mode_dispatch E rd request call_next =
     bind call_next (\<lambda>response.
     bind (on_redis (is_shadow_mode_enabled (e_redis E) (shadow_mode_enabled (e_settings E)))) (\<lambda>shadow_enabled.
     if \<not> shadow_enabled then ret response
     else
       bind get_state (\<lambda>st.
       let shadow_rule = attr_or (st_shadow_rule st) [];
           shadow_reason = attr_or (st_shadow_reason st) []
       in if shadow_rule \<noteq> [] then
            bind (on_redis (log_shadow_event (e_redis E) (rd_shadow_s rd)
                    (attr_or (st_request_id st) ''unknown'') shadow_rule
                    (attr_or (st_client_id st) ''anonymous'') (url_path request) shadow_reason)) (\<lambda>_.
            ret response)
          else ret response)))"

end
