(* ===== verification/Routers.thy ===== *)
theory Routers
  imports Middleware
begin

text \<open>
  app/routers/, app/dependencies.py and the endpoints of app/main.py: the handlers behind the
  middleware chain. A handler returns a response or raises; an \<open>HTTPException\<close> becomes a response
  in the theory Gateway.
\<close>

section \<open>Dependencies\<close>

text \<open>\<open>payload.get("role", UserRole.USER)\<close> and \<open>payload.get("sub", "")\<close>.\<close>

definition require_admin :: "('r, 'b, 'd) env \<Rightarrow> readings \<Rightarrow> request \<Rightarrow> exn + string" where
  "require_admin E rd request =
     (let auth_header = header_get request ''Authorization'' [];
          parts = py_split_ws auth_header
      in case parts of
           [scheme, token] \<Rightarrow>
             (if py_lower scheme \<noteq> ''bearer'' then
                Inl (HTTPException PlainHTTP 401 ''Not authenticated'' [(''WWW-Authenticate'', ''Bearer'')])
              else
                (case decode_access_token (e_jwt E) (e_settings E) (rd_admin_s rd) token of
                   Inl e \<Rightarrow> Inl e
                 | Inr None \<Rightarrow>
                     Inl (HTTPException PlainHTTP 401 ''Invalid or expired token''
                            [(''WWW-Authenticate'', ''Bearer'')])
                 | Inr (Some payload) \<Rightarrow>
                     (let username = claim_text ''sub'' [] payload;
                          role = claim_text ''role'' (role_value USER) payload
                      in if role \<noteq> role_value ADMIN then
                           Inl (HTTPException PlainHTTP 403 ''Admin access required'' [])
                         else Inr username)))
         | _ \<Rightarrow>
             Inl (HTTPException PlainHTTP 401 ''Not authenticated'' [(''WWW-Authenticate'', ''Bearer'')]))"

section \<open>Registration and login\<close>

text \<open>\<open>User(...)\<close> with the defaults of the columns \<open>id\<close> and \<open>created_at\<close>.\<close>

definition new_user :: "readings \<Rightarrow> string \<Rightarrow> string \<Rightarrow> string \<Rightarrow> user" where
  "new_user rd username email hashed_pw =
     \<lparr>u_id = rd_user_id rd, u_username = username, u_email = email, u_hashed_password = hashed_pw,
      u_is_active = True, u_role = role_value USER, u_created_at = rd_created_us rd\<rparr>"

lemma new_user_sel [simp]:
  "u_id (new_user rd n m h) = rd_user_id rd" "u_username (new_user rd n m h) = n" "u_email (new_user rd n m h) = m"
  "u_hashed_password (new_user rd n m h) = h" "u_role (new_user rd n m h) = ''user''"
  "u_is_active (new_user rd n m h)"
  by (simp_all add: new_user_def)

definition register ::
  "('r, 'b, 'd) env \<Rightarrow> readings \<Rightarrow> string \<Rightarrow> string \<Rightarrow> string \<Rightarrow> ('r, 'b, 'd) app" where
  "register E rd username email password =
     bind (lift_result (hash_password (e_bcrypt E) (rd_salt rd) password)) (\<lambda>hashed_pw.
     bind (on_users (db_find (e_users E) username)) (\<lambda>result.
     case result of
       Some u \<Rightarrow> raise_exn (HTTPException PlainHTTP 409 ''Username already exists'' [])
     | None \<Rightarrow>
         (let user = new_user rd username email hashed_pw
          in bind (on_users (db_add (e_users E) user)) (\<lambda>_.
             ret (json_response 201 (user_response user) [])))))"

text \<open>
  The password is checked only for a user that exists, and outside the database session. A failure
  is recorded on both axes.
\<close>

definition password_ok :: "('r, 'b, 'd) env \<Rightarrow> user option \<Rightarrow> string \<Rightarrow> exn + bool" where
  "password_ok E user password =
     (case user of
        None \<Rightarrow> Inr False
      | Some u \<Rightarrow> verify_password (e_bcrypt E) password (u_hashed_password u))"

definition login_claims :: "user \<Rightarrow> claims" where
  "login_claims u = [(''sub'', JStr (u_username u)), (''role'', JStr (u_role u))]"

definition login ::
  "('r, 'b, 'd) env \<Rightarrow> readings \<Rightarrow> request \<Rightarrow> string \<Rightarrow> string \<Rightarrow> ('r, 'b, 'd) app" where
  "login E rd request username password =
     (let client_ip = attr_or (rq_client request) ''unknown''; S = e_settings E
      in bind (on_redis (is_credential_stuffing (e_redis E) client_ip username
                 (auth_failure_ip_threshold S) (auth_failure_user_threshold S))) (\<lambda>(is_stuffing, reason).
         if is_stuffing then raise_exn (HTTPException PlainHTTP 403 ''Too many failed attempts'' [])
         else
           bind (on_users (db_find (e_users E) username)) (\<lambda>user.
           bind (lift_result (password_ok E user password)) (\<lambda>ok.
           if \<not> ok then
             bind (on_redis (record_auth_failure (e_redis E) client_ip username
                     (auth_failure_window_seconds S))) (\<lambda>_.
             raise_exn (HTTPException PlainHTTP 401 ''Invalid credentials'' []))
           else
             (case user of
                None \<Rightarrow> raise_exn AttributeError
              | Some u \<Rightarrow>
                  ret (json_response 200
                         (token_response (create_access_token (e_jwt E) S (rd_login_s rd) (login_claims u)))
                         []))))))"

section \<open>The proxied service\<close>

definition proxy :: "('r, 'b, 'd) app" where
  "proxy =
     bind get_state (\<lambda>st.
     ret (json_response 200
       (JObj [(''message'', JStr ''Request reached upstream service''),
              (''client_id'', JStr (attr_or (st_client_id st) ''anonymous'')),
              (''request_id'', JStr (attr_or (st_request_id st) ''unknown''))]) []))"

section \<open>Administration\<close>

definition stats_json :: "int \<times> (json \<times> int) list \<Rightarrow> json" where
  "stats_json stats =
     (let (n, by_rule) = stats
      in JObj [(''total'', JInt n),
               (''by_rule'', JObj (map (\<lambda>(rule, count).
                  (case rule of JStr r \<Rightarrow> r | v \<Rightarrow> json_dumps v, JInt count)) by_rule))])"

definition shadow_stats :: "('r, 'b, 'd) env \<Rightarrow> ('r, 'b, 'd) app" where
  "shadow_stats E =
     bind (on_redis (get_shadow_stats (e_redis E))) (\<lambda>stats.
     ret (json_response 200 (stats_json stats) []))"

definition block_ip :: "('r, 'b, 'd) env \<Rightarrow> string \<Rightarrow> ('r, 'b, 'd) app" where
  "block_ip E ip =
     bind (on_node (add_ip_to_redis (e_bloom E) (e_redis E) ip)) (\<lambda>_.
     ret (json_response 200 (JObj [(''hard_blocked'', JStr ip)]) []))"

definition block_agent :: "('r, 'b, 'd) env \<Rightarrow> string \<Rightarrow> ('r, 'b, 'd) app" where
  "block_agent E user_agent =
     bind (on_node (add_agent_to_redis (e_bloom E) (e_redis E) user_agent)) (\<lambda>_.
     ret (json_response 200 (JObj [(''blocked_agent'', JStr user_agent)]) []))"

definition soft_block_ip :: "('r, 'b, 'd) env \<Rightarrow> string \<Rightarrow> ('r, 'b, 'd) app" where
  "soft_block_ip E ip =
     bind (on_redis (apply_soft_block (e_redis E) ip soft_block_ttl)) (\<lambda>_.
     ret (json_response 200 (JObj [(''soft_blocked'', JStr ip)]) []))"

definition remove_soft_block_ip :: "('r, 'b, 'd) env \<Rightarrow> string \<Rightarrow> ('r, 'b, 'd) app" where
  "remove_soft_block_ip E ip =
     bind (on_redis (remove_soft_block (e_redis E) ip)) (\<lambda>_.
     ret (json_response 200 (JObj [(''unblocked'', JStr ip)]) []))"

definition block_status :: "('r, 'b, 'd) env \<Rightarrow> string \<Rightarrow> ('r, 'b, 'd) app" where
  "block_status E ip =
     bind (on_redis (get_client_state (e_redis E) ip)) (\<lambda>state.
     bind get_bloom (\<lambda>bloom.
     ret (json_response 200
       (JObj [(''ip'', JStr ip),
              (''soft_blocked'', JBool (state_value state = ''soft_block'')),
              (''hard_blocked_bloom'', JBool (might_contain_ip (e_bloom E) bloom ip))]) [])))"

definition set_shadow_mode :: "('r, 'b, 'd) env \<Rightarrow> bool \<Rightarrow> ('r, 'b, 'd) app" where
  "set_shadow_mode E enabled =
     bind (on_redis (r_set (e_redis E) ''config:shadow_mode_enabled'' (py_lower (py_bool_str enabled)) None)) (\<lambda>_.
     ret (json_response 200 (JObj [(''shadow_mode_enabled'', JBool enabled)]) []))"

section \<open>The endpoints of main.py\<close>

definition health :: "('r, 'b, 'd) env \<Rightarrow> readings \<Rightarrow> ('r, 'b, 'd) app" where
  "health E rd =
     bind (try_except (bind (on_redis (r_ping (e_redis E))) (\<lambda>_. ret ''ok'')) (\<lambda>exc. ret ''error''))
       (\<lambda>redis_status.
     bind (record_pool_stats (rd_pool rd)) (\<lambda>_.
     bind get_bloom (\<lambda>bloom.
     ret (json_response 200
       (JObj [(''status'', JStr ''ok''), (''redis'', JStr redis_status),
              (''bloom_filter_ips_loaded'', JInt (loaded_ip_count bloom)),
              (''bloom_filter_agents_loaded'', JInt (loaded_agent_count bloom)),
              (''db_pool'', JObj [(''checked_out'', JInt (checkedout (rd_pool rd))),
                                  (''checked_in'', JInt (checkedin (rd_pool rd))),
                                  (''overflow'', JInt (pool_overflow (rd_pool rd))),
                                  (''size'', JInt (pool_size (rd_pool rd)))])]) []))))"

text \<open>The exposition text of the metrics is prometheus_client's; its content is left out.\<close>

definition metrics_endpoint :: "('r, 'b, 'd) app" where
  "metrics_endpoint = ret \<lparr>status_code = 200, content = JNull, rs_headers = []\<rparr>"

definition debug_config :: "('r, 'b, 'd) env \<Rightarrow> ('r, 'b, 'd) app" where
  "debug_config E =
     (let settings = get_settings_dep (e_settings E)
      in if app_env settings \<noteq> ''development'' then
           ret (json_response 200 (JObj [(''error'', JStr ''not available in production'')]) [])
         else
           ret (json_response 200
             (JObj [(''app_env'', JStr (app_env settings)),
                    (''rate_limit_requests'', JInt (rate_limit_requests settings)),
                    (''shadow_mode_enabled'', JBool (shadow_mode_enabled settings))]) []))"

text \<open>The routes: every handler of the admin router runs after its \<open>require_admin\<close> dependency.\<close>

definition admin_only ::
  "('r, 'b, 'd) env \<Rightarrow> readings \<Rightarrow> request \<Rightarrow> ('r, 'b, 'd) app \<Rightarrow> ('r, 'b, 'd) app" where
  "admin_only E rd request handler =
     bind (lift_result (require_admin E rd request)) (\<lambda>_. handler)"

definition route :: "('r, 'b, 'd) env \<Rightarrow> readings \<Rightarrow> request \<Rightarrow> ('r, 'b, 'd) app" where
  "route E rd request =
     (case rq_endpoint request of
        Register username email password \<Rightarrow> register E rd username email password
      | Login username password \<Rightarrow> login E rd request username password
      | Proxy \<Rightarrow> proxy
      | ShadowStats \<Rightarrow> admin_only E rd request (shadow_stats E)
      | BlockIp ip \<Rightarrow> admin_only E rd request (block_ip E ip)
      | BlockAgent user_agent \<Rightarrow> admin_only E rd request (block_agent E user_agent)
      | SoftBlockIp ip \<Rightarrow> admin_only E rd request (soft_block_ip E ip)
      | RemoveSoftBlock ip \<Rightarrow> admin_only E rd request (remove_soft_block_ip E ip)
      | BlockStatus ip \<Rightarrow> admin_only E rd request (block_status E ip)
      | SetShadowMode enabled \<Rightarrow> admin_only E rd request (set_shadow_mode E enabled)
      | Health \<Rightarrow> health E rd
      | Metrics \<Rightarrow> metrics_endpoint
      | DebugConfig \<Rightarrow> debug_config E
      | Other path \<Rightarrow> ret (e_framework E path))"

end
