(* ===== verification/Gateway.thy ===== *)
theory Gateway
  imports Routers
begin

text \<open>
  app/main.py: the startup, the middleware chain in its order (the last added runs first), the
  handlers of HTTP exceptions, and one request from end to end. An exception that is not an
  \<open>HTTPException\<close> leaves every middleware and is answered 500 by the server.
\<close>

section \<open>Startup\<close>

text \<open>
  What lifespan does before the first request: the service the requests will read, or an exception,
  after which the process is not there.
\<close>

definition startup :: "('r, 'b, 'd) env \<Rightarrow> ('r, 'b bloom_service) io" where
  "startup E =
     (let L = e_bloom E; S = e_settings E; R = e_redis E
      in bind (create_redis_client (r_ping R) (\<lambda>delay. modify (e_elapse E \<lfloor>delay * 1000\<rfloor>))) (\<lambda>_.
         bind (lift_result (create_bloom_filter_service L S)) (\<lambda>b. \<lambda>r.
         case sync_from_redis L S R \<lparr>store = r, bloom = b\<rparr> of
           (Inl e, s) \<Rightarrow> (Inl e, store s)
         | (Inr n, s) \<Rightarrow> (Inr (bloom s), store s))))"

section \<open>One request\<close>

text \<open>Both registered handlers and FastAPI's own turn the exception into its response.\<close>

definition handle_exceptions :: "('r, 'b, 'd) app \<Rightarrow> ('r, 'b, 'd) app" where
  "handle_exceptions m =
     try_except m (\<lambda>exc. case exception_response exc of
        Some response \<Rightarrow> ret response | None \<Rightarrow> raise_exn exc)"

definition chain :: "('r, 'b, 'd) env \<Rightarrow> readings \<Rightarrow> request \<Rightarrow> ('r, 'b, 'd) app" where
  "chain E rd request =
     request_id_dispatch rd request
       (auth_dispatch E rd request
         (bloom_filter_dispatch E request
           (rate_limit_dispatch E rd request
             (abuse_detector_dispatch E rd
               (shadow_mode_dispatch E rd request
                 (handle_exceptions (route E rd request)))))))"

definition internal_server_error :: response where
  "internal_server_error =
     \<lparr>status_code = 500, content = JStr ''Internal Server Error'', rs_headers = []\<rparr>"

definition handle_request ::
  "('r, 'b, 'd) env \<Rightarrow> readings \<Rightarrow> request \<Rightarrow> ('r, 'b, 'd) gateway \<Rightarrow> response \<times> ('r, 'b, 'd) gateway" where
  "handle_request E rd request g =
     (case chain E rd request (g\<lparr>gw_state := fresh_state\<rparr>) of
        (Inr response, g') \<Rightarrow> (response, g')
      | (Inl e, g') \<Rightarrow> (internal_server_error, g'))"

text \<open>A sequence of requests, one after the other.\<close>

fun handle_requests ::
  "('r, 'b, 'd) env \<Rightarrow> (readings \<times> request) list \<Rightarrow> ('r, 'b, 'd) gateway \<Rightarrow>
   response list \<times> ('r, 'b, 'd) gateway" where
  "handle_requests E [] g = ([], g)"
| "handle_requests E ((rd, request) # rqs) g =
     (case handle_request E rd request g of
        (response, g') \<Rightarrow>
          (case handle_requests E rqs g' of (responses, h) \<Rightarrow> (response # responses, h)))"

lemma tagged_is_no_500: "set_header n v r \<noteq> internal_server_error"
proof
  assume "set_header n v r = internal_server_error"
  then have "rs_headers (set_header n v r) = []" by (simp add: internal_server_error_def)
  moreover have "header_put x v hs \<noteq> []" for x hs by (induction x v hs rule: header_put.induct) auto
  ultimately show False by (simp add: set_header_def)
qed

section \<open>Every answer is tagged and counted\<close>

lemma chain_answer:
  assumes "chain E rd request g = (Inr r, g')"
  shows "map_of (rs_headers r) ''x-request-id'' = Some (rd_uuid rd) \<and>
         (\<exists>ms. gw_metrics g' = ms @ [RequestDuration (rd_duration rd),
             RequestsTotal (show_int (status_code r)) (url_path request)])"
proof -
  have u: "py_lower ''X-Request-ID'' = ''x-request-id''" by code_simp
  show ?thesis
    using assms unfolding chain_def request_id_dispatch_def
    by (auto simp: bind_eq_Inr set_state_run observe_run ret_def set_header_def map_of_header_put u)
qed

section \<open>Authentication comes first\<close>

text \<open>
  The chain behind the authentication, and what the authentication does when no word of the header
  is a token the library accepts.
\<close>

definition inner_chain :: "('r, 'b, 'd) env \<Rightarrow> readings \<Rightarrow> request \<Rightarrow> ('r, 'b, 'd) app" where
  "inner_chain E rd request =
     bloom_filter_dispatch E request
       (rate_limit_dispatch E rd request
         (abuse_detector_dispatch E rd
           (shadow_mode_dispatch E rd request (handle_exceptions (route E rd request)))))"

lemma bearer_token_item:
  assumes "py_startswith h ''Bearer ''"
  shows "\<exists>t. list_item (py_split_sep (CHR '' '') h) 1 = Inr t \<and> t \<in> set (py_split_sep (CHR '' '') h)"
proof -
  obtain r where h: "h = ''Bearer'' @ CHR '' '' # r" using assms by (auto simp: py_startswith_iff)
  have "py_split_sep (CHR '' '') h = ''Bearer'' # py_split_sep (CHR '' '') r"
    unfolding h by (rule py_split_sep_append) simp
  moreover obtain t ts where "py_split_sep (CHR '' '') r = t # ts"
    by (cases "py_split_sep (CHR '' '') r") (auto simp: py_split_sep_def)
  ultimately show ?thesis by (simp add: list_item_def)
qed

lemma auth_rejects:
  assumes J: "jwt_contract (e_jwt E)" and p: "url_path request \<notin> set public_paths"
    and bad: "\<And>t. t \<in> set (py_split_sep (CHR '' '') (header_get request ''Authorization'' [])) \<Longrightarrow>
        \<forall>cl. jwt_decode (e_jwt E) t (secret_key (e_settings E)) (rd_auth_s rd) \<noteq> Inr cl"
  shows "\<exists>m. auth_dispatch E rd request next g = (Inr (not_authenticated m), g)"
proof (cases "py_startswith (header_get request ''Authorization'' []) ''Bearer ''")
  case True
  then obtain t where t: "list_item (py_split_sep (CHR '' '') (header_get request ''Authorization'' [])) 1 = Inr t"
    "t \<in> set (py_split_sep (CHR '' '') (header_get request ''Authorization'' []))"
    using bearer_token_item by blast
  obtain e where e: "jwt_decode (e_jwt E) t (secret_key (e_settings E)) (rd_auth_s rd) = Inl e"
    using bad [OF t(2)] by (cases "jwt_decode (e_jwt E) t (secret_key (e_settings E)) (rd_auth_s rd)") auto
  then have "e = JWTError" by (rule jwt_contract.error_law [OF J])
  then show ?thesis
    using p True t(1) e
    by (auto simp: auth_dispatch_def Let_def bind_def lift_result_def decode_access_token_def ret_def)
qed (use p in \<open>auto simp: auth_dispatch_def Let_def ret_def\<close>)

lemma auth_cases:
  assumes J: "jwt_contract (e_jwt E)"
  shows "(\<exists>m. auth_dispatch E rd request next g = (Inr (not_authenticated m), g)) \<or>
         (\<exists>c. auth_dispatch E rd request next g =
            next (g\<lparr>gw_state := (gw_state g)\<lparr>st_client_id := Some c\<rparr>\<rparr>))"
proof (cases "url_path request \<in> set public_paths")
  case True
  then show ?thesis by (auto simp: auth_dispatch_def bind_def set_state_run)
next
  case False
  show ?thesis
  proof (cases "py_startswith (header_get request ''Authorization'' []) ''Bearer ''")
    case True
    then obtain t where t: "list_item (py_split_sep (CHR '' '') (header_get request ''Authorization'' [])) 1 = Inr t"
      using bearer_token_item by blast
    obtain v where "decode_access_token (e_jwt E) (e_settings E) (rd_auth_s rd) t = Inr v"
      using jwt_contract.decode_total [OF J] by blast
    then show ?thesis
      using False True t
      by (cases v) (auto simp: auth_dispatch_def Let_def bind_def lift_result_def ret_def set_state_run)
  qed (use False in \<open>auto simp: auth_dispatch_def Let_def ret_def\<close>)
qed

lemma handle_request_inner:
  "handle_request E rd request g =
     (case auth_dispatch E rd request (inner_chain E rd request)
             (g\<lparr>gw_state := fresh_state\<lparr>st_request_id := Some (rd_uuid rd)\<rparr>\<rparr>) of
        (Inr r, h) \<Rightarrow>
          (set_header ''X-Request-ID'' (rd_uuid rd) r,
           h\<lparr>gw_metrics := gw_metrics h @ [RequestDuration (rd_duration rd),
              RequestsTotal (show_int (status_code r)) (url_path request)]\<rparr>)
      | (Inl e, h) \<Rightarrow> (internal_server_error, h))"
  by (auto simp: handle_request_def chain_def request_id_dispatch_def inner_chain_def bind_def
      set_state_run observe_run ret_def split: prod.splits sum.splits)

lemma status_not_authenticated [simp]: "status_code (not_authenticated m) = 401"
  by (simp add: not_authenticated_def json_response_def)

lemma status_set_header [simp]: "status_code (set_header n v r) = status_code r"
  by (simp add: set_header_def)

lemma bloom_blocks_ip:
  assumes "might_contain_ip (e_bloom E) (bloom (gw_node g)) (attr_or (rq_client request) ''unknown'')"
  shows "bloom_filter_dispatch E request next g =
    (Inr (json_response 403 (detail ''Access denied - known bad IP'') []),
     g\<lparr>gw_metrics := gw_metrics g @ [BloomFilterHits ''ip'']\<rparr>)"
  using assms by (simp add: bloom_filter_dispatch_def Let_def bind_def get_bloom_run observe_run ret_def)

lemma blocked_ip_answer:
  assumes J: "jwt_contract (e_jwt E)"
    and "might_contain_ip (e_bloom E) (bloom (gw_node g)) (attr_or (rq_client request) ''unknown'')"
    and "handle_request E rd request g = (r, g')"
  shows "status_code r \<in> {401, 403} \<and> gw_node g' = gw_node g \<and> gw_users g' = gw_users g"
proof -
  let ?g = "g\<lparr>gw_state := fresh_state\<lparr>st_request_id := Some (rd_uuid rd)\<rparr>\<rparr>"
  from auth_cases [OF J, of rd request "inner_chain E rd request" ?g] show ?thesis
  proof (elim disjE exE)
    fix m assume "auth_dispatch E rd request (inner_chain E rd request) ?g = (Inr (not_authenticated m), ?g)"
    then show ?thesis using assms(3) by (auto simp: handle_request_inner)
  next
    fix c assume "auth_dispatch E rd request (inner_chain E rd request) ?g =
      inner_chain E rd request (?g\<lparr>gw_state := (gw_state ?g)\<lparr>st_client_id := Some c\<rparr>\<rparr>)"
    then show ?thesis
      using assms(2,3) by (auto simp: handle_request_inner inner_chain_def bloom_blocks_ip json_response_def)
  qed
qed

section \<open>The two readers of the token\<close>

text \<open>What \<open>require_admin\<close> makes of a token.\<close>

definition admin_of_token :: "('r, 'b, 'd) env \<Rightarrow> readings \<Rightarrow> string \<Rightarrow> exn + string" where
  "admin_of_token E rd token =
     (case decode_access_token (e_jwt E) (e_settings E) (rd_admin_s rd) token of
        Inl e \<Rightarrow> Inl e
      | Inr None \<Rightarrow>
          Inl (HTTPException PlainHTTP 401 ''Invalid or expired token'' [(''WWW-Authenticate'', ''Bearer'')])
      | Inr (Some cl) \<Rightarrow>
          (if claim_text ''role'' ''user'' cl = ''admin'' then Inr (claim_text ''sub'' [] cl)
           else Inl (HTTPException PlainHTTP 403 ''Admin access required'' [])))"

lemma py_lower_bearer: "py_lower ''Bearer'' = ''bearer''"
  by code_simp

lemma space_is_space: "is_space (CHR '' '')" "\<forall>c \<in> set ''Bearer''. \<not> is_space c"
  by (simp_all add: is_space_def)

text \<open>
  A header \<open>Bearer t ...\<close> as \<open>split(" ")\<close> and \<open>split()\<close> see it: if the second piece of the first is a
  word, it is also the second word.
\<close>

lemma bearer_words:
  assumes "py_startswith h ''Bearer ''" and "list_item (py_split_sep (CHR '' '') h) 1 = Inr token"
    and "token \<noteq> []" and "list_all token_char token"
  obtains ws where "py_split_ws h = ''Bearer'' # token # ws"
proof -
  obtain r where h: "h = ''Bearer'' @ CHR '' '' # r" using assms(1) by (auto simp: py_startswith_iff)
  have "py_split_sep (CHR '' '') h = ''Bearer'' # py_split_sep (CHR '' '') r"
    unfolding h by (rule py_split_sep_append) simp
  then obtain ps where p: "split_by (\<lambda>x. x = CHR '' '') r = token # ps"
    using assms(2) by (cases "py_split_sep (CHR '' '') r") (auto simp: list_item_def py_split_sep_def)
  have no: "\<not> is_space c" if "c \<in> set token" for c
    using assms(4) that by (auto simp: list_all_iff token_char_def)
  have "\<exists>ws. split_by is_space r = token # ws"
  proof (cases "CHR '' '' \<in> set r")
    case True
    then obtain a b where r: "r = a @ CHR '' '' # b" "CHR '' '' \<notin> set a" using split_list_first by metis
    have "split_by (\<lambda>x. x = CHR '' '') r = a # split_by (\<lambda>x. x = CHR '' '') b"
      unfolding r(1) by (rule split_by_append_sep) (use r(2) in auto)
    then have "a = token" using p by simp
    have "split_by is_space (token @ CHR '' '' # b) = token # split_by is_space b"
      by (rule split_by_append_sep) (use no space_is_space(1) in auto)
    then show ?thesis using \<open>a = token\<close> r(1) by auto
  next
    case False
    then have "split_by (\<lambda>x. x = CHR '' '') r = [r]" by (intro split_by_no_sep) auto
    then have "r = token" using p by simp
    then show ?thesis using split_by_no_sep [of token is_space] no by auto
  qed
  then obtain ws where "split_by is_space r = token # ws" by blast
  moreover have "split_by is_space h = ''Bearer'' # split_by is_space r"
    unfolding h by (rule split_by_append_sep) (use space_is_space in auto)
  ultimately have "py_split_ws h = ''Bearer'' # token # filter (\<lambda>w. w \<noteq> []) ws"
    using assms(3) by (simp add: py_split_ws_def)
  then show thesis by (rule that)
qed

lemma admin_words:
  "py_split_ws (header_get request ''Authorization'' []) = ''Bearer'' # token # ws \<Longrightarrow>
   require_admin E rd request =
     (if ws = [] then admin_of_token E rd token
      else Inl (HTTPException PlainHTTP 401 ''Not authenticated'' [(''WWW-Authenticate'', ''Bearer'')]))"
  by (cases ws) (simp_all add: require_admin_def Let_def admin_of_token_def py_lower_bearer
      split: sum.splits option.splits)

lemma bearer_item:
  assumes "header_get request ''Authorization'' [] = ''Bearer '' @ token" and "list_all token_char token"
  shows "list_item (py_split_sep (CHR '' '') (header_get request ''Authorization'' [])) 1 = Inr token"
    and "py_startswith (header_get request ''Authorization'' []) ''Bearer ''"
proof -
  have "CHR '' '' \<notin> set token" using assms(2) space_is_space(1) by (auto simp: list_all_iff token_char_def)
  then have "py_split_sep (CHR '' '') (''Bearer'' @ CHR '' '' # token) = [''Bearer'', token]"
    using py_split_sep_append [of "CHR '' ''" "''Bearer''" token] by (simp add: py_split_sep_absent)
  then show "list_item (py_split_sep (CHR '' '') (header_get request ''Authorization'' [])) 1 = Inr token"
    using assms(1) by (simp add: list_item_def)
  show "py_startswith (header_get request ''Authorization'' []) ''Bearer ''"
    using assms(1) by (auto simp: py_startswith_iff)
qed

lemma canonical_admin:
  assumes h: "header_get request ''Authorization'' [] = ''Bearer '' @ token" and "token \<noteq> []" and "list_all token_char token"
  shows "require_admin E rd request = admin_of_token E rd token"
proof -
  obtain ws where ws: "py_split_ws (header_get request ''Authorization'' []) = ''Bearer'' # token # ws"
    using bearer_words [OF bearer_item(2,1) [OF h assms(3)] assms(2,3)] by blast
  have "split_by is_space (''Bearer'' @ CHR '' '' # token) = ''Bearer'' # split_by is_space token"
    by (rule split_by_append_sep) (use space_is_space in auto)
  moreover have "split_by is_space token = [token]"
    using assms(3) by (intro split_by_no_sep) (auto simp: list_all_iff token_char_def)
  ultimately have "ws = []" using ws h assms(2) by (simp add: py_split_ws_def)
  then show ?thesis using admin_words [OF ws] by simp
qed

lemma auth_passes:
  assumes "url_path request \<notin> set public_paths" and "header_get request ''Authorization'' [] = ''Bearer '' @ token"
    and "list_all token_char token"
    and "decode_access_token (e_jwt E) (e_settings E) (rd_auth_s rd) token = Inr (Some cl)"
    and "claim_text ''sub'' ''unknown'' cl = c"
  shows "auth_dispatch E rd request next g = next (g\<lparr>gw_state := (gw_state g)\<lparr>st_client_id := Some c\<rparr>\<rparr>)"
  using assms(1,4,5) bearer_item [OF assms(2,3)]
  by (simp add: auth_dispatch_def Let_def bind_def lift_result_def set_state_run)

section \<open>The way through\<close>

text \<open>
  One pass through the chain behind the authentication, from what the services answer on the way:
  a request the limiter accepts, with a verdict that is allowed or comes under shadow mode.
\<close>

definition seen :: "request \<Rightarrow> request_state \<Rightarrow> request_state" where
  "seen request st = st\<lparr>st_client_ip := Some (attr_or (rq_client request) ''unknown''),
     st_user_agent := Some (header_get request ''User-Agent'' [])\<rparr>"

definition unlisted :: "('r, 'b, 'd) env \<Rightarrow> request \<Rightarrow> 'b bloom_service \<Rightarrow> bool" where
  "unlisted E request b \<longleftrightarrow>
     \<not> might_contain_ip (e_bloom E) b (attr_or (rq_client request) ''unknown'') \<and>
     (header_get request ''User-Agent'' [] = [] \<or>
      \<not> might_contain_agent (e_bloom E) b (header_get request ''User-Agent'' []))"

definition with_store :: "'r \<Rightarrow> ('r, 'b, 'd) gateway \<Rightarrow> ('r, 'b, 'd) gateway" where
  "with_store a g = g\<lparr>gw_node := (gw_node g)\<lparr>store := a\<rparr>\<rparr>"

lemma with_store_sel [simp]:
  "store (gw_node (with_store a g)) = a" "bloom (gw_node (with_store a g)) = bloom (gw_node g)"
  "gw_users (with_store a g) = gw_users g" "gw_metrics (with_store a g) = gw_metrics g"
  "gw_state (with_store a g) = gw_state g"
  by (simp_all add: with_store_def)

lemma on_redis_eq: "m (store (gw_node g)) = (r, a) \<Longrightarrow> on_redis m g = (r, with_store a g)"
  by (simp add: on_redis_run with_store_def)

lemma bloom_passes:
  assumes "unlisted E request (bloom (gw_node g))"
  shows "bloom_filter_dispatch E request next g = next (g\<lparr>gw_state := seen request (gw_state g)\<rparr>)"
  using assms
  by (auto simp: unlisted_def bloom_filter_dispatch_def Let_def bind_def get_bloom_run set_state_run seen_def)

lemma rate_passes:
  assumes "url_path request \<notin> set excluded_paths"
    and "check_rate_limit (e_redis E) (rd_rate_ms rd) (attr_or (st_client_id (gw_state g)) (attr_or (rq_client request) ''127.0.0.1''))
           (rate_limit_requests (e_settings E)) (rate_limit_window_seconds (e_settings E)) (store (gw_node g)) =
         (Inr (True, n), a)"
  shows "rate_limit_dispatch E rd request next g =
    bind next (\<lambda>r. ret (set_header ''X-RateLimit-Remaining'' (show_int n) r)) (with_store a g)"
  using assms by (simp add: rate_limit_dispatch_def Let_def bind_def [of get_state] bind_def [of "on_redis m" for m] get_state_run on_redis_eq)

lemma rate_rejects:
  assumes "url_path request \<notin> set excluded_paths"
    and "check_rate_limit (e_redis E) (rd_rate_ms rd) (attr_or (st_client_id (gw_state g)) (attr_or (rq_client request) ''127.0.0.1''))
           (rate_limit_requests (e_settings E)) (rate_limit_window_seconds (e_settings E)) (store (gw_node g)) =
         (Inr (False, n), a)"
  shows "rate_limit_dispatch E rd request next g =
    (Inr (json_response 429 (detail ''Rate limit exceeded - please retry after the indicated period'')
            [(''Retry-After'', show_int (rate_limit_window_seconds (e_settings E)))]),
     (with_store a g)\<lparr>gw_metrics := gw_metrics g @
        [RateLimitRejections (attr_or (st_client_id (gw_state g)) (attr_or (rq_client request) ''127.0.0.1''))]\<rparr>)"
  using assms
  by (simp add: rate_limit_dispatch_def Let_def bind_def get_state_run on_redis_eq observe_run
      rate_limit_exceeded_error_def ret_def)

lemma abuse_allows:
  assumes "abuse_verdict (e_redis E) (e_settings E) (rd_timing_ms rd) (attr_or (st_client_ip (gw_state g)) ''unknown'')
      (attr_or (st_client_id (gw_state g)) ''anonymous'') (store (gw_node g)) = (Inr ((ALLOWED, w), flag), a)"
  shows "abuse_detector_dispatch E rd next g = next (with_store a g)"
  using assms by (simp add: abuse_detector_dispatch_def Let_def bind_def get_state_run on_redis_eq enforce_def)

lemma abuse_shadowed:
  assumes "abuse_verdict (e_redis E) (e_settings E) (rd_timing_ms rd) (attr_or (st_client_ip (gw_state g)) ''unknown'')
      (attr_or (st_client_id (gw_state g)) ''anonymous'') (store (gw_node g)) = (Inr ((v, w), True), a)"
    and "v \<noteq> ALLOWED"
  shows "abuse_detector_dispatch E rd next g =
    next ((with_store a g)\<lparr>gw_metrics := gw_metrics g @ [AbuseDetections (state_value v) (reason_type w)],
      gw_state := (gw_state g)\<lparr>st_shadow_rule := Some (''abuse_detector:'' @ state_value v),
                               st_shadow_reason := Some w\<rparr>\<rparr>)"
  using assms
  by (simp add: abuse_detector_dispatch_def Let_def bind_def get_state_run on_redis_eq observe_run set_state_run)

lemma abuse_soft_blocks:
  assumes "abuse_verdict (e_redis E) (e_settings E) (rd_timing_ms rd) (attr_or (st_client_ip (gw_state g)) ''unknown'')
      (attr_or (st_client_id (gw_state g)) ''anonymous'') (store (gw_node g)) = (Inr ((SOFT_BLOCK, w), False), a)"
  shows "abuse_detector_dispatch E rd next g =
    (Inr (json_response 429 (detail ''Too many requests - temporary block applied'')
            [(''Retry-After'', show_int soft_block_ttl)]),
     (with_store a g)\<lparr>gw_metrics := gw_metrics g @ [AbuseDetections ''soft_block'' (reason_type w)]\<rparr>)"
  using assms
  by (simp add: abuse_detector_dispatch_def Let_def bind_def get_state_run on_redis_eq enforce_def observe_run ret_def)

lemma shadow_returns:
  assumes "next g = (Inr r, h)"
    and "is_shadow_mode_enabled (e_redis E) (shadow_mode_enabled (e_settings E)) (store (gw_node h)) = (Inr flag, a)"
    and "flag \<longrightarrow> attr_or (st_shadow_rule (gw_state h)) [] = []"
  shows "shadow_mode_dispatch E rd request next g = (Inr r, with_store a h)"
  using assms by (auto simp: shadow_mode_dispatch_def Let_def bind_def on_redis_eq get_state_run ret_def)

lemma inner_chain_pass:
  assumes "unlisted E request (bloom (gw_node g))" and "url_path request \<notin> set excluded_paths"
    and "check_rate_limit (e_redis E) (rd_rate_ms rd) (attr_or (st_client_id (gw_state g)) (attr_or (rq_client request) ''127.0.0.1''))
           (rate_limit_requests (e_settings E)) (rate_limit_window_seconds (e_settings E)) (store (gw_node g)) =
         (Inr (True, n), a)"
    and "abuse_verdict (e_redis E) (e_settings E) (rd_timing_ms rd) (attr_or (rq_client request) ''unknown'') (attr_or (st_client_id (gw_state g)) ''anonymous'') a =
         (Inr ((ALLOWED, w), flag), b)"
    and "handle_exceptions (route E rd request)
          (with_store b (g\<lparr>gw_state := seen request (gw_state g)\<rparr>)) = (Inr r, h)"
    and "is_shadow_mode_enabled (e_redis E) (shadow_mode_enabled (e_settings E)) (store (gw_node h)) = (Inr flag', c)"
    and "flag' \<longrightarrow> attr_or (st_shadow_rule (gw_state h)) [] = []"
  shows "inner_chain E rd request g =
    (Inr (set_header ''X-RateLimit-Remaining'' (show_int n) r), with_store c h)"
proof -
  let ?g = "g\<lparr>gw_state := seen request (gw_state g)\<rparr>"
  have s: "st_client_id (seen request st) = st_client_id st" "st_client_ip (seen request st) = Some (attr_or (rq_client request) ''unknown'')"
    for st by (simp_all add: seen_def)
  have twice: "with_store y (with_store x k) = with_store y k" for x y and k :: "('a, 'b, 'c) gateway"
    by (simp add: with_store_def)
  have "abuse_detector_dispatch E rd (shadow_mode_dispatch E rd request (handle_exceptions (route E rd request)))
      (with_store a ?g) = (Inr r, with_store c h)"
    by (subst abuse_allows) (use assms(4) in \<open>simp add: s\<close>,
        use assms(5-7) in \<open>simp add: twice shadow_returns\<close>)
  then have "rate_limit_dispatch E rd request (abuse_detector_dispatch E rd
      (shadow_mode_dispatch E rd request (handle_exceptions (route E rd request)))) ?g =
      (Inr (set_header ''X-RateLimit-Remaining'' (show_int n) r), with_store c h)"
    by (subst rate_passes [OF assms(2)]) (use assms(3) in \<open>simp add: s\<close>, simp add: bind_run_Inr ret_def)
  then show ?thesis by (simp add: inner_chain_def bloom_passes [OF assms(1)])
qed

end
