(* ===== verification/Frames.thy ===== *)
theory Frames
  imports Gateway
begin

text \<open>
  Two rules of inference for a whole request: \<open>safe X P m\<close> says that \<open>m\<close> preserves \<open>P\<close> whether it returns
  or raises, and raises only exceptions in \<open>X\<close>; \<open>keeps P m\<close> says the former alone; \<open>hoare P m Q\<close> that what
  \<open>m\<close> returns from a state with \<open>P\<close> satisfies \<open>Q\<close>. They compose along the monad, and \<open>abuse_keeps\<close>,
  \<open>auth_keeps\<close>, \<open>route_keeps\<close>, \<open>chain_answers\<close> lift them from a handler to the middleware chain.
\<close>

named_theorems keeps_intros "what preserves a predicate of the state"

definition safe :: "exn set \<Rightarrow> ('s \<Rightarrow> bool) \<Rightarrow> ('s, 'a) io \<Rightarrow> bool" where
  "safe X P m \<longleftrightarrow> (\<forall>s r s'. P s \<longrightarrow> m s = (r, s') \<longrightarrow> P s' \<and> (\<forall>e. r = Inl e \<longrightarrow> e \<in> X))"

abbreviation keeps :: "('s \<Rightarrow> bool) \<Rightarrow> ('s, 'a) io \<Rightarrow> bool" where
  "keeps P m \<equiv> safe UNIV P m"

definition hoare :: "('s \<Rightarrow> bool) \<Rightarrow> ('s, 'a) io \<Rightarrow> ('a \<Rightarrow> 's \<Rightarrow> bool) \<Rightarrow> bool" where
  "hoare P m Q \<longleftrightarrow> (\<forall>s x s'. P s \<longrightarrow> m s = (Inr x, s') \<longrightarrow> Q x s')"

lemma safeI:
  "(\<And>s r s'. P s \<Longrightarrow> m s = (r, s') \<Longrightarrow> P s') \<Longrightarrow> (\<And>s e s'. P s \<Longrightarrow> m s = (Inl e, s') \<Longrightarrow> e \<in> X) \<Longrightarrow> safe X P m"
  unfolding safe_def by blast

lemma safeD: "safe X P m \<Longrightarrow> m s = (r, s') \<Longrightarrow> P s \<Longrightarrow> P s'"
  unfolding safe_def by blast

lemma safe_raises: "safe X P m \<Longrightarrow> m s = (Inl e, s') \<Longrightarrow> P s \<Longrightarrow> e \<in> X"
  unfolding safe_def by blast

lemma safe_mono: "safe X P m \<Longrightarrow> X \<subseteq> Y \<Longrightarrow> safe Y P m"
  unfolding safe_def by blast

lemma keepsI: "(\<And>s r s'. P s \<Longrightarrow> m s = (r, s') \<Longrightarrow> P s') \<Longrightarrow> keeps P m"
  by (simp add: safe_def)

lemmas keepsD = safeD [where X = UNIV]

lemma hoareD: "hoare P m Q \<Longrightarrow> m s = (Inr x, s') \<Longrightarrow> P s \<Longrightarrow> Q x s'"
  by (auto simp: hoare_def)

lemma keeps_ret [keeps_intros]: "safe X P (ret x)"
  by (simp add: safe_def ret_def)

lemma keeps_raise [keeps_intros]: "e \<in> X \<Longrightarrow> safe X P (raise_exn e)"
  by (simp add: safe_def raise_exn_def)

lemma keeps_lift_result [keeps_intros]: "(\<And>e. r = Inl e \<Longrightarrow> e \<in> X) \<Longrightarrow> safe X P (lift_result r)"
  by (simp add: safe_def lift_result_def)

lemma keeps_gets [keeps_intros]: "safe X P (gets f)"
  by (simp add: safe_def gets_def)

declare UNIV_I [keeps_intros]

lemma keeps_bind [keeps_intros]:
  assumes m: "safe X P m" and f: "\<And>x. safe X P (f x)"
  shows "safe X P (bind m f)"
  unfolding safe_def
proof (intro allI impI)
  fix s r s' assume s: "P s" and run: "bind m f s = (r, s')"
  obtain q t where q: "m s = (q, t)" by fastforce
  have "P t" by (rule safeD [OF m q s])
  then show "P s' \<and> (\<forall>e. r = Inl e \<longrightarrow> e \<in> X)"
    using s run q safeD [OF f] safe_raises [OF f] safe_raises [OF m] by (cases q) (auto simp: bind_def)
qed

lemma safe_try:
  assumes m: "safe Y P m" and h: "\<And>e. e \<in> Y \<Longrightarrow> safe X P (h e)"
  shows "safe X P (try_except m h)"
  unfolding safe_def
proof (intro allI impI)
  fix s r s' assume s: "P s" and run: "try_except m h s = (r, s')"
  obtain q t where q: "m s = (q, t)" by fastforce
  have t: "P t" by (rule safeD [OF m q s])
  show "P s' \<and> (\<forall>e. r = Inl e \<longrightarrow> e \<in> X)"
  proof (cases q)
    case (Inl e)
    then have "e \<in> Y" using safe_raises [OF m] q s by blast
    from h [OF this] show ?thesis using run q Inl t by (auto simp: try_except_def dest: safeD safe_raises)
  qed (use run q t in \<open>auto simp: try_except_def\<close>)
qed

lemma keeps_try [keeps_intros]:
  "keeps P m \<Longrightarrow> (\<And>e. safe X P (h e)) \<Longrightarrow> safe X P (try_except m h)"
  by (rule safe_try)

lemma keeps_discard [keeps_intros]: "safe X P m \<Longrightarrow> safe X P (discard m)"
  unfolding discard_def by (intro keeps_intros)

lemma keeps_if [keeps_intros]:
  "(b \<Longrightarrow> safe X P m) \<Longrightarrow> (\<not> b \<Longrightarrow> safe X P n) \<Longrightarrow> safe X P (if b then m else n)"
  by simp

lemma keeps_option [keeps_intros]:
  "safe X P m \<Longrightarrow> (\<And>x. safe X P (f x)) \<Longrightarrow> safe X P (case v of None \<Rightarrow> m | Some x \<Rightarrow> f x)"
  by (cases v) auto

lemma keeps_prod [keeps_intros]:
  "(\<And>x y. safe X P (f x y)) \<Longrightarrow> safe X P (case v of (x, y) \<Rightarrow> f x y)"
  by (cases v) auto

lemma keeps_prod_app [keeps_intros]:
  "(\<And>x y. safe X P (f x y z)) \<Longrightarrow> safe X P ((case v of (x, y) \<Rightarrow> f x y) z)"
  by (cases v) auto

lemma keeps_pipe:
  assumes "\<And>c. c \<in> set cs \<Longrightarrow> keeps P c"
  shows "keeps P (pipe_execute cs)"
proof (rule keepsI)
  have run: "P s \<Longrightarrow> run_all cs s = (rs, t) \<Longrightarrow> P t" for s rs t
    using assms
  proof (induction cs arbitrary: s rs)
    case (Cons c cs)
    obtain r s' where c: "c s = (r, s')" by fastforce
    then have "P s'" using Cons.prems(1,3) by (auto dest: keepsD)
    then show ?case using Cons c by (auto split: prod.splits)
  qed simp
  show "P s \<Longrightarrow> pipe_execute cs s = (r, s') \<Longrightarrow> P s'" for s r s'
    using run by (auto simp: pipe_execute_def split: prod.splits)
qed

lemma keeps_for_io [keeps_intros]:
  "(\<And>x. safe X P (body x)) \<Longrightarrow> safe X P (for_io xs body)"
  by (induction xs) (auto intro: keeps_intros)

lemma keeps_zoom:
  "(\<And>s. P s \<Longrightarrow> P' (g s)) \<Longrightarrow> (\<And>s a. P s \<Longrightarrow> P' a \<Longrightarrow> P (p a s)) \<Longrightarrow> safe X P' m \<Longrightarrow>
   safe X P (zoom g p m)"
  unfolding safe_def zoom_def by (fastforce split: prod.splits)

text \<open>What holds of the specification's state holds of the view.\<close>

lemma keeps_sim:
  assumes m: "simulates view m n" and n: "safe X P n"
  shows "safe X (\<lambda>s. P (view s)) m"
  by (rule safeI) (use safeD [OF n simulatesD [OF m]] safe_raises [OF n simulatesD [OF m]] in blast)+

lemma keeps_conj: "keeps P m \<Longrightarrow> keeps Q m \<Longrightarrow> keeps (\<lambda>s. P s \<and> Q s) m"
  by (auto simp: safe_def)

section \<open>From a handler to the chain\<close>

text \<open>The two metrics that the outermost middleware records.\<close>

fun request_metric :: "metric \<Rightarrow> bool" where
  "request_metric (RequestDuration d) = True"
| "request_metric (RequestsTotal code path) = True"
| "request_metric m = False"

text \<open>The part of the chain behind the limiter, then the whole of it.\<close>

definition handled :: "exn set" where
  "handled = {e. exception_response e \<noteq> None}"

lemma http_handled [simp]: "HTTPException c code m hs \<in> handled"
  by (simp add: handled_def)

lemma http_in: "handled \<subseteq> X \<Longrightarrow> HTTPException c code m hs \<in> X"
  using http_handled by blast

lemma handle_exceptions_keeps:
  assumes "safe Y P m" and "Y \<subseteq> X \<union> handled"
  shows "safe X P (handle_exceptions m)"
  unfolding handle_exceptions_def
proof (rule safe_try [OF assms(1)])
  fix e assume "e \<in> Y"
  then show "safe X P (case exception_response e of Some response \<Rightarrow> ret response | None \<Rightarrow> raise_exn e)"
    using assms(2) by (cases "exception_response e") (auto simp: handled_def intro!: keeps_intros)
qed

lemma abuse_keeps:
  assumes obs: "\<And>m. \<not> request_metric m \<Longrightarrow> safe X P (observe m)" and st: "\<And>f. safe X P (set_state f)"
    and redis: "\<And>ip c. safe X P (on_redis (abuse_verdict (e_redis E) (e_settings E) (rd_timing_ms rd) ip c))"
      "safe X P (on_redis (apply_throttle (sleep_on E)))"
      "safe X P (on_redis (is_shadow_mode_enabled (e_redis E) (shadow_mode_enabled (e_settings E))))"
      "\<And>i rule c p why. safe X P (on_redis (log_shadow_event (e_redis E) (rd_shadow_s rd) i rule c p why))"
    and route: "safe Y P (route E rd request)" and Y: "Y \<subseteq> X \<union> handled"
  shows "safe X P (abuse_detector_dispatch E rd
      (shadow_mode_dispatch E rd request (handle_exceptions (route E rd request))))"
proof -
  have obs': "safe X P (observe (AbuseDetections a w))" for a w by (rule obs) simp
  note base = obs' st redis keeps_gets
  have "safe X P (handle_exceptions (route E rd request))"
    by (rule handle_exceptions_keeps [OF route Y])
  then have "safe X P (shadow_mode_dispatch E rd request (handle_exceptions (route E rd request)))" (is "safe X P ?m1")
    unfolding shadow_mode_dispatch_def get_state_def Let_def by (intro keeps_intros base)
  then show ?thesis
    unfolding abuse_detector_dispatch_def enforce_def get_state_def Let_def by (intro keeps_intros base)
qed

lemma auth_keeps:
  assumes obs: "\<And>m. \<not> request_metric m \<Longrightarrow> safe X P (observe m)" and st: "\<And>f. safe X P (set_state f)"
    and limiter: "\<And>c. safe X P (on_redis (check_rate_limit (e_redis E) (rd_rate_ms rd) c
        (rate_limit_requests (e_settings E)) (rate_limit_window_seconds (e_settings E))))"
    and behind: "safe X P (abuse_detector_dispatch E rd
      (shadow_mode_dispatch E rd request (handle_exceptions (route E rd request))))" (is "safe X P ?m2")
    and token: "\<And>t e. decode_access_token (e_jwt E) (e_settings E) (rd_auth_s rd) t = Inl e \<Longrightarrow> e \<in> X"
  shows "safe X P (auth_dispatch E rd request (inner_chain E rd request))"
proof -
  have obs': "safe X P (observe (BloomFilterHits t))" "safe X P (observe (RateLimitRejections c))" for t c
    by (rule obs, simp)+
  note base = obs' st limiter keeps_gets
  have "safe X P (rate_limit_dispatch E rd request ?m2)" (is "safe X P ?m3")
    unfolding rate_limit_dispatch_def get_state_def Let_def by (intro keeps_intros base behind)
  then have inner: "safe X P (inner_chain E rd request)"
    unfolding inner_chain_def bloom_filter_dispatch_def get_bloom_def Let_def by (intro keeps_intros base)
  have piece: "list_item (py_split_sep (CHR '' '') h) 1 \<noteq> Inl e" if "py_startswith h ''Bearer ''" for h e
    using bearer_token_item [OF that] by auto
  show ?thesis
    unfolding auth_dispatch_def Let_def by (intro keeps_intros base inner token) (use piece in auto)
qed

lemma handle_keeps:
  assumes "keeps P (auth_dispatch E rd request (inner_chain E rd request))"
    and "\<And>g ms. P g \<Longrightarrow> P (g\<lparr>gw_metrics := ms\<rparr>)" and "\<And>g st. P g \<Longrightarrow> P (g\<lparr>gw_state := st\<rparr>)"
    and "P g" and "handle_request E rd request g = (r, g')"
  shows "P g'"
proof -
  obtain r1 h where run: "auth_dispatch E rd request (inner_chain E rd request)
      (g\<lparr>gw_state := fresh_state\<lparr>st_request_id := Some (rd_uuid rd)\<rparr>\<rparr>) = (r1, h)" by fastforce
  then have "P h" using assms(1,3,4) by (blast dest: keepsD)
  then show ?thesis
    using assms(2,5) run by (auto simp: handle_request_inner split: sum.splits)
qed

text \<open>What a handler may do, endpoint by endpoint; the administrative ones only for an administrator.\<close>

lemma keeps_admin_only:
  "(\<And>u. require_admin E rd request = Inr u \<Longrightarrow> safe X P h) \<Longrightarrow>
   (\<And>e. require_admin E rd request = Inl e \<Longrightarrow> e \<in> X) \<Longrightarrow> safe X P (admin_only E rd request h)"
  unfolding admin_only_def
  by (cases "require_admin E rd request") (auto simp: safe_def bind_def lift_result_def)

lemma password_ok_user: "password_ok E u p = Inr True \<Longrightarrow> u \<noteq> None"
  by (cases u) (auto simp: password_ok_def)

lemma login_keeps:
  assumes find: "\<And>n. safe X P (on_users (db_find (e_users E) n))"
    and redis: "\<And>ip n i u. safe X P (on_redis (is_credential_stuffing (e_redis E) ip n i u))"
      "\<And>ip n w. safe X P (on_redis (record_auth_failure (e_redis E) ip n w))"
    and pw: "\<And>u e. password_ok E u p = Inl e \<Longrightarrow> e \<in> X" and http: "handled \<subseteq> X"
  shows "safe X P (login E rd request n p)"
proof -
  have check: "safe X P (bind (lift_result (password_ok E u p)) f)"
    if "\<And>ok. password_ok E u p = Inr ok \<Longrightarrow> safe X P (f ok)" for u and f :: "bool \<Rightarrow> ('a, 'b, 'c) app"
    using that pw by (cases "password_ok E u p") (auto simp: safe_def bind_def lift_result_def)
  have user: "safe X P (case u of None \<Rightarrow> raise_exn AttributeError | Some v \<Rightarrow> f v)"
    if "password_ok E u p = Inr True" "\<And>v. safe X P (f v)" for u and f :: "user \<Rightarrow> ('a, 'b, 'c) app"
    using password_ok_user [OF that(1)] that(2) by (cases u) auto
  have "HTTPException c code m hs \<in> X" for c code m hs using http http_handled by blast
  then show ?thesis
    unfolding login_def Let_def by (intro keeps_intros find redis check user) auto
qed

lemma register_keeps:
  assumes find: "\<And>n. safe X P (on_users (db_find (e_users E) n))"
    and add: "\<And>u. u_role u = role_value USER \<Longrightarrow> u_is_active u \<Longrightarrow> safe X P (on_users (db_add (e_users E) u))"
    and hash: "\<And>e. hash_password (e_bcrypt E) (rd_salt rd) p = Inl e \<Longrightarrow> e \<in> X" and http: "handled \<subseteq> X"
  shows "safe X P (register E rd n m p)"
  unfolding register_def Let_def by (intro keeps_intros find add hash http_in [OF http]) simp_all

lemma route_keeps:
  assumes register: "\<And>n m p. rq_endpoint request = Register n m p \<Longrightarrow> safe X P (register E rd n m p)"
    and login: "\<And>n p. rq_endpoint request = Login n p \<Longrightarrow> safe X P (login E rd request n p)"
    and admin: "\<And>e. require_admin E rd request = Inl e \<Longrightarrow> e \<in> X"
    and ping: "keeps P (on_redis (r_ping (e_redis E)))"
    and gauges: "\<And>n. safe X P (observe (DbPoolCheckedout n))" "\<And>n. safe X P (observe (DbPoolOverflow n))"
    and stats: "safe X P (on_redis (get_shadow_stats (e_redis E)))"
    and soft: "\<And>ip. safe X P (on_redis (apply_soft_block (e_redis E) ip soft_block_ttl))"
      "\<And>ip. safe X P (on_redis (remove_soft_block (e_redis E) ip))"
      "\<And>ip. safe X P (on_redis (get_client_state (e_redis E) ip))"
    and toggle: "\<And>v. safe X P (on_redis (r_set (e_redis E) ''config:shadow_mode_enabled'' v None))"
    and hard: "\<And>ip u. rq_endpoint request = BlockIp ip \<Longrightarrow> require_admin E rd request = Inr u \<Longrightarrow>
        safe X P (on_node (add_ip_to_redis (e_bloom E) (e_redis E) ip))"
      "\<And>a u. rq_endpoint request = BlockAgent a \<Longrightarrow> require_admin E rd request = Inr u \<Longrightarrow>
        safe X P (on_node (add_agent_to_redis (e_bloom E) (e_redis E) a))"
  shows "safe X P (route E rd request)"
proof (cases "rq_endpoint request")
  case (Register n m p)
  then show ?thesis
    by (auto simp: route_def intro!: register)
next
  case (Login n p)
  then show ?thesis
    by (auto simp: route_def intro!: login)
next
  case Proxy
  then show ?thesis by (auto simp: route_def proxy_def get_state_def intro!: keeps_intros)
next
  case ShadowStats
  then show ?thesis
    by (auto simp: route_def shadow_stats_def intro!: keeps_admin_only admin keeps_intros stats)
next
  case (BlockIp ip)
  then show ?thesis
    by (auto simp: route_def block_ip_def intro!: keeps_admin_only admin keeps_intros hard)
next
  case (BlockAgent a)
  then show ?thesis
    by (auto simp: route_def block_agent_def intro!: keeps_admin_only admin keeps_intros hard)
next
  case (SoftBlockIp ip)
  then show ?thesis
    by (auto simp: route_def soft_block_ip_def intro!: keeps_admin_only admin keeps_intros soft)
next
  case (RemoveSoftBlock ip)
  then show ?thesis
    by (auto simp: route_def remove_soft_block_ip_def intro!: keeps_admin_only admin keeps_intros soft)
next
  case (BlockStatus ip)
  then show ?thesis
    by (auto simp: route_def block_status_def get_bloom_def intro!: keeps_admin_only admin keeps_intros soft)
next
  case (SetShadowMode b)
  then show ?thesis
    by (auto simp: route_def set_shadow_mode_def intro!: keeps_admin_only admin keeps_intros toggle)
next
  case Health
  then show ?thesis
    by (auto simp: route_def health_def record_pool_stats_def get_bloom_def intro!: keeps_intros ping gauges)
next
  case Metrics
  then show ?thesis by (auto simp: route_def metrics_endpoint_def intro!: keeps_intros)
next
  case DebugConfig
  then show ?thesis by (auto simp: route_def debug_config_def Let_def intro!: keeps_intros)
next
  case (Other p)
  then show ?thesis by (auto simp: route_def intro!: keeps_intros)
qed

text \<open>
  A property of the answers that every refusal has and that later bookkeeping cannot break holds of
  the chain's answer as soon as it holds of the handler's.
\<close>

lemma hoare_ret: "(\<And>s. P s \<Longrightarrow> Q x s) \<Longrightarrow> hoare P (ret x) Q"
  by (simp add: hoare_def ret_def)

lemma hoare_raise: "hoare P (raise_exn e) Q"
  by (simp add: hoare_def raise_exn_def)

lemma hoare_bind: "hoare P m R \<Longrightarrow> (\<And>x. hoare (R x) (f x) Q) \<Longrightarrow> hoare P (bind m f) Q"
  by (auto simp: hoare_def bind_eq_Inr)

lemma hoare_any: "hoare (\<lambda>s. True) m (\<lambda>x s. True)"
  by (simp add: hoare_def)

lemma hoare_keeps: "keeps P m \<Longrightarrow> hoare P m (\<lambda>x. P)"
  by (auto simp: hoare_def safe_def)

lemma hoare_then: "(\<And>x. hoare (\<lambda>s. True) (f x) Q) \<Longrightarrow> hoare (\<lambda>s. True) (bind m f) Q"
  by (rule hoare_bind [OF hoare_any])

lemma hoare_stable: "keeps P m \<Longrightarrow> (\<And>x. hoare P (f x) Q) \<Longrightarrow> hoare P (bind m f) Q"
  by (rule hoare_bind [OF hoare_keeps])

lemma hoare_if: "hoare P m Q \<Longrightarrow> hoare P n Q \<Longrightarrow> hoare P (if b then m else n) Q"
  by simp

lemma hoare_prod: "(\<And>x y. hoare P (f x y) Q) \<Longrightarrow> hoare P (case v of (x, y) \<Rightarrow> f x y) Q"
  by (cases v) auto

lemma hoare_prod_app: "(\<And>x y. hoare P (f x y z) Q) \<Longrightarrow> hoare P ((case v of (x, y) \<Rightarrow> f x y) z) Q"
  by (cases v) auto

lemma hoare_option: "hoare P m Q \<Longrightarrow> (\<And>x. hoare P (f x) Q) \<Longrightarrow> hoare P (case v of None \<Rightarrow> m | Some x \<Rightarrow> f x) Q"
  by (cases v) auto

lemmas hoare_intros = hoare_then hoare_if hoare_prod hoare_prod_app hoare_option hoare_raise

lemma chain_answers:
  assumes refuse: "\<And>s code m hs. code \<in> {401, 403, 429} \<Longrightarrow> Q (json_response code (detail m) hs) s"
    and header: "\<And>r s n v. Q r s \<Longrightarrow> Q (set_header n v r) s"
    and obs: "\<And>r m. keeps (Q r) (observe m)"
    and flag: "\<And>r b. keeps (Q r) (on_redis (is_shadow_mode_enabled (e_redis E) b))"
    and log: "\<And>r i rule c p why.
      keeps (Q r) (on_redis (log_shadow_event (e_redis E) (rd_shadow_s rd) i rule c p why))"
    and route: "hoare (\<lambda>s. True) (handle_exceptions (route E rd request)) Q"
  shows "hoare (\<lambda>s. True) (chain E rd request) Q"
proof -
  have header': "hoare (Q r) (ret (set_header n v r)) Q" for r n v
    by (rule hoare_ret) (rule header)
  have tag: "hoare (\<lambda>s. True) (bind m (\<lambda>r. ret (set_header n v r))) Q" if "hoare (\<lambda>s. True) m Q" for m n v
    by (rule hoare_bind [OF that header'])
  have same: "hoare (Q r) (ret r) Q" for r by (rule hoare_ret)
  have refuse': "hoare (\<lambda>s. True) (ret (json_response 401 (detail m) hs)) Q"
    "hoare (\<lambda>s. True) (ret (json_response 403 (detail m) hs)) Q"
    "hoare (\<lambda>s. True) (ret (json_response 429 (detail m) hs)) Q" for m hs
    by (rule hoare_ret, rule refuse, simp)+
  have state: "keeps (Q r) get_state" for r unfolding get_state_def by (rule keeps_gets)
  have m1: "hoare (\<lambda>s. True) (shadow_mode_dispatch E rd request (handle_exceptions (route E rd request))) Q"
    (is "hoare _ ?m1 Q")
    unfolding shadow_mode_dispatch_def Let_def
    by (rule hoare_bind [OF route], rule hoare_stable [OF flag], rule hoare_if [OF same],
        rule hoare_stable [OF state], rule hoare_if, rule hoare_stable [OF log], rule same, rule same)
  have m2: "hoare (\<lambda>s. True) (abuse_detector_dispatch E rd ?m1) Q" (is "hoare _ ?m2 Q")
    unfolding abuse_detector_dispatch_def enforce_def Let_def
    by (rule m1 | rule refuse' tag | rule hoare_intros)+
  have m3: "hoare (\<lambda>s. True) (rate_limit_dispatch E rd request ?m2) Q" (is "hoare _ ?m3 Q")
    unfolding rate_limit_dispatch_def Let_def rate_limit_exceeded_error_def exception_response.simps option.sel
    by (rule m2 | rule refuse' tag | rule hoare_intros)+
  have m4: "hoare (\<lambda>s. True) (bloom_filter_dispatch E request ?m3) Q" (is "hoare _ ?m4 Q")
    unfolding bloom_filter_dispatch_def Let_def
    by (rule m3 | rule refuse' tag | rule hoare_intros)+
  have auth: "hoare (\<lambda>s. True) (auth_dispatch E rd request ?m4) Q"
    unfolding auth_dispatch_def not_authenticated_def Let_def
    by (rule m4 | rule refuse' tag | rule hoare_intros)+
  show ?thesis
    unfolding chain_def request_id_dispatch_def
    by (rule hoare_then, rule hoare_bind [OF auth], rule hoare_stable [OF obs], rule hoare_stable [OF obs],
        rule header')
qed

section \<open>What a server preserves\<close>

text \<open>
  The frame of a server: every read preserves \<open>P\<close>, and so does every write to a key in \<open>K\<close>. What the
  services need of a server to preserve \<open>P\<close> is that it is framed on the keys they write.
\<close>

definition framed :: "'r redis \<Rightarrow> (string \<Rightarrow> bool) \<Rightarrow> ('r \<Rightarrow> bool) \<Rightarrow> bool" where
  "framed R K P \<longleftrightarrow>
     keeps P (r_ping R) \<and> (\<forall>k. keeps P (r_get R k) \<and> keeps P (r_exists R k) \<and> keeps P (r_zcard R k) \<and>
       keeps P (r_smembers R k) \<and> keeps P (r_scan_iter R k) \<and> (\<forall>i j. keeps P (r_zrange R k i j))) \<and>
     (\<forall>ks. keeps P (r_mget R ks)) \<and>
     (\<forall>k. K k \<longrightarrow> keeps P (r_delete R k) \<and> keeps P (r_incr R k) \<and>
       (\<forall>v ex. keeps P (r_set R k v ex)) \<and> (\<forall>t. keeps P (r_expire R k t)) \<and>
       (\<forall>m sc. keeps P (r_zadd R k m sc)) \<and> (\<forall>lo hi. keeps P (r_zremrangebyscore R k lo hi)) \<and>
       (\<forall>i j. keeps P (r_zremrangebyrank R k i j)) \<and> (\<forall>m. keeps P (r_sadd R k m)))"

lemma framed_reads:
  assumes "framed R K P"
  shows "keeps P (r_ping R)" "keeps P (r_get R k)" "keeps P (r_exists R k)" "keeps P (r_mget R ks)"
    "keeps P (r_zcard R k)" "keeps P (r_zrange R k i j)" "keeps P (r_smembers R k)" "keeps P (r_scan_iter R pat)"
  using assms by (simp_all add: framed_def)

lemma framed_writes:
  assumes "framed R K P" and "K k"
  shows "keeps P (r_set R k v ex)" "keeps P (r_delete R k)" "keeps P (r_incr R k)" "keeps P (r_expire R k t)"
    "keeps P (r_zadd R k m sc)" "keeps P (r_zremrangebyscore R k lo hi)"
    "keeps P (r_zremrangebyrank R k i j)" "keeps P (r_sadd R k m)"
  using assms by (simp_all add: framed_def)

lemma pipe_keeps: "list_all (keeps P) cs \<Longrightarrow> keeps P (pipe_execute cs)"
  by (intro keeps_pipe) (auto simp: list_all_iff)

text \<open>The keys of every service but the limiter, and the limiter's.\<close>

definition behavioural :: "string \<Rightarrow> bool" where
  "behavioural k \<longleftrightarrow> k = ''config:shadow_mode_enabled'' \<or>
     (\<exists>x. k = failed_auth_key x \<or> k = request_times_key x \<or> k = block_key x \<or> k = shadow_log_key x)"

lemma behavioural_keys [simp]:
  "behavioural ''config:shadow_mode_enabled''" "behavioural (failed_auth_key x)"
  "behavioural (request_times_key x)" "behavioural (block_key x)" "behavioural (shadow_log_key x)"
  by (auto simp: behavioural_def)

lemma limiter_keeps: "framed R K P \<Longrightarrow> K (rate_key c) \<Longrightarrow> keeps P (check_rate_limit R now c l w)"
  unfolding check_rate_limit_def sliding_window_script_def
  by (intro keeps_intros framed_reads framed_writes)

lemma services_keep:
  assumes F: "framed R K P" and K: "\<And>k. behavioural k \<Longrightarrow> K k"
  shows "keeps P (record_auth_failure R ip n w)"
    and "keeps P (is_credential_stuffing R ip n i u)"
    and "keeps P (record_request_timing R now c m)"
    and "keeps P (compute_timing_entropy R c)"
    and "keeps P (get_client_state R ip)"
    and "keeps P (apply_soft_block R ip t)"
    and "keeps P (remove_soft_block R ip)"
    and "keeps P (compute_abuse_score R ip c ipf uf ent ipt ut et)"
    and "keeps P (is_shadow_mode_enabled R b)"
    and "keeps P (log_shadow_event R now q rule c p why)"
    and "keeps P (get_shadow_stats R)"
    and "keeps P (abuse_verdict R S now ip c)"
    and "keeps P (r_set R ''config:shadow_mode_enabled'' v ex)"
proof -
  note reads = framed_reads [OF F]
  note rules = keeps_intros reads framed_writes [OF F] K behavioural_keys
  show "keeps P (record_auth_failure R ip n w)"
    unfolding record_auth_failure_def Let_def
    by (intro keeps_bind pipe_keeps keeps_ret, simp, intro conjI rules)
  show "keeps P (is_credential_stuffing R ip n i u)"
    unfolding is_credential_stuffing_def by (intro rules)
  have timing: "keeps P (record_request_timing R now c m)" for m
    unfolding record_request_timing_def Let_def
    by (intro keeps_bind pipe_keeps keeps_ret, simp, intro conjI rules)
  then show "keeps P (record_request_timing R now c m)" .
  show ent: "keeps P (compute_timing_entropy R c)"
    unfolding compute_timing_entropy_def Let_def by (intro rules)
  have state: "keeps P (get_client_state R ip)" for ip
    unfolding get_client_state_def by (intro rules)
  then show "keeps P (get_client_state R ip)" .
  have soft: "keeps P (apply_soft_block R ip t)" for ip t
    unfolding apply_soft_block_def by (intro rules)
  then show "keeps P (apply_soft_block R ip t)" .
  show "keeps P (remove_soft_block R ip)"
    unfolding remove_soft_block_def by (intro rules)
  have score: "keeps P (compute_abuse_score R ip c ipf uf ent ipt ut et)" for ipf uf ent ipt ut et
    unfolding compute_abuse_score_def Let_def by (intro keeps_intros state soft)
  then show "keeps P (compute_abuse_score R ip c ipf uf ent ipt ut et)" .
  have flag: "keeps P (is_shadow_mode_enabled R b)" for b
    unfolding is_shadow_mode_enabled_def by (intro rules)
  then show "keeps P (is_shadow_mode_enabled R b)" .
  show "keeps P (log_shadow_event R now q rule c p why)"
    unfolding log_shadow_event_def Let_def by (intro rules)
  show "keeps P (get_shadow_stats R)"
    unfolding get_shadow_stats_def
    by (intro keeps_intros reads pipe_keeps) (auto simp: list_all_iff intro: reads)
  show "keeps P (abuse_verdict R S now ip c)"
    unfolding abuse_verdict_def abuse_signals_def by (intro keeps_intros timing ent score flag reads)
  show "keeps P (r_set R ''config:shadow_mode_enabled'' v ex)" by (intro rules)
qed

text \<open>A set of keys and the clock stay as they are while other keys are written.\<close>

definition same_on :: "string set \<Rightarrow> keyspace \<Rightarrow> keyspace \<Rightarrow> bool" where
  "same_on A ks ks' \<longleftrightarrow> know ks' = know ks \<and> (\<forall>k \<in> A. entry ks' k = entry ks k)"

lemma same_on_refl [simp]: "same_on A ks ks"
  by (simp add: same_on_def)

lemma same_on_put [simp]: "k \<notin> A \<Longrightarrow> same_on A ks (put k v d ks)"
  by (auto simp: same_on_def intro!: entry_put_other)

lemma same_on_drop [simp]: "k \<notin> A \<Longrightarrow> same_on A ks (drop_key k ks)"
  by (auto simp: same_on_def intro!: entry_drop_other)

lemma same_on_put_zset [simp]: "k \<notin> A \<Longrightarrow> same_on A ks (put_zset k zs d ks)"
  by (simp add: put_zset_def)

lemma commands_same_on:
  "ks_ping ks = (q1, ks') \<Longrightarrow> same_on A ks ks'" "ks_get k' ks = (q2, ks') \<Longrightarrow> same_on A ks ks'"
  "ks_exists k' ks = (q3, ks') \<Longrightarrow> same_on A ks ks'" "ks_mget ns ks = (q4, ks') \<Longrightarrow> same_on A ks ks'"
  "ks_zcard k' ks = (q3, ks') \<Longrightarrow> same_on A ks ks'" "ks_zrange k' i j ks = (q5, ks') \<Longrightarrow> same_on A ks ks'"
  by (auto simp: ks_ping_def ret_def ks_get_def ks_exists_def ks_mget_def ks_zcard_def ks_zrange_def
      split: option.splits prod.splits rval.splits)

lemma writes_same_on:
  assumes "k \<notin> A"
  shows "ks_set k v ex ks = (q1, ks') \<Longrightarrow> same_on A ks ks'" "ks_delete k ks = (q2, ks') \<Longrightarrow> same_on A ks ks'"
    "ks_incr k ks = (q2, ks') \<Longrightarrow> same_on A ks ks'" "ks_expire k t ks = (q2, ks') \<Longrightarrow> same_on A ks ks'"
    "ks_zadd k m sc ks = (q2, ks') \<Longrightarrow> same_on A ks ks'" "ks_zremrangebyscore k lo hi ks = (q2, ks') \<Longrightarrow> same_on A ks ks'"
    "ks_zremrangebyrank k i j ks = (q2, ks') \<Longrightarrow> same_on A ks ks'" "ks_sadd k m ks = (q2, ks') \<Longrightarrow> same_on A ks ks'"
  using assms
  by (auto simp: ks_set_def ks_delete_def ks_incr_def ks_expire_def ks_zadd_def ks_zremrangebyscore_def
      ks_zremrangebyrank_def ks_sadd_def Let_def split: option.splits prod.splits rval.splits if_splits)

context redis_server
begin

lemma framed_same_on:
  assumes P: "\<And>ks ks'. same_on A ks ks' \<Longrightarrow> P ks \<Longrightarrow> P ks'"
  shows "framed R (\<lambda>k. k \<notin> A) (\<lambda>s. P (view s))"
proof -
  have k: "keeps P m" if "\<And>ks q ks'. m ks = (q, ks') \<Longrightarrow> same_on A ks ks'" for m :: "(keyspace, 'x) io"
    by (rule keepsI) (rule P [OF that])
  note sim = keeps_sim [where P = P and view = view]
  have members: "keeps (\<lambda>s. P (view s)) (r_smembers R k)" for k
  proof (rule keepsI)
    fix s r s' assume "P (view s)" "r_smembers R k s = (r, s')"
    then show "P (view s')" using smembers_law [where s = s and k = k] by (auto split: option.splits)
  qed
  have scan: "keeps (\<lambda>s. P (view s)) (r_scan_iter R pat)" for pat
    by (rule keepsI) (metis scan_law snd_conv)
  show ?thesis
    unfolding framed_def
    by (intro conjI allI impI members scan sim [OF ping_law] sim [OF get_law] sim [OF exists_law] sim [OF zcard_law]
        sim [OF zrange_law] sim [OF mget_law] sim [OF delete_law] sim [OF incr_law] sim [OF set_law] sim [OF expire_law]
        sim [OF zadd_law] sim [OF zremrangebyscore_law] sim [OF zremrangebyrank_law] sim [OF sadd_law] k)
      (erule commands_same_on writes_same_on [rotated], assumption?)+
qed

lemma framed_entry: "framed R (\<lambda>k'. k' \<notin> {k}) (\<lambda>s. entry (view s) k = e)"
  by (rule framed_same_on) (simp add: same_on_def)

end

end
