(* ===== verification/Enforcement.thy ===== *)
theory Enforcement
  imports Middleware
begin

text \<open>
  The abuse detector on a keyspace: from the counters, the samples and the flag that are there, one
  call of \<open>abuse_verdict\<close> answers the decision table's verdict on the exact signals and writes only
  the client's samples and, for a new soft block, the block.
\<close>

definition flag_key :: string where "flag_key = ''config:shadow_mode_enabled''"

definition flag_ok :: "keyspace \<Rightarrow> bool" where
  "flag_ok ks \<longleftrightarrow> (case entry ks flag_key of None \<Rightarrow> True | Some (RStr v, d) \<Rightarrow> True | _ \<Rightarrow> False)"

definition shadow_flag :: "settings \<Rightarrow> keyspace \<Rightarrow> bool" where
  "shadow_flag S ks = (case string_value ks flag_key of
      None \<Rightarrow> shadow_mode_enabled S | Some v \<Rightarrow> py_lower v = ''true'')"

lemma flag_run:
  "flag_ok ks \<Longrightarrow> is_shadow_mode_enabled ks_redis (shadow_mode_enabled S) ks = (Inr (shadow_flag S ks), ks)"
  by (auto simp: flag_ok_def is_shadow_mode_enabled_def shadow_flag_def string_value_def ks_get_def bind_def ret_def
      flag_key_def split: option.splits prod.splits rval.splits)

definition thresholds_ok :: "settings \<Rightarrow> bool" where
  "thresholds_ok S \<longleftrightarrow> 0 < auth_failure_ip_threshold S \<and> auth_failure_ip_threshold S \<le> 2 ^ 49 \<and>
     0 < auth_failure_user_threshold S \<and> auth_failure_user_threshold S \<le> 2 ^ 49 \<and>
     0 \<le> scraping_entropy_threshold S \<and> 0 < scraping_sample_size S"

definition entropy_of :: "int list \<Rightarrow> float64 option" where
  "entropy_of ts = (case timing_entropy ts of Inl e \<Rightarrow> None | Inr v \<Rightarrow> v)"

text \<open>The verdict on an address and a client whose last samples are \<open>ts\<close>.\<close>

definition verdict :: "settings \<Rightarrow> keyspace \<Rightarrow> string \<Rightarrow> string \<Rightarrow> int list \<Rightarrow> client_state \<times> string" where
  "verdict S ks ip c ts =
     (if blocked ks ip then (SOFT_BLOCK, ''existing_soft_block'')
      else decision (failures ks ip) (failures ks c) (entropy_of ts)
             (auth_failure_ip_threshold S) (auth_failure_user_threshold S) (scraping_entropy_threshold S))"

lemma prefixes_differ [simp]:
  "failed_auth_key x \<noteq> request_times_key y" "block_key x \<noteq> request_times_key y"
  "block_key x \<noteq> failed_auth_key y" "failed_auth_key y \<noteq> block_key x"
  "flag_key \<noteq> request_times_key y" "flag_key \<noteq> block_key y" "request_times_key y \<noteq> block_key x"
  "flag_key \<noteq> failed_auth_key y" "request_times_key y \<noteq> flag_key" "block_key y \<noteq> flag_key"
  by (simp_all add: flag_key_def failed_auth_key_def request_times_key_def block_key_def)

lemma verdict_insert:
  assumes S: "thresholds_ok S" and c1: "counter_ok ks ip" and c2: "counter_ok ks c"
    and s: "samples_at ks c ts d" and z: "zinsert (show_int now) now (stamped ts) = stamped us" and f: "flag_ok ks"
  obtains ks' where
    "abuse_verdict ks_redis S now ip c ks =
       (Inr (verdict S ks ip c (last_n (nat (scraping_sample_size S)) us), shadow_flag S ks), ks')"
    and "know ks' = know ks"
    and "samples_at ks' c (last_n (nat (scraping_sample_size S)) us) (know ks + 3600 * 1000)"
    and "blocked ks' ip \<longleftrightarrow>
      fst (verdict S ks ip c (last_n (nat (scraping_sample_size S)) us)) = SOFT_BLOCK"
    and "\<And>k. k \<noteq> request_times_key c \<Longrightarrow> k \<noteq> block_key ip \<Longrightarrow> entry ks' k = entry ks k"
    and "entry ks' (block_key ip) = entry ks (block_key ip) \<or>
      entry ks' (block_key ip) = Some (RStr ''1'', Some (know ks + soft_block_ttl * 1000))"
proof -
  let ?k = "nat (scraping_sample_size S)"
  let ?ts = "last_n ?k us"
  have k: "0 < ?k" "int ?k = scraping_sample_size S" using S by (simp_all add: thresholds_ok_def)
  obtain ks1 where 1: "record_request_timing ks_redis now c (scraping_sample_size S) ks = (Inr (), ks1)"
    "know ks1 = know ks" "samples_at ks1 c ?ts (know ks + 3600 * 1000)"
    and frame: "\<And>key. key \<noteq> request_times_key c \<Longrightarrow> entry ks1 key = entry ks key"
    using record_timing_insert [OF s z k(1)] k(2) by metis
  obtain v where v: "timing_entropy ?ts = Inr v" using timing_entropy_total by blast
  have ent: "compute_timing_entropy ks_redis c ks1 = (Inr v, ks1)" "entropy_of ?ts = v"
    using entropy_run [OF 1(3)] v by (simp_all add: entropy_of_def)
  have signals: "abuse_signals ks_redis S now ip c ks = (Inr (failures ks ip, failures ks c, v), ks1)"
    using counter_read [OF c1] counter_read [OF c2] 1(1) ent(1)
    by (simp add: abuse_signals_def ks_mget_def bind_def lift_result_def ret_def)
  have b: "blocked ks1 ip = blocked ks ip" by (simp add: blocked_def frame)
  let ?ks' = "if \<not> blocked ks ip \<and> fst (verdict S ks ip c ?ts) = SOFT_BLOCK then write_block ip ks1 else ks1"
  have score: "compute_abuse_score ks_redis ip c (failures ks ip) (failures ks c) v
      (auth_failure_ip_threshold S) (auth_failure_user_threshold S) (scraping_entropy_threshold S) ks1 =
    (Inr (verdict S ks ip c ?ts), ?ks')"
    using S by (simp add: thresholds_ok_def score_run b verdict_def ent(2))
  have same: "entry ?ks' k = entry ks k" if "k \<noteq> request_times_key c" "k \<noteq> block_key ip" for k
    using that frame by (simp add: write_block_def)
  then have flag: "flag_ok ?ks'" "shadow_flag S ?ks' = shadow_flag S ks"
    using f by (simp_all add: flag_ok_def shadow_flag_def string_value_def)
  show thesis
  proof (rule that [of ?ks'])
    show "abuse_verdict ks_redis S now ip c ks = (Inr (verdict S ks ip c ?ts, shadow_flag S ks), ?ks')"
      using signals score flag_run [OF flag(1), of S] flag(2) by (simp add: abuse_verdict_def bind_def ret_def)
    show "know ?ks' = know ks" using 1(2) by (simp add: write_block_def)
    show "samples_at ?ks' c ?ts (know ks + 3600 * 1000)"
      using 1(3) by (simp add: samples_at_def write_block_def)
    have "blocked (write_block ip ks1) ip"
      using write_block_until(1) by (rule blocked_until_blocked)
    then show "blocked ?ks' ip \<longleftrightarrow> fst (verdict S ks ip c ?ts) = SOFT_BLOCK"
      using b by (auto simp: verdict_def)
    show "entry ?ks' k = entry ks k" if "k \<noteq> request_times_key c" "k \<noteq> block_key ip" for k
      by (rule same [OF that])
    show "entry ?ks' (block_key ip) = entry ks (block_key ip) \<or>
        entry ?ks' (block_key ip) = Some (RStr ''1'', Some (know ks + soft_block_ttl * 1000))"
      using 1(2) frame [of "block_key ip"] by (auto simp: write_block_def soft_block_ttl_def)
  qed
qed

lemma verdict_run:
  assumes S: "thresholds_ok S" and c1: "counter_ok ks ip" and c2: "counter_ok ks c"
    and s: "samples_at ks c ts d" and lt: "\<And>t. t \<in> set ts \<Longrightarrow> t < now" and f: "flag_ok ks"
  obtains ks' where
    "abuse_verdict ks_redis S now ip c ks =
       (Inr (verdict S ks ip c (last_n (nat (scraping_sample_size S)) (ts @ [now])), shadow_flag S ks), ks')"
    and "know ks' = know ks"
    and "samples_at ks' c (last_n (nat (scraping_sample_size S)) (ts @ [now])) (know ks + 3600 * 1000)"
    and "blocked ks' ip \<longleftrightarrow>
      fst (verdict S ks ip c (last_n (nat (scraping_sample_size S)) (ts @ [now]))) = SOFT_BLOCK"
    and "\<And>k. k \<noteq> request_times_key c \<Longrightarrow> k \<noteq> block_key ip \<Longrightarrow> entry ks' k = entry ks k"
  by (rule verdict_insert [OF S c1 c2 s zinsert_newest [OF lt] f], assumption, rule that)

end
