(* ===== verification/Demo.thy ===== *)
theory Demo
  imports Gateway Enforcement
begin

text \<open>
  A small deployment: the reference libraries put together with the default settings, and a few
  requests to it, for the concrete instances of the properties.
\<close>

definition demo_settings :: settings where
  "demo_settings = default_settings [] [] ''key''"

definition demo_env :: "(keyspace, textbook, user list) env" where
  "demo_env =
     \<lparr>e_redis = ks_redis, e_bloom = textbook char_sums, e_jwt = ref_jwt, e_bcrypt = ref_bcrypt,
      e_users = list_users, e_settings = demo_settings, e_elapse = ks_elapse,
      e_framework = (\<lambda>p. json_response 404 (detail ''Not Found'') [])\<rparr>"

definition demo_gateway :: "(keyspace, textbook, user list) gateway" where
  "demo_gateway =
     \<lparr>gw_node = \<lparr>store = empty_keyspace 0, bloom = bloom_filter_service (textbook char_sums) demo_settings\<rparr>,
      gw_users = [], gw_metrics = [], gw_state = fresh_state\<rparr>"

definition demo_readings :: readings where
  "demo_readings =
     \<lparr>rd_uuid = ''id'', rd_duration = 0, rd_auth_s = 0, rd_admin_s = 0, rd_login_s = 0, rd_shadow_s = 0,
      rd_rate_ms = 0, rd_timing_ms = 0, rd_salt = [], rd_user_id = ''u1'', rd_created_us = 0,
      rd_pool = \<lparr>checkedout = 0, checkedin = 0, pool_overflow = 0, pool_size = 10\<rparr>\<rparr>"

definition demo_token :: "string \<Rightarrow> string \<Rightarrow> string" where
  "demo_token name role =
     create_access_token ref_jwt demo_settings 0 [(''sub'', JStr name), (''role'', JStr role)]"

definition demo_request :: "endpoint \<Rightarrow> string \<Rightarrow> (string \<times> string) list \<Rightarrow> request" where
  "demo_request ep ip hs = \<lparr>rq_endpoint = ep, rq_client = Some ip, rq_headers = hs\<rparr>"

definition admin_request :: "endpoint \<Rightarrow> string \<Rightarrow> request" where
  "admin_request ep ip = demo_request ep ip [(''Authorization'', ''Bearer '' @ demo_token ''root'' ''admin'')]"

lemma demo_env_sel [simp]:
  "e_redis demo_env = ks_redis" "e_bloom demo_env = textbook char_sums" "e_jwt demo_env = ref_jwt"
  "e_bcrypt demo_env = ref_bcrypt" "e_users demo_env = list_users" "e_settings demo_env = demo_settings"
  "e_elapse demo_env = ks_elapse"
  by (simp_all add: demo_env_def)

lemma demo_sel [simp]:
  "rd_uuid demo_readings = ''id''" "rd_duration demo_readings = 0" "rd_auth_s demo_readings = 0"
  "rd_admin_s demo_readings = 0" "rd_login_s demo_readings = 0" "rd_shadow_s demo_readings = 0"
  "rd_rate_ms demo_readings = 0" "rd_timing_ms demo_readings = 0"
  "rq_endpoint (demo_request ep ip hs) = ep" "rq_client (demo_request ep ip hs) = Some ip"
  "rq_headers (demo_request ep ip hs) = hs" "rq_endpoint (admin_request ep ip) = ep"
  "rq_client (admin_request ep ip) = Some ip" "gw_users demo_gateway = []" "gw_metrics demo_gateway = []"
  "store (gw_node demo_gateway) = empty_keyspace 0" "secret_key demo_settings = ''key''"
  by (simp_all add: demo_readings_def demo_request_def admin_request_def demo_gateway_def demo_settings_def)

text \<open>A token of the reference library is valid for half an hour.\<close>

lemma demo_token_ok:
  "demo_token name role \<noteq> []" "list_all token_char (demo_token name role)"
    "decode_access_token ref_jwt demo_settings 0 (demo_token name role) =
       Inr (Some [(''sub'', JStr name), (''role'', JStr role), (''exp'', JInt 1800)])"
proof -
  have p: "plain_claims [(''sub'', JStr name), (''role'', JStr role)]"
    "plain_claims (dict_put ''exp'' (JInt 1800) [(''sub'', JStr name), (''role'', JStr role)])"
    by (simp_all add: plain_claims_def)
  show "demo_token name role \<noteq> []" "list_all token_char (demo_token name role)"
    using ref_jwt.token_law [OF p(2)]
    by (simp_all add: demo_token_def create_access_token_def Let_def access_token_expire_minutes_def)
  show "decode_access_token ref_jwt demo_settings 0 (demo_token name role) =
       Inr (Some [(''sub'', JStr name), (''role'', JStr role), (''exp'', JInt 1800)])"
    unfolding demo_token_def using ref_jwt.token_decodes [OF p(1), of demo_settings 0 0] by simp
qed

lemma demo_claims [simp]:
  "claim_text ''sub'' d [(''sub'', JStr name), (''role'', JStr role), (''exp'', t)] = name"
  "claim_text ''role'' d [(''sub'', JStr name), (''role'', JStr role), (''exp'', t)] = role"
  by (simp_all add: claim_text_def)

lemma demo_header:
  "header_get (demo_request ep ip ((''Authorization'', v) # hs)) ''Authorization'' [] = v"
  "header_get (demo_request ep ip [(''Authorization'', v)]) ''User-Agent'' [] = []"
proof -
  have "py_lower ''Authorization'' \<noteq> py_lower ''User-Agent''" by code_simp
  then show "header_get (demo_request ep ip [(''Authorization'', v)]) ''User-Agent'' [] = []"
    "header_get (demo_request ep ip ((''Authorization'', v) # hs)) ''Authorization'' [] = v"
    by (simp_all add: header_get_def)
qed

text \<open>An administrator's first request to a fresh deployment, up to the handler.\<close>

definition demo_checked :: keyspace where
  "demo_checked = put ''rate_limit:root'' (RZset [(''0-root'', 0)]) (Some 61000)
     (put ''rate_limit:root'' (RZset [(''0-root'', 0)]) None (empty_keyspace 0))"

lemma show_int_0: "show_int 0 = ''0''" by code_simp

lemma demo_checked_run:
  "check_rate_limit ks_redis 0 ''root'' 100 60 (empty_keyspace 0) = (Inr (True, 99), demo_checked)"
  by (simp add: check_rate_limit_def sliding_window_script_def bind_def ret_def ks_zremrangebyscore_def
      ks_zcard_def ks_zadd_def ks_expire_def rate_key_def rate_request_id_def show_int_0 demo_checked_def)

lemma demo_verdict:
  obtains ks where
    "abuse_verdict ks_redis demo_settings 0 ''1.1.1.1'' ''root'' demo_checked = (Inr ((ALLOWED, []), True), ks)"
    and "\<And>k. k \<noteq> ''request_times:root'' \<Longrightarrow> k \<noteq> ''blocked_ip:1.1.1.1'' \<Longrightarrow> entry ks k = entry demo_checked k"
proof -
  have e: "entry demo_checked k = None" if "k \<noteq> ''rate_limit:root''" for k
    using that by (simp add: demo_checked_def)
  have S: "thresholds_ok demo_settings" by (simp add: thresholds_ok_def demo_settings_def)
  have c: "counter_ok demo_checked x" "failures demo_checked x = 0" for x
    by (simp_all add: counter_ok_def failures_def string_value_def e failed_auth_key_def)
  have s: "samples_at demo_checked ''root'' [] 0" by (simp add: samples_at_def e request_times_key_def)
  have f: "flag_ok demo_checked" "shadow_flag demo_settings demo_checked"
    by (simp_all add: flag_ok_def shadow_flag_def string_value_def e flag_key_def demo_settings_def)
  have v: "verdict demo_settings demo_checked ''1.1.1.1'' ''root'' (last_n n [0]) = (ALLOWED, [])" for n
    by (simp add: verdict_def blocked_def e block_key_def c decision_def entropy_of_def timing_entropy_def
        below_def demo_settings_def min_less_iff_disj)
  obtain ks where
    "abuse_verdict ks_redis demo_settings 0 ''1.1.1.1'' ''root'' demo_checked = (Inr ((ALLOWED, []), True), ks)"
    "\<And>k. k \<noteq> request_times_key ''root'' \<Longrightarrow> k \<noteq> block_key ''1.1.1.1'' \<Longrightarrow> entry ks k = entry demo_checked k"
    by (rule verdict_run [OF S c(1) [of "''1.1.1.1''"] c(1) s _ f(1), where now = 0]) (simp_all add: v f(2))
  then show thesis by (intro that [of ks]) (simp_all add: request_times_key_def block_key_def)
qed

lemma demo_require_admin:
  "require_admin demo_env demo_readings (admin_request ep ip) = Inr ''root''"
  unfolding admin_request_def
  by (subst canonical_admin [OF demo_header(1)])
    (simp_all add: demo_token_ok admin_of_token_def)

lemma demo_admin_request:
  assumes path: "endpoint_path ep \<notin> set public_paths" "endpoint_path ep \<notin> set excluded_paths"
  obtains g where
    "\<And>k. k \<notin> {''rate_limit:root'', ''request_times:root'', ''blocked_ip:1.1.1.1''} \<Longrightarrow>
       entry (store (gw_node g)) k = None"
    and "bloom (gw_node g) = bloom (gw_node demo_gateway)" and "gw_users g = []"
    and "st_shadow_rule (gw_state g) = None"
    and "\<And>r h flag c. handle_exceptions (route demo_env demo_readings (admin_request ep ''1.1.1.1'')) g = (Inr r, h) \<Longrightarrow>
      is_shadow_mode_enabled ks_redis True (store (gw_node h)) = (Inr flag, c) \<Longrightarrow>
      st_shadow_rule (gw_state h) = None \<Longrightarrow>
      \<exists>r' g'. handle_request demo_env demo_readings (admin_request ep ''1.1.1.1'') demo_gateway = (r', g') \<and>
        status_code r' = status_code r \<and> content r' = content r \<and>
        gw_node g' = gw_node (with_store c h) \<and> gw_users g' = gw_users h"
proof -
  let ?rq = "admin_request ep ''1.1.1.1''"
  obtain ks where v: "abuse_verdict ks_redis demo_settings 0 ''1.1.1.1'' ''root'' demo_checked = (Inr ((ALLOWED, []), True), ks)"
    and k: "\<And>k. k \<noteq> ''request_times:root'' \<Longrightarrow> k \<noteq> ''blocked_ip:1.1.1.1'' \<Longrightarrow> entry ks k = entry demo_checked k"
    by (rule demo_verdict) blast
  let ?start = "demo_gateway\<lparr>gw_state := fresh_state\<lparr>st_request_id := Some ''id'', st_client_id := Some ''root''\<rparr>\<rparr>"
  let ?g = "with_store ks (?start\<lparr>gw_state := seen ?rq (gw_state ?start)\<rparr>)"
  have fresh: "\<not> might_contain_ip (textbook char_sums) (bloom (gw_node demo_gateway)) x" for x
    using tb.new_law by (simp add: demo_gateway_def bloom_filter_service_def new_filter_def might_contain_ip_def)
  have agent: "header_get ?rq ''User-Agent'' [] = []" by (simp add: admin_request_def demo_header(2))
  have auth: "auth_dispatch demo_env demo_readings ?rq next (demo_gateway\<lparr>gw_state := fresh_state\<lparr>st_request_id := Some ''id''\<rparr>\<rparr>)
      = next ?start" for "next"
    by (subst auth_passes [where token = "demo_token ''root'' ''admin''" and c = "''root''"
        and cl = "[(''sub'', JStr ''root''), (''role'', JStr ''admin''), (''exp'', JInt 1800)]"])
      (use path(1) in \<open>simp_all add: url_path_def admin_request_def demo_header demo_token_ok\<close>)
  show thesis
  proof (rule that [of ?g])
    show "entry (store (gw_node ?g)) k = None"
      if "k \<notin> {''rate_limit:root'', ''request_times:root'', ''blocked_ip:1.1.1.1''}" for k
      using that k [of k] by (auto simp: demo_checked_def)
    show "bloom (gw_node ?g) = bloom (gw_node demo_gateway)" "gw_users ?g = []" by simp_all
    show "st_shadow_rule (gw_state ?g) = None" by (simp add: seen_def fresh_state_def)
    fix r h flag c
    assume run: "handle_exceptions (route demo_env demo_readings ?rq) ?g = (Inr r, h)"
      "is_shadow_mode_enabled ks_redis True (store (gw_node h)) = (Inr flag, c)" "st_shadow_rule (gw_state h) = None"
    have "inner_chain demo_env demo_readings ?rq ?start =
        (Inr (set_header ''X-RateLimit-Remaining'' (show_int 99) r), with_store c h)"
      by (rule inner_chain_pass [where a = demo_checked and b = ks and w = "[]" and flag = True and flag' = flag])
        (use path(2) run v fresh agent demo_checked_run in
          \<open>simp_all add: unlisted_def url_path_def demo_settings_def\<close>)
    then show "\<exists>r' g'. handle_request demo_env demo_readings ?rq demo_gateway = (r', g') \<and>
        status_code r' = status_code r \<and> content r' = content r \<and>
        gw_node g' = gw_node (with_store c h) \<and> gw_users g' = gw_users h"
      by (simp add: handle_request_inner auth) (simp add: set_header_def)
  qed
qed

lemma demo_flag:
  "entry ks ''config:shadow_mode_enabled'' = None \<Longrightarrow> is_shadow_mode_enabled ks_redis b ks = (Inr b, ks)"
  by (simp add: is_shadow_mode_enabled_def ks_get_def bind_def ret_def)

text \<open>Blocking an address, end to end.\<close>

lemma demo_block:
  obtains r g where
    "handle_request demo_env demo_readings (admin_request (BlockIp ''6.6.6.6'') ''1.1.1.1'') demo_gateway = (r, g)"
    and "status_code r = 200" and "might_contain_ip (textbook char_sums) (bloom (gw_node g)) ''6.6.6.6''"
    and "sets_are (store (gw_node g)) {|''6.6.6.6''|} {||}"
proof (rule demo_admin_request [of "BlockIp ''6.6.6.6''"])
  fix g :: "(keyspace, textbook, user list) gateway"
  assume e: "\<And>k. k \<notin> {''rate_limit:root'', ''request_times:root'', ''blocked_ip:1.1.1.1''} \<Longrightarrow>
       entry (store (gw_node g)) k = None"
    and b: "bloom (gw_node g) = bloom (gw_node demo_gateway)" and st: "st_shadow_rule (gw_state g) = None"
    and go: "\<And>r h flag c. handle_exceptions (route demo_env demo_readings (admin_request (BlockIp ''6.6.6.6'') ''1.1.1.1'')) g = (Inr r, h) \<Longrightarrow>
      is_shadow_mode_enabled ks_redis True (store (gw_node h)) = (Inr flag, c) \<Longrightarrow>
      st_shadow_rule (gw_state h) = None \<Longrightarrow>
      \<exists>r' g'. handle_request demo_env demo_readings (admin_request (BlockIp ''6.6.6.6'') ''1.1.1.1'') demo_gateway = (r', g') \<and>
        status_code r' = status_code r \<and> content r' = content r \<and>
        gw_node g' = gw_node (with_store c h) \<and> gw_users g' = gw_users h"
  have add: "b_add (textbook char_sums) ''6.6.6.6'' (ip_filter (bloom (gw_node g))) =
      Inr \<lparr>tb_bits = char_sums ''6.6.6.6'', tb_count = 1, tb_cap = 1000000\<rparr>"
    by (simp add: b demo_gateway_def bloom_filter_service_def new_filter_def textbook_def demo_settings_def char_sums_def)
  let ?ks = "put ''known_bad_ips'' (RSet {|''6.6.6.6''|}) None (store (gw_node g))"
  let ?b = "(bloom (gw_node g))\<lparr>ip_filter := \<lparr>tb_bits = char_sums ''6.6.6.6'', tb_count = 1, tb_cap = 1000000\<rparr>\<rparr>"
  let ?h = "g\<lparr>gw_node := \<lparr>store = ?ks, bloom = ?b\<rparr>\<rparr>"
  have "add_ip_to_redis (textbook char_sums) ks_redis ''6.6.6.6'' (gw_node g) = (Inr (), \<lparr>store = ?ks, bloom = ?b\<rparr>)"
    using add e [of "''known_bad_ips''"]
    by (simp add: add_ip_to_redis_def bind_def on_store_def on_bloom_def zoom_def ks_sadd_def add_ip_def)
  then have run: "handle_exceptions (route demo_env demo_readings (admin_request (BlockIp ''6.6.6.6'') ''1.1.1.1'')) g =
      (Inr (json_response 200 (JObj [(''hard_blocked'', JStr ''6.6.6.6'')]) []), ?h)"
    by (simp add: handle_exceptions_def try_except_def route_def admin_only_def demo_require_admin
        bind_def lift_result_def block_ip_def on_node_def zoom_def ret_def)
  have flag: "is_shadow_mode_enabled ks_redis True (store (gw_node ?h)) = (Inr True, ?ks)"
    using e [of "''config:shadow_mode_enabled''"] by (simp add: demo_flag)
  have "sets_are ?ks {|''6.6.6.6''|} {||}" using e [of "''abusive_agents''"] by (simp add: sets_are_def)
  with go [OF run flag] st show thesis
    by (auto simp: json_response_def might_contain_ip_def textbook_def intro: that)
qed (simp_all add: public_paths_def excluded_paths_def)

end
