(* ===== verification/Access.thy ===== *)
theory Access
  imports Frames Demo
begin

text \<open>
  Who gets through, end to end: every answer is tagged and counted, requests without a valid token
  change nothing, a hard block holds against every later request, and only administrators write
  the block lists.
\<close>

section \<open>Predicates of a gateway\<close>

lemma keeps_on_redis: "safe X P m \<Longrightarrow> safe X (\<lambda>g. P (store (gw_node g))) (on_redis m)"
  unfolding on_redis_def on_node_def on_store_def
  by (rule keeps_zoom [where P' = "\<lambda>n. P (store n)"], simp, simp, rule keeps_zoom) auto

lemma keeps_redis_only:
  "(\<And>g a. P g \<Longrightarrow> P (g\<lparr>gw_node := (gw_node g)\<lparr>store := a\<rparr>\<rparr>)) \<Longrightarrow> keeps P (on_redis m)"
  by (rule keepsI) (auto simp: on_redis_def on_node_def on_store_def zoom_def split: prod.splits)

lemma keeps_observe: "(\<And>g. P g \<Longrightarrow> P (g\<lparr>gw_metrics := gw_metrics g @ [m]\<rparr>)) \<Longrightarrow> safe X P (observe m)"
  by (rule safeI) (auto simp: observe_run)

lemma keeps_set_state: "(\<And>g. P g \<Longrightarrow> P (g\<lparr>gw_state := f (gw_state g)\<rparr>)) \<Longrightarrow> safe X P (set_state f)"
  by (rule safeI) (auto simp: set_state_run)

lemma keeps_on_users:
  "(\<And>g d. P g \<Longrightarrow> P (g\<lparr>gw_users := d\<rparr>)) \<Longrightarrow> keeps P (on_users m)"
  by (rule keepsI) (auto simp: on_users_def zoom_def split: prod.splits)

lemma keeps_on_node:
  "(\<And>g a. P g \<Longrightarrow> P (g\<lparr>gw_node := a\<rparr>)) \<Longrightarrow> keeps P (on_node m)"
  by (rule keepsI) (auto simp: on_node_def zoom_def split: prod.splits)

section \<open>Metrics\<close>

definition grown :: "metric list \<Rightarrow> ('r, 'b, 'd) gateway \<Rightarrow> bool" where
  "grown ms g \<longleftrightarrow> (\<exists>xs. gw_metrics g = ms @ xs \<and> list_all (\<lambda>m. \<not> request_metric m) xs)"

lemma grown_inner: "keeps (grown ms) (auth_dispatch E rd request (inner_chain E rd request))"
proof -
  have obs: "keeps (grown ms) (observe m)" if "\<not> request_metric m" for m
    using that by (intro keeps_observe) (auto simp: grown_def)
  have redis: "keeps (grown ms) (on_redis m)" for m :: "('r, 'x) io"
    by (rule keeps_redis_only) (simp add: grown_def)
  have node: "keeps (grown ms) (on_node m)" for m :: "(('r, 'b) node, 'x) io"
    by (rule keeps_on_node) (simp add: grown_def)
  have users: "keeps (grown ms) (on_users m)" for m :: "('d, 'x) io"
    by (rule keeps_on_users) (simp add: grown_def)
  have state: "keeps (grown ms) (set_state f)" for f
    by (rule keeps_set_state) (simp add: grown_def)
  show ?thesis
    by (intro auth_keeps abuse_keeps [where Y = UNIV] route_keeps register_keeps login_keeps obs redis node users state) simp_all
qed

section \<open>The server\<close>

text \<open>
  A predicate of the server that is framed on the keys of the services and survives the throttle's
  sleep is preserved by the part of the chain behind the limiter, and by the whole chain if it is
  framed on the limiter's keys too.
\<close>

lemma behind_keeps_store:
  fixes E :: "('r, 'b, 'd) env"
  assumes F: "framed (e_redis E) K P" and K: "\<And>k. behavioural k \<Longrightarrow> K k"
    and wait: "\<And>s. P s \<Longrightarrow> P (e_elapse E (throttle_delay_seconds * 1000) s)"
    and hard: "\<And>ip u. rq_endpoint request = BlockIp ip \<Longrightarrow> require_admin E rd request = Inr u \<Longrightarrow>
        keeps P (r_sadd (e_redis E) ''known_bad_ips'' ip)"
      "\<And>a u. rq_endpoint request = BlockAgent a \<Longrightarrow> require_admin E rd request = Inr u \<Longrightarrow>
        keeps P (r_sadd (e_redis E) ''abusive_agents'' a)"
  shows "keeps (\<lambda>g :: ('r, 'b, 'd) gateway. P (store (gw_node g))) (abuse_detector_dispatch E rd
      (shadow_mode_dispatch E rd request (handle_exceptions (route E rd request))))"
    (is "keeps ?P _")
proof -
  have users: "keeps ?P (on_users m)" for m :: "('d, 'x) io" by (rule keeps_on_users) simp
  have obs: "keeps ?P (observe m)" for m by (rule keeps_observe) simp
  have state: "keeps ?P (set_state f)" for f by (rule keeps_set_state) simp
  have sleep: "keeps P (apply_throttle (sleep_on E))"
    unfolding apply_throttle_def sleep_on_def using wait by (intro keepsI) (auto simp: modify_def)
  have zoom: "keeps ?P (on_node (bind (on_store m) (\<lambda>_. on_bloom n)))" if "keeps P m"
    for m :: "('r, 'x) io" and n :: "('b bloom_service, unit) io"
    unfolding on_node_def on_store_def on_bloom_def
    by (rule keeps_zoom [where P' = "\<lambda>n. P (store n)"], simp, simp,
        rule keeps_bind, rule keeps_zoom [where P' = P], simp, simp, rule that,
        rule keeps_zoom [where P' = "\<lambda>_. True"]) (simp_all add: safe_def)
  show ?thesis
    by (intro abuse_keeps [where Y = UNIV] route_keeps register_keeps login_keeps keeps_on_redis users obs state sleep services_keep [OF F K] framed_reads [OF F])
      (use hard in \<open>auto simp: add_ip_to_redis_def add_agent_to_redis_def intro: zoom\<close>)
qed

lemma keeps_store:
  fixes E :: "('r, 'b, 'd) env"
  assumes F: "framed (e_redis E) K P" and K: "\<And>k. behavioural k \<Longrightarrow> K k" "\<And>x. K (rate_key x)"
    and wait: "\<And>s. P s \<Longrightarrow> P (e_elapse E (throttle_delay_seconds * 1000) s)"
    and hard: "\<And>ip u. rq_endpoint request = BlockIp ip \<Longrightarrow> require_admin E rd request = Inr u \<Longrightarrow>
        keeps P (r_sadd (e_redis E) ''known_bad_ips'' ip)"
      "\<And>a u. rq_endpoint request = BlockAgent a \<Longrightarrow> require_admin E rd request = Inr u \<Longrightarrow>
        keeps P (r_sadd (e_redis E) ''abusive_agents'' a)"
  shows "keeps (\<lambda>g :: ('r, 'b, 'd) gateway. P (store (gw_node g))) (auth_dispatch E rd request (inner_chain E rd request))"
  by (intro auth_keeps behind_keeps_store [OF F K(1) wait hard] keeps_on_redis limiter_keeps [OF F K(2)]
      keeps_observe keeps_set_state) simp_all

section \<open>The block lists\<close>

lemma not_behavioural [simp]: "\<not> behavioural ''known_bad_ips''" "\<not> behavioural ''abusive_agents''"
  "\<not> behavioural (rate_key x)" "rate_key x \<noteq> ''known_bad_ips''" "rate_key x \<noteq> ''abusive_agents''"
  by (auto simp: behavioural_def rate_key_def failed_auth_key_def request_times_key_def block_key_def shadow_log_key_def)

lemma keeps_listed:
  fixes E :: "('r, 'b, 'd) env"
  assumes T: "timed_redis (e_redis E) view (e_elapse E)" and k: "k \<in> {''known_bad_ips'', ''abusive_agents''}"
    and e: "\<And>v d. e \<noteq> Some (v, Some d)"
    and hard: "\<And>ip u. rq_endpoint request = BlockIp ip \<Longrightarrow> require_admin E rd request \<noteq> Inr u"
      "\<And>a u. rq_endpoint request = BlockAgent a \<Longrightarrow> require_admin E rd request \<noteq> Inr u"
  shows "keeps (\<lambda>g. entry (view (store (gw_node g))) k = e)
           (auth_dispatch E rd request (inner_chain E rd request))"
proof (rule keeps_store [where P = "\<lambda>s. entry (view s) k = e"])
  show "framed (e_redis E) (\<lambda>k'. k' \<notin> {k}) (\<lambda>s. entry (view s) k = e)"
    using T by (intro redis_server.framed_entry) (simp add: timed_redis_def)
  show "entry (view (e_elapse E (throttle_delay_seconds * 1000) s)) k = e" if "entry (view s) k = e" for s
    using that e by (auto simp: timed_redis.elapse_law [OF T] throttle_delay_seconds_def entry_elapse split: option.splits)
  show "k' \<notin> {k}" if "behavioural k'" for k' using that k by auto
  show "rate_key x \<notin> {k}" for x using k by auto
qed (use hard in blast)+

lemma keeps_filters:
  fixes E :: "('r, 'b, 'd) env"
  assumes hard: "\<And>ip u. rq_endpoint request = BlockIp ip \<Longrightarrow> require_admin E rd request = Inr u \<Longrightarrow>
        keeps (\<lambda>g. P (bloom (gw_node g))) (on_node (add_ip_to_redis (e_bloom E) (e_redis E) ip) :: (('r, 'b, 'd) gateway, unit) io)"
      "\<And>a u. rq_endpoint request = BlockAgent a \<Longrightarrow> require_admin E rd request = Inr u \<Longrightarrow>
        keeps (\<lambda>g. P (bloom (gw_node g))) (on_node (add_agent_to_redis (e_bloom E) (e_redis E) a) :: (('r, 'b, 'd) gateway, unit) io)"
  shows "keeps (\<lambda>g. P (bloom (gw_node g))) (auth_dispatch E rd request (inner_chain E rd request))"
    (is "keeps ?P _")
proof -
  have users: "keeps ?P (on_users m)" for m :: "('d, 'x) io" by (rule keeps_on_users) simp
  have obs: "keeps ?P (observe m)" for m by (rule keeps_observe) simp
  have state: "keeps ?P (set_state f)" for f by (rule keeps_set_state) simp
  have redis: "keeps ?P (on_redis m)" for m :: "('r, 'x) io" by (rule keeps_redis_only) simp
  show ?thesis
    by (intro auth_keeps abuse_keeps [where Y = UNIV] route_keeps register_keeps login_keeps users obs state redis hard) simp_all
qed

lemma add_ip_keeps_ip:
  assumes L: "membership_filter L"
  shows "keeps (\<lambda>g. might_contain_ip L (bloom (gw_node g)) x) (on_node (add_ip_to_redis L R ip))"
    and "keeps (\<lambda>g. might_contain_ip L (bloom (gw_node g)) x) (on_node (add_agent_to_redis L R a))"
  using membership_filter.keep_law [OF L]
  by (intro keepsI; auto simp: on_node_def zoom_def add_ip_to_redis_def add_agent_to_redis_def
        add_ip_def add_agent_def on_store_def on_bloom_def bind_def might_contain_ip_def
        split: prod.splits sum.splits)+

lemma handle_requests_keep:
  assumes step: "\<And>rd request g r g'. (rd, request) \<in> set rqs \<Longrightarrow> P g \<Longrightarrow>
      handle_request E rd request g = (r, g') \<Longrightarrow> P g'"
    and "P g" and "handle_requests E rqs g = (rs, h)"
  shows "P h"
  using assms
proof (induction rqs arbitrary: g rs)
  case (Cons a rqs)
  obtain rd request where a: "a = (rd, request)" by fastforce
  obtain r g' where r: "handle_request E rd request g = (r, g')" by fastforce
  obtain rs' where "handle_requests E rqs g' = (rs', h)" using Cons.prems(3) r a by (auto split: prod.splits)
  with Cons.IH [of g' rs'] Cons.prems(1,2) r a show ?case by (metis list.set_intros)
qed simp

lemma handle_keeps_filters:
  assumes L: "membership_filter (e_bloom E)"
    and "handle_request E rd request g = (r, g')" and "might_contain_ip (e_bloom E) (bloom (gw_node g)) x"
  shows "might_contain_ip (e_bloom E) (bloom (gw_node g')) x"
  by (rule handle_keeps [OF keeps_filters [where P = "\<lambda>b. might_contain_ip (e_bloom E) b x"]])
    (use assms add_ip_keeps_ip [OF L] in auto)

lemma require_admin_errors:
  assumes "jwt_contract (e_jwt E)" and "require_admin E rd request = Inl e"
  shows "\<exists>code m hs. e = HTTPException PlainHTTP code m hs \<and> code \<in> {401, 403}"
proof -
  have "\<exists>v. decode_access_token (e_jwt E) (e_settings E) (rd_admin_s rd) t = Inr v" for t
    using jwt_contract.decode_total [OF assms(1)] by blast
  then show ?thesis
    using assms(2)
    by (auto simp: require_admin_def Let_def split: list.splits if_splits sum.splits option.splits)
      (metis sum.distinct(1))+
qed

lemma add_ip_errors:
  assumes R: "redis_server R view" and L: "membership_filter L"
    and "add_ip_to_redis L R ip s = (Inl e, s')"
  shows "e \<in> {ResponseError, IndexError}"
proof -
  obtain q s1 where q: "r_sadd R ''known_bad_ips'' ip (store s) = (q, s1)" by fastforce
  have "ks_sadd ''known_bad_ips'' ip (view (store s)) = (q, view s1)"
    using simulatesD [OF redis_server.sadd_law [OF R] q] .
  then show ?thesis
    using assms(3) q
    by (auto simp: add_ip_to_redis_def bind_def on_store_def on_bloom_def zoom_def ks_sadd_def add_ip_def
        split: sum.splits option.splits rval.splits if_splits dest: membership_filter.raise_law [OF L])
qed

lemma block_ip_answer:
  assumes J: "jwt_contract (e_jwt E)" and L: "membership_filter (e_bloom E)"
    and R: "redis_server (e_redis E) view" and ep: "rq_endpoint request = BlockIp ip"
  shows "hoare (\<lambda>s. True) (handle_exceptions (route E rd request))
     (\<lambda>r g. status_code r = 200 \<longrightarrow> might_contain_ip (e_bloom E) (bloom (gw_node g)) ip)"
proof (cases "require_admin E rd request")
  case (Inl e)
  then show ?thesis
    using require_admin_errors [OF J Inl]
    by (auto simp: hoare_def handle_exceptions_def route_def ep admin_only_def try_except_def bind_def
        lift_result_def ret_def json_response_def)
next
  case (Inr u)
  have "might_contain_ip (e_bloom E) (bloom n) ip"
    if "add_ip_to_redis (e_bloom E) (e_redis E) ip m = (Inr (), n)" for m n
    using that membership_filter.add_law [OF L]
    by (auto simp: add_ip_to_redis_def bind_def on_store_def on_bloom_def zoom_def add_ip_def
        might_contain_ip_def split: prod.splits sum.splits)
  with Inr show ?thesis
    using add_ip_errors [OF R L]
    by (fastforce simp: hoare_def handle_exceptions_def route_def ep admin_only_def try_except_def bind_def
        lift_result_def ret_def raise_exn_def block_ip_def on_node_def zoom_def split: prod.splits sum.splits)
qed

lemma block_request_blocks:
  assumes J: "jwt_contract (e_jwt E)" and L: "membership_filter (e_bloom E)"
    and R: "redis_server (e_redis E) view" and ep: "rq_endpoint request = BlockIp ip"
    and run: "handle_request E rd request g = (r, g')" and ok: "status_code r = 200"
  shows "might_contain_ip (e_bloom E) (bloom (gw_node g')) ip"
proof -
  let ?Q = "\<lambda>r g. status_code r = 200 \<longrightarrow> might_contain_ip (e_bloom E) (bloom (gw_node g)) ip"
  have "hoare (\<lambda>s. True) (chain E rd request) ?Q"
  proof (rule chain_answers [OF _ _ _ _ _ block_ip_answer [OF J L R ep]])
    show "keeps (?Q r) (observe m)" for r m by (rule keeps_observe) simp
    show "keeps (?Q r) (on_redis m)" for r and m :: "('r, 'x) io" by (rule keeps_redis_only) simp
    then show "keeps (?Q r) (on_redis m)" for r and m :: "('r, 'x) io" .
  qed (auto simp: json_response_def)
  then show ?thesis
    using run ok
    by (auto simp: handle_request_def internal_server_error_def hoare_def split: prod.splits sum.splits)
qed

section \<open>Properties\<close>

text \<open>
  C23. Every answer is tagged and counted, except the ones nobody sees coming: the answer to a
  request either carries its own \<open>X-Request-ID\<close> and is recorded last, as a duration and one count
  under its status and route, or it is the server's 500 and was not recorded at all; in both cases
  the metrics recorded before stay, and nothing else counts as a request.
\<close>

theorem answers_are_tagged_and_counted:
  assumes "handle_request E rd request g = (r, g')"
  shows "\<exists>ms. list_all (\<lambda>m. \<not> request_metric m) ms \<and>
     (map_of (rs_headers r) ''x-request-id'' = Some (rd_uuid rd) \<and>
      gw_metrics g' = gw_metrics g @ ms @ [RequestDuration (rd_duration rd),
         RequestsTotal (show_int (status_code r)) (url_path request)] \<or>
      r = internal_server_error \<and> gw_metrics g' = gw_metrics g @ ms)"
proof -
  obtain r1 h where run: "auth_dispatch E rd request (inner_chain E rd request)
      (g\<lparr>gw_state := fresh_state\<lparr>st_request_id := Some (rd_uuid rd)\<rparr>\<rparr>) = (r1, h)" by fastforce
  moreover have "grown (gw_metrics g) (g\<lparr>gw_state := fresh_state\<lparr>st_request_id := Some (rd_uuid rd)\<rparr>\<rparr>)"
    by (simp add: grown_def)
  ultimately have "grown (gw_metrics g) h" by (rule keepsD [OF grown_inner])
  then obtain ms where "gw_metrics h = gw_metrics g @ ms" "list_all (\<lambda>m. \<not> request_metric m) ms"
    by (auto simp: grown_def)
  moreover have "py_lower ''X-Request-ID'' = ''x-request-id''" by code_simp
  ultimately show ?thesis
    using assms run
    by (cases r1; intro exI [of _ ms]) (auto simp: handle_request_inner set_header_def map_of_header_put)
qed

theorem answers_are_tagged_and_counted_witness:
  "\<exists>ms. gw_metrics (snd (handle_request demo_env demo_readings (demo_request Proxy ''1.1.1.1'' []) demo_gateway)) =
     ms @ [RequestDuration 0, RequestsTotal ''401'' ''/gateway/proxy'']"
proof -
  let ?rq = "demo_request Proxy ''1.1.1.1'' []"
  have s: "status_code (fst (handle_request demo_env demo_readings ?rq demo_gateway)) = 401" by code_simp
  have t: "show_int 401 = ''401''" by code_simp
  obtain r g' where r: "handle_request demo_env demo_readings ?rq demo_gateway = (r, g')" by fastforce
  show ?thesis
    using answers_are_tagged_and_counted [OF r] s
    by (auto simp: r t internal_server_error_def url_path_def)
qed

text \<open>
  C1. Without a valid token nothing happens: on a path that is not public, when no word of the
  \<open>Authorization\<close> header is a token the library accepts, the answer is 401 with a \<open>Bearer\<close> challenge,
  and Redis, the filters and the users are exactly as before.
\<close>

theorem unauthenticated_requests_change_nothing:
  assumes "jwt_contract (e_jwt E)" and "url_path request \<notin> set public_paths"
    and "\<And>t. t \<in> set (py_split_sep (CHR '' '') (header_get request ''Authorization'' [])) \<Longrightarrow>
        \<forall>cl. jwt_decode (e_jwt E) t (secret_key (e_settings E)) (rd_auth_s rd) \<noteq> Inr cl"
    and "handle_request E rd request g = (r, g')"
  shows "status_code r = 401 \<and> map_of (rs_headers r) ''www-authenticate'' = Some ''Bearer'' \<and>
         gw_node g' = gw_node g \<and> gw_users g' = gw_users g"
proof -
  obtain m where "auth_dispatch E rd request (inner_chain E rd request)
      (g\<lparr>gw_state := fresh_state\<lparr>st_request_id := Some (rd_uuid rd)\<rparr>\<rparr>) =
    (Inr (not_authenticated m), g\<lparr>gw_state := fresh_state\<lparr>st_request_id := Some (rd_uuid rd)\<rparr>\<rparr>)"
    using auth_rejects [OF assms(1,2,3)] by blast
  moreover have "py_lower ''X-Request-ID'' = ''x-request-id''" "py_lower ''WWW-Authenticate'' = ''www-authenticate''"
    by code_simp+
  ultimately show ?thesis
    using assms(4)
    by (auto simp: handle_request_inner not_authenticated_def json_response_def set_header_def map_of_header_put)
qed

theorem unauthenticated_requests_change_nothing_witness:
  "status_code (fst (handle_request demo_env demo_readings
     (demo_request Proxy ''1.1.1.1'' [(''authorization'', ''Bearer x y'')]) demo_gateway)) = 401"
proof -
  let ?rq = "demo_request Proxy ''1.1.1.1'' [(''authorization'', ''Bearer x y'')]"
  have words: "py_split_sep (CHR '' '') (header_get ?rq ''Authorization'' []) = [''Bearer'', ''x'', ''y'']" by code_simp
  have bad: "jwt_decode ref_jwt ''Bearer'' ''key'' 0 = Inl JWTError" "jwt_decode ref_jwt ''x'' ''key'' 0 = Inl JWTError"
    "jwt_decode ref_jwt ''y'' ''key'' 0 = Inl JWTError" by code_simp+
  obtain r g' where r: "handle_request demo_env demo_readings ?rq demo_gateway = (r, g')" by fastforce
  have "status_code r = 401 \<and> map_of (rs_headers r) ''www-authenticate'' = Some ''Bearer'' \<and>
        gw_node g' = gw_node demo_gateway \<and> gw_users g' = gw_users demo_gateway"
    by (rule unauthenticated_requests_change_nothing [OF _ _ _ r])
      (auto simp: jwt_contract_ref words bad url_path_def public_paths_def)
  then show ?thesis by (simp add: r)
qed



text \<open>
  A hard block is permanent: once a request to block an address was answered 200, every request
  from that address in any later sequence of requests, whoever makes the others and whatever they
  do, is answered 401 or 403.
\<close>

lemma hard_block_is_permanent:
  assumes "jwt_contract (e_jwt E)" and "membership_filter (e_bloom E)" and "redis_server (e_redis E) view"
    and "rq_endpoint request = BlockIp ip" and "handle_request E rd request g = (r, g')" and "status_code r = 200"
    and "handle_requests E rqs g' = (rs, h)"
  shows "list_all2 (\<lambda>(rd, rq) r. attr_or (rq_client rq) ''unknown'' = ip \<longrightarrow> status_code r \<in> {401, 403}) rqs rs"
proof -
  have "might_contain_ip (e_bloom E) (bloom (gw_node g')) ip"
    by (rule block_request_blocks [OF assms(1-6)])
  then show ?thesis
    using assms(7)
  proof (induction rqs arbitrary: g' rs)
    case (Cons a rqs)
    obtain rd1 rq where a: "a = (rd1, rq)" by fastforce
    obtain r1 g1 where 1: "handle_request E rd1 rq g' = (r1, g1)" by fastforce
    obtain rs1 where rs: "rs = r1 # rs1" "handle_requests E rqs g1 = (rs1, h)"
      using Cons.prems(2) 1 a by (auto split: prod.splits)
    have "attr_or (rq_client rq) ''unknown'' = ip \<longrightarrow> status_code r1 \<in> {401, 403}"
      using blocked_ip_answer [OF assms(1) _ 1] Cons.prems(1) by blast
    then show ?case
      using Cons.IH [OF handle_keeps_filters [OF assms(2) 1 Cons.prems(1)] rs(2)] by (simp add: rs(1) a)
  qed simp
qed

lemma hard_block_is_permanent_example:
  "status_code (hd (fst (handle_requests demo_env [(demo_readings, demo_request Proxy ''6.6.6.6'' [])]
     (snd (handle_request demo_env demo_readings (admin_request (BlockIp ''6.6.6.6'') ''1.1.1.1'') demo_gateway)))))
   \<in> {401, 403}"
proof -
  obtain r g' where r: "handle_request demo_env demo_readings
      (admin_request (BlockIp ''6.6.6.6'') ''1.1.1.1'') demo_gateway = (r, g')" "status_code r = 200"
    by (rule demo_block) blast
  obtain rs h where rs: "handle_requests demo_env [(demo_readings, demo_request Proxy ''6.6.6.6'' [])] g' = (rs, h)"
    by fastforce
  have "list_all2 (\<lambda>(rd, rq) r. attr_or (rq_client rq) ''unknown'' = ''6.6.6.6'' \<longrightarrow> status_code r \<in> {401, 403})
      [(demo_readings, demo_request Proxy ''6.6.6.6'' [])] rs"
    by (rule hard_block_is_permanent [where view = "\<lambda>ks. ks", OF _ _ _ _ r(1) _ rs])
      (use r(2) in \<open>simp_all add: jwt_contract_ref char_sums_filter redis_server_ks\<close>)
  then show ?thesis by (cases rs) (auto simp: r rs simp del: handle_requests.simps)
qed

text \<open>
  C2. Only an administrator's block request hard-blocks: any other request, or one whose token does
  not carry the admin role, leaves both stored lists and both filters as they were. In particular
  nothing escalates an abusive client to a hard block.
\<close>

theorem only_admins_change_the_block_lists:
  assumes "timed_redis (e_redis E) view (e_elapse E)"
    and "sets_are (view (store (gw_node g))) A B"
    and "(\<exists>ip. rq_endpoint request = BlockIp ip) \<or> (\<exists>a. rq_endpoint request = BlockAgent a) \<Longrightarrow>
         \<forall>u. require_admin E rd request \<noteq> Inr u"
    and "handle_request E rd request g = (r, g')"
  shows "sets_are (view (store (gw_node g'))) A B \<and> bloom (gw_node g') = bloom (gw_node g)"
proof -
  have hard: "\<And>ip u. rq_endpoint request = BlockIp ip \<Longrightarrow> require_admin E rd request \<noteq> Inr u"
    "\<And>a u. rq_endpoint request = BlockAgent a \<Longrightarrow> require_admin E rd request \<noteq> Inr u"
    using assms(3) by blast+
  have list: "entry (view (store (gw_node g'))) k = e"
    if "k \<in> {''known_bad_ips'', ''abusive_agents''}" "\<And>v d. e \<noteq> Some (v, Some d)" "entry (view (store (gw_node g))) k = e" for k e
    by (rule handle_keeps [OF keeps_listed [OF assms(1) that(1,2) hard] _ _ that(3) assms(4)]) simp_all
  have "bloom (gw_node g') = bloom (gw_node g)"
    by (rule handle_keeps [OF keeps_filters [where P = "\<lambda>b. b = bloom (gw_node g)"] _ _ _ assms(4)])
      (use hard in auto)
  then show ?thesis using assms(2) unfolding sets_are_def by (auto intro!: list)
qed

theorem only_admins_change_the_block_lists_witness:
  "sets_are (store (gw_node (snd (handle_request demo_env demo_readings
     (demo_request (BlockIp ''6.6.6.6'') ''1.1.1.1'' [(''Authorization'', ''Bearer '' @ demo_token ''eve'' ''user'')])
     demo_gateway)))) {||} {||}"
proof -
  let ?rq = "demo_request (BlockIp ''6.6.6.6'') ''1.1.1.1'' [(''Authorization'', ''Bearer '' @ demo_token ''eve'' ''user'')]"
  have no: "require_admin demo_env demo_readings ?rq \<noteq> Inr u" for u
    by (subst canonical_admin [OF demo_header(1)]) (simp_all add: demo_token_ok admin_of_token_def)
  obtain r g' where r: "handle_request demo_env demo_readings ?rq demo_gateway = (r, g')" by fastforce
  have "sets_are (store (gw_node g')) {||} {||} \<and> bloom (gw_node g') = bloom (gw_node demo_gateway)"
    by (rule only_admins_change_the_block_lists [OF _ _ _ r])
      (rule allI, rule no | simp add: timed_redis_ks sets_are_def)+
  then show ?thesis unfolding r by simp
qed

end
