(* ===== verification/Protection.thy ===== *)
theory Protection
  imports Frames Demo
begin

text \<open>
  The protection of one request, end to end: the token both checks read, the verdict of the abuse
  detector on any healthy server, what shadow mode does and does not switch off, the rate limit's
  and the soft block's answers, the health check without Redis, and the startup.
\<close>

section \<open>The verdict on a healthy server\<close>

lemma verdict_view:
  assumes R: "redis_server R view" and S: "thresholds_ok S"
    and c: "counter_ok (view s) ip" "counter_ok (view s) c" and f: "flag_ok (view s)"
    and ts: "samples_at (view s) c ts d" "\<forall>t \<in> set ts. t < now"
  obtains s' where
    "abuse_verdict R S now ip c s =
       (Inr (verdict S (view s) ip c (last_n (nat (scraping_sample_size S)) (ts @ [now])), shadow_flag S (view s)), s')"
    and "know (view s') = know (view s)"
    and "samples_at (view s') c (last_n (nat (scraping_sample_size S)) (ts @ [now])) (know (view s) + 3600 * 1000)"
    and "blocked (view s') ip \<longleftrightarrow>
      fst (verdict S (view s) ip c (last_n (nat (scraping_sample_size S)) (ts @ [now]))) = SOFT_BLOCK"
    and "\<And>k. k \<noteq> request_times_key c \<Longrightarrow> k \<noteq> block_key ip \<Longrightarrow> entry (view s') k = entry (view s) k"
proof -
  obtain ks' where ks': "abuse_verdict ks_redis S now ip c (view s) =
       (Inr (verdict S (view s) ip c (last_n (nat (scraping_sample_size S)) (ts @ [now])), shadow_flag S (view s)), ks')"
    and rest: "know ks' = know (view s)"
    "samples_at ks' c (last_n (nat (scraping_sample_size S)) (ts @ [now])) (know (view s) + 3600 * 1000)"
    "blocked ks' ip \<longleftrightarrow> fst (verdict S (view s) ip c (last_n (nat (scraping_sample_size S)) (ts @ [now]))) = SOFT_BLOCK"
    "\<And>k. k \<noteq> request_times_key c \<Longrightarrow> k \<noteq> block_key ip \<Longrightarrow> entry ks' k = entry (view s) k"
    by (rule verdict_run [OF S c ts(1) _ f]) (use ts(2) in blast)+
  obtain s' where "abuse_verdict R S now ip c s =
       (Inr (verdict S (view s) ip c (last_n (nat (scraping_sample_size S)) (ts @ [now])), shadow_flag S (view s)), s')"
    "view s' = ks'"
    using simulates_run [OF redis_server.sim_abuse_verdict [OF R] ks'] by blast
  then show thesis using rest by (intro that [of s']) simp_all
qed

lemma public_auth:
  "url_path request \<in> set public_paths \<Longrightarrow>
   auth_dispatch E rd request next g =
     next (g\<lparr>gw_state := (gw_state g)\<lparr>st_client_id := Some ''anonymous''\<rparr>\<rparr>)"
  by (simp add: auth_dispatch_def bind_def set_state_run)

lemma rate_excluded:
  "url_path request \<in> set excluded_paths \<Longrightarrow> rate_limit_dispatch E rd request next = next"
  by (simp add: rate_limit_dispatch_def)

text \<open>The request of an exempt path, up to the abuse detector.\<close>

lemma exempt_request:
  assumes "url_path request \<in> set public_paths" and "url_path request \<in> set excluded_paths"
    and "unlisted E request (bloom (gw_node g))"
  shows "auth_dispatch E rd request (inner_chain E rd request)
      (g\<lparr>gw_state := fresh_state\<lparr>st_request_id := Some (rd_uuid rd)\<rparr>\<rparr>) =
    abuse_detector_dispatch E rd (shadow_mode_dispatch E rd request (handle_exceptions (route E rd request)))
      (g\<lparr>gw_state := seen request (fresh_state\<lparr>st_request_id := Some (rd_uuid rd), st_client_id := Some ''anonymous''\<rparr>)\<rparr>)"
  using assms by (simp add: public_auth inner_chain_def bloom_passes rate_excluded)

lemma seen_sel [simp]:
  "st_client_ip (seen request st) = Some (attr_or (rq_client request) ''unknown'')"
  "st_client_id (seen request st) = st_client_id st" "st_shadow_rule (seen request st) = st_shadow_rule st"
  "st_request_id (seen request st) = st_request_id st"
  by (simp_all add: seen_def)

section \<open>Startup on a healthy server\<close>

lemma startup_run:
  assumes "redis_server (e_redis E) view" and "membership_filter (e_bloom E)"
    and "bad_sets (view s) = Some (A, B)"
    and "int (fcard A) \<le> bloom_filter_capacity (e_settings E)" and "int (fcard B) \<le> bloom_filter_capacity (e_settings E)"
    and "filter_options_ok (e_settings E)"
  shows "\<exists>b s'. startup E s = (Inr b, s') \<and> view s' = view s \<and>
    (\<forall>ip. ip |\<in>| A \<longrightarrow> might_contain_ip (e_bloom E) b ip) \<and>
    (\<forall>a. a |\<in>| B \<longrightarrow> might_contain_agent (e_bloom E) b a) \<and>
    loaded_ip_count b = int (fcard A) \<and> loaded_agent_count b = int (fcard B)"
proof -
  obtain s1 where p: "r_ping (e_redis E) s = (Inr True, s1)" "view s1 = view s"
    using simulates_run [OF redis_server.ping_law [OF assms(1)], of s "Inr True" "view s"] by (auto simp: ks_ping_def ret_def)
  have "[1..<max_retries + 1] = 1 # [2..<max_retries + 1]"
    by (simp add: max_retries_def upt_rec)
  then have c: "create_redis_client (r_ping (e_redis E)) sleep s = (Inr (), s1)" for sleep
    using p(1) by (simp add: create_redis_client_def)
  let ?n = "\<lparr>store = s1, bloom = bloom_filter_service (e_bloom E) (e_settings E)\<rparr>"
  have "bad_sets (view (store ?n)) = Some (A, B)" using p(2) assms(3) by simp
  from sync_success [OF assms(1,2) this assms(4,5)]
  obtain t where "sync_from_redis (e_bloom E) (e_settings E) (e_redis E) ?n = (Inr (int (fcard A) + int (fcard B)), t)"
    "view (store t) = view s"
    "loaded_ip_count (bloom t) = int (fcard A)" "loaded_agent_count (bloom t) = int (fcard B)"
    "\<And>ip. ip |\<in>| A \<Longrightarrow> might_contain_ip (e_bloom E) (bloom t) ip"
    "\<And>a. a |\<in>| B \<Longrightarrow> might_contain_agent (e_bloom E) (bloom t) a"
    using p(2) by auto
  then show ?thesis using assms(6) by (simp add: startup_def Let_def bind_def lift_result_def create_bloom_filter_service_def c)
qed

section \<open>Properties\<close>

text \<open>
  C27. Both token checks read the same token: whenever the middleware finds a token without white
  space in the header, however the header is spaced, it lets the request through exactly on that
  token's claims, and \<open>require_admin\<close> decides on exactly that token too, or refuses a header with
  further words.
\<close>

theorem both_checks_read_one_token:
  assumes "url_path request \<notin> set public_paths"
    and "py_startswith (header_get request ''Authorization'' []) ''Bearer ''"
    and "list_item (py_split_sep (CHR '' '') (header_get request ''Authorization'' [])) 1 = Inr token"
    and "token \<noteq> []" and "list_all token_char token"
  shows "auth_dispatch E rd request next g =
      (case decode_access_token (e_jwt E) (e_settings E) (rd_auth_s rd) token of
         Inl e \<Rightarrow> (Inl e, g)
       | Inr None \<Rightarrow> (Inr (not_authenticated ''Invalid or expired token''), g)
       | Inr (Some cl) \<Rightarrow> next (g\<lparr>gw_state := (gw_state g)\<lparr>st_client_id := Some (claim_text ''sub'' ''unknown'' cl)\<rparr>\<rparr>)) \<and>
    require_admin E rd request =
      (if length (py_split_ws (header_get request ''Authorization'' [])) = 2 then admin_of_token E rd token
       else Inl (HTTPException PlainHTTP 401 ''Not authenticated'' [(''WWW-Authenticate'', ''Bearer'')]))"
proof
  show "auth_dispatch E rd request next g =
      (case decode_access_token (e_jwt E) (e_settings E) (rd_auth_s rd) token of
         Inl e \<Rightarrow> (Inl e, g)
       | Inr None \<Rightarrow> (Inr (not_authenticated ''Invalid or expired token''), g)
       | Inr (Some cl) \<Rightarrow> next (g\<lparr>gw_state := (gw_state g)\<lparr>st_client_id := Some (claim_text ''sub'' ''unknown'' cl)\<rparr>\<rparr>))"
    using assms(1-3)
    by (simp add: auth_dispatch_def Let_def bind_def lift_result_def ret_def set_state_run split: sum.splits option.splits)
  obtain ws where "py_split_ws (header_get request ''Authorization'' []) = ''Bearer'' # token # ws"
    by (rule bearer_words [OF assms(2-5)])
  then show "require_admin E rd request =
      (if length (py_split_ws (header_get request ''Authorization'' [])) = 2 then admin_of_token E rd token
       else Inl (HTTPException PlainHTTP 401 ''Not authenticated'' [(''WWW-Authenticate'', ''Bearer'')]))"
    by (simp add: admin_words)
qed

theorem both_checks_read_one_token_witness:
  "require_admin demo_env demo_readings (demo_request ShadowStats ''1.1.1.1'' [(''Authorization'', ''Bearer x  y'')]) =
   Inl (HTTPException PlainHTTP 401 ''Not authenticated'' [(''WWW-Authenticate'', ''Bearer'')])"
proof -
  let ?rq = "demo_request ShadowStats ''1.1.1.1'' [(''Authorization'', ''Bearer x  y'')]"
  have w: "py_split_ws ''Bearer x  y'' = [''Bearer'', ''x'', ''y'']"
    "list_item (py_split_sep (CHR '' '') ''Bearer x  y'') 1 = Inr ''x''" "py_startswith ''Bearer x  y'' ''Bearer ''"
    "list_all token_char ''x''" by code_simp+
  have "require_admin demo_env demo_readings ?rq =
      (if length (py_split_ws (header_get ?rq ''Authorization'' [])) = 2 then admin_of_token demo_env demo_readings ''x''
       else Inl (HTTPException PlainHTTP 401 ''Not authenticated'' [(''WWW-Authenticate'', ''Bearer'')]))"
    by (rule conjunct2 [OF both_checks_read_one_token]) (use w in \<open>simp_all add: demo_header url_path_def public_paths_def\<close>)
  then show ?thesis by (simp add: demo_header w)
qed

text \<open>
  C28. The switch works: after an administrator's \<open>set_shadow_mode\<close>, which always answers on a healthy
  server, every instance reads exactly the value that was set, at any later time and whatever its
  own setting is.
\<close>

theorem shadow_switch_round_trip:
  assumes "timed_redis (e_redis E) view (e_elapse E)" and "0 \<le> d"
  shows "\<exists>g'. set_shadow_mode E b g =
      (Inr (json_response 200 (JObj [(''shadow_mode_enabled'', JBool b)]) []), g') \<and>
    fst (is_shadow_mode_enabled (e_redis E) fallback (e_elapse E d (store (gw_node g')))) = Inr b"
proof -
  have R: "redis_server (e_redis E) view" using assms(1) by (simp add: timed_redis_def)
  let ?v = "py_lower (py_bool_str b)"
  let ?ks = "put flag_key (RStr ?v) None (view (store (gw_node g)))"
  have "ks_set flag_key ?v None (view (store (gw_node g))) = (Inr (), ?ks)" by (simp add: ks_set_def)
  from simulates_run [OF redis_server.set_law [OF R] this]
  obtain a where a: "r_set (e_redis E) flag_key ?v None (store (gw_node g)) = (Inr (), a)" "view a = ?ks" by blast
  have "set_shadow_mode E b g =
      (Inr (json_response 200 (JObj [(''shadow_mode_enabled'', JBool b)]) []), with_store a g)"
    using a(1) by (simp add: set_shadow_mode_def flag_key_def bind_def on_redis_eq ret_def)
  moreover have v: "py_lower ''true'' = ''true''" "py_lower ''false'' = ''false''" "py_lower ''True'' = ''true''"
    "py_lower ''False'' = ''false''" by code_simp+
  have "entry (view (e_elapse E d a)) flag_key = Some (RStr ?v, None)"
    using timed_redis.elapse_law [OF assms] a(2) assms(2) by (simp add: entry_elapse)
  then have "is_shadow_mode_enabled ks_redis fallback (view (e_elapse E d a)) = (Inr b, view (e_elapse E d a))"
    using v by (cases b) (simp_all add: is_shadow_mode_enabled_def ks_get_def flag_key_def bind_def ret_def py_bool_str_def)
  then have "fst (is_shadow_mode_enabled (e_redis E) fallback (e_elapse E d a)) = Inr b"
    using simulates_fst [OF redis_server.sim_is_shadow_mode_enabled [OF R]] by (metis fst_conv)
  ultimately show ?thesis by (intro exI [of _ "with_store a g"]) simp
qed

theorem shadow_switch_round_trip_witness:
  "\<exists>g'. set_shadow_mode demo_env False demo_gateway =
      (Inr (json_response 200 (JObj [(''shadow_mode_enabled'', JBool False)]) []), g') \<and>
    fst (is_shadow_mode_enabled ks_redis True (ks_elapse 86400000 (store (gw_node g')))) = Inr False"
  using shadow_switch_round_trip [of demo_env "\<lambda>ks. ks" 86400000 False demo_gateway True] by (simp add: timed_redis_ks)

text \<open>
  C7. The middleware's verdict is the decision table on the exact signals: on any healthy server,
  from well-formed counters and the client's last stamps, \<open>abuse_verdict\<close> returns the verdict on the
  failure counts of the address and the client and on the entropy of the last stamps with this
  request's, and the run-time flag; the address is blocked afterwards exactly if it was before or the
  table soft-blocks it, and no key but the client's stamps and the address's block changes.
\<close>

theorem verdict_refines_decision_table:
  assumes "redis_server R view" and "thresholds_ok S"
    and "counter_ok (view s) ip" and "counter_ok (view s) c" and "flag_ok (view s)"
    and "samples_at (view s) c ts d" and "\<forall>t \<in> set ts. t < now"
  shows "\<exists>s'. abuse_verdict R S now ip c s =
      (Inr (if blocked (view s) ip then (SOFT_BLOCK, ''existing_soft_block'')
            else decision (failures (view s) ip) (failures (view s) c)
                   (entropy_of (last_n (nat (scraping_sample_size S)) (ts @ [now])))
                   (auth_failure_ip_threshold S) (auth_failure_user_threshold S) (scraping_entropy_threshold S),
            shadow_flag S (view s)), s') \<and>
    samples_at (view s') c (last_n (nat (scraping_sample_size S)) (ts @ [now])) (know (view s) + 3600 * 1000) \<and>
    (blocked (view s') ip \<longleftrightarrow> blocked (view s) ip \<or>
       fst (decision (failures (view s) ip) (failures (view s) c)
              (entropy_of (last_n (nat (scraping_sample_size S)) (ts @ [now])))
              (auth_failure_ip_threshold S) (auth_failure_user_threshold S) (scraping_entropy_threshold S)) = SOFT_BLOCK) \<and>
    (\<forall>k. k \<noteq> request_times_key c \<longrightarrow> k \<noteq> block_key ip \<longrightarrow> entry (view s') k = entry (view s) k)"
  by (rule verdict_view [OF assms]) (auto simp: verdict_def)

theorem verdict_refines_decision_table_witness:
  "fst (abuse_verdict ks_redis demo_settings 5 ''1.1.1.1'' ''ann'' (empty_keyspace 0)) = Inr ((ALLOWED, []), True)"
  using verdict_refines_decision_table [OF redis_server_ks, of demo_settings "empty_keyspace 0" "''1.1.1.1''" "''ann''" "[]" 0 5]
  by (auto simp: thresholds_ok_def demo_settings_def counter_ok_def failures_def string_value_def flag_ok_def
      samples_at_def blocked_def decision_def entropy_of_def timing_entropy_def below_def shadow_flag_def
      min_less_iff_disj)

text \<open>
  C29. Shadow mode does not enforce, and still blocks: with the flag on, the abuse detector hands
  every request on, whatever its verdict, with only Redis, the metrics and the request's own state
  changed; but a soft-block verdict has written the block, so the address is blocked from then on as
  soon as the flag is switched off.
\<close>

theorem shadow_mode_still_writes_the_block:
  assumes "redis_server (e_redis E) view" and "thresholds_ok (e_settings E)"
    and "counter_ok (view (store (gw_node g))) ip" and "counter_ok (view (store (gw_node g))) c"
    and "flag_ok (view (store (gw_node g)))" and "shadow_flag (e_settings E) (view (store (gw_node g)))"
    and "samples_at (view (store (gw_node g))) c ts d" and "\<forall>t \<in> set ts. t < rd_timing_ms rd"
    and "st_client_ip (gw_state g) = Some ip" and "st_client_id (gw_state g) = Some c"
    and "auth_failure_ip_threshold (e_settings E) \<le> failures (view (store (gw_node g))) ip"
  shows "\<exists>h. abuse_detector_dispatch E rd call_next g = call_next h \<and>
    gw_users h = gw_users g \<and> bloom (gw_node h) = bloom (gw_node g) \<and>
    blocked (view (store (gw_node h))) ip"
proof -
  let ?w = "verdict (e_settings E) (view (store (gw_node g))) ip c
      (last_n (nat (scraping_sample_size (e_settings E))) (ts @ [rd_timing_ms rd]))"
  have soft: "fst ?w = SOFT_BLOCK" using assms(11) by (simp add: verdict_def decision_def)
  obtain a where a: "abuse_verdict (e_redis E) (e_settings E) (rd_timing_ms rd) ip c (store (gw_node g)) = (Inr (?w, True), a)"
    "blocked (view a) ip"
    using verdict_view [OF assms(1-5,7,8)] assms(6) soft by metis
  obtain r where w: "?w = (SOFT_BLOCK, r)" using soft by (cases ?w) auto
  show ?thesis
    using abuse_shadowed [of E rd g SOFT_BLOCK r a call_next] a(1) assms(9,10) w a(2) by auto
qed

lemma three_failures:
  "counter_ok (put (failed_auth_key ip) (RStr (show_int 10)) (Some 1000) (empty_keyspace 0)) x"
  "failures (put (failed_auth_key ip) (RStr (show_int 10)) (Some 1000) (empty_keyspace 0)) ip = 10"
  "entry (put (failed_auth_key ip) (RStr (show_int 10)) (Some 1000) (empty_keyspace 0)) flag_key = None"
  "entry (put (failed_auth_key ip) (RStr (show_int 10)) (Some 1000) (empty_keyspace 0)) (request_times_key c) = None"
proof -
  let ?ks = "put (failed_auth_key ip) (RStr (show_int 10)) (Some 1000) (empty_keyspace 0)"
  have e: "entry ?ks (failed_auth_key ip) = Some (RStr (show_int 10), Some 1000)" by simp
  show "failures ?ks ip = 10" by (rule counter_ok_written(2) [OF e]) simp_all
  show "counter_ok ?ks x"
    by (cases "x = ip") (use counter_ok_written(1) [OF e] in \<open>simp_all add: counter_ok_def\<close>)
  show "entry ?ks flag_key = None" "entry ?ks (request_times_key c) = None"
    by (simp_all add: flag_key_def failed_auth_key_def request_times_key_def)
qed

theorem shadow_mode_still_writes_the_block_witness:
  "\<exists>h. abuse_detector_dispatch demo_env demo_readings proxy
       (with_store (put (failed_auth_key ''6.6.6.6'') (RStr (show_int 10)) (Some 1000) (empty_keyspace 0))
         (demo_gateway\<lparr>gw_state := fresh_state\<lparr>st_client_ip := Some ''6.6.6.6'', st_client_id := Some ''ann''\<rparr>\<rparr>)) = proxy h \<and>
     blocked (store (gw_node h)) ''6.6.6.6''"
proof -
  let ?g = "with_store (put (failed_auth_key ''6.6.6.6'') (RStr (show_int 10)) (Some 1000) (empty_keyspace 0))
         (demo_gateway\<lparr>gw_state := fresh_state\<lparr>st_client_ip := Some ''6.6.6.6'', st_client_id := Some ''ann''\<rparr>\<rparr>)"
  note facts = three_failures [of "''6.6.6.6''"]
  have "\<exists>h. abuse_detector_dispatch demo_env demo_readings proxy ?g = proxy h \<and>
      gw_users h = gw_users ?g \<and> bloom (gw_node h) = bloom (gw_node ?g) \<and> blocked (store (gw_node h)) ''6.6.6.6''"
    by (rule shadow_mode_still_writes_the_block [where view = "\<lambda>ks. ks" and c = "''ann''" and ts = "[]" and d = 0])
      (simp_all add: redis_server_ks thresholds_ok_def demo_settings_def facts flag_ok_def shadow_flag_def
        string_value_def samples_at_def)
  then show ?thesis by blast
qed

text \<open>
  C19. A client over its limit is refused before anything else happens: when the stored stamps of an
  authenticated client fill the window, its request to a limited path is answered 429 with the window
  as \<open>Retry-After\<close>; the users, the filters, the time and every other key of the server stay, of the
  client's own set exactly the expired stamps go, and the metrics gain the refusal and the two entries
  that every answer gets.
\<close>

theorem over_limit_requests_are_refused:
  assumes "redis_server (e_redis E) view"
    and "url_path request \<notin> set public_paths" and "url_path request \<notin> set excluded_paths"
    and "header_get request ''Authorization'' [] = ''Bearer '' @ token" and "list_all token_char token"
    and "decode_access_token (e_jwt E) (e_settings E) (rd_auth_s rd) token = Inr (Some cl)"
    and "claim_text ''sub'' ''unknown'' cl = c" and "unlisted E request (bloom (gw_node g))"
    and "zset_key (view (store (gw_node g))) (rate_key c)"
    and "rate_limit_requests (e_settings E) \<le> int (length (unexpired (rd_rate_ms rd)
           (rate_limit_window_seconds (e_settings E)) (zset_at (view (store (gw_node g))) (rate_key c))))"
    and "handle_request E rd request g = (r, g')"
  shows "status_code r = 429 \<and>
    map_of (rs_headers r) ''retry-after'' = Some (show_int (rate_limit_window_seconds (e_settings E))) \<and>
    gw_users g' = gw_users g \<and> bloom (gw_node g') = bloom (gw_node g) \<and>
    (\<forall>k. k \<noteq> rate_key c \<longrightarrow> entry (view (store (gw_node g'))) k = entry (view (store (gw_node g))) k) \<and>
    zset_at (view (store (gw_node g'))) (rate_key c) = unexpired (rd_rate_ms rd) (rate_limit_window_seconds (e_settings E))
      (zset_at (view (store (gw_node g))) (rate_key c)) \<and>
    know (view (store (gw_node g'))) = know (view (store (gw_node g))) \<and>
    gw_metrics g' = gw_metrics g @
      [RateLimitRejections c, RequestDuration (rd_duration rd), RequestsTotal (show_int 429) (url_path request)]"
proof -
  let ?S = "e_settings E" and ?s = "store (gw_node g)"
  obtain ks where ks: "sliding_window_script ks_redis (rate_key c) (rd_rate_ms rd) (rate_limit_window_seconds ?S)
        (rate_limit_requests ?S) (rate_request_id (rd_rate_ms rd) c) (view ?s) = (Inr (0, 0), ks)"
    and kept: "know ks = know (view ?s)" "zset_at ks (rate_key c) =
        unexpired (rd_rate_ms rd) (rate_limit_window_seconds ?S) (zset_at (view ?s) (rate_key c))"
    and same: "\<And>k. k \<noteq> rate_key c \<Longrightarrow> entry ks k = entry (view ?s) k"
    using script_reject [OF assms(9)] assms(10) by (metis not_less)
  have "check_rate_limit ks_redis (rd_rate_ms rd) c (rate_limit_requests ?S) (rate_limit_window_seconds ?S) (view ?s) =
      (Inr (False, 0), ks)"
    by (simp add: check_rate_limit_def bind_def ks ret_def)
  from simulates_run [OF redis_server.sim_check_rate_limit [OF assms(1)] this]
  obtain a where a: "check_rate_limit (e_redis E) (rd_rate_ms rd) c (rate_limit_requests ?S)
      (rate_limit_window_seconds ?S) ?s = (Inr (False, 0), a)" "view a = ks" by blast
  let ?g = "g\<lparr>gw_state := seen request (fresh_state\<lparr>st_request_id := Some (rd_uuid rd), st_client_id := Some c\<rparr>)\<rparr>"
  have "auth_dispatch E rd request (inner_chain E rd request)
      (g\<lparr>gw_state := fresh_state\<lparr>st_request_id := Some (rd_uuid rd)\<rparr>\<rparr>) =
    rate_limit_dispatch E rd request (abuse_detector_dispatch E rd
      (shadow_mode_dispatch E rd request (handle_exceptions (route E rd request)))) ?g"
    by (subst auth_passes [OF assms(2,4-7)]) (use assms(8) in \<open>simp add: inner_chain_def bloom_passes\<close>)
  also have "\<dots> = (Inr (json_response 429 (detail ''Rate limit exceeded - please retry after the indicated period'')
            [(''Retry-After'', show_int (rate_limit_window_seconds ?S))]),
     (with_store a ?g)\<lparr>gw_metrics := gw_metrics g @ [RateLimitRejections c]\<rparr>)"
    by (subst rate_rejects [OF assms(3)]) (use a(1) in simp_all)
  finally have run: "auth_dispatch E rd request (inner_chain E rd request)
      (g\<lparr>gw_state := fresh_state\<lparr>st_request_id := Some (rd_uuid rd)\<rparr>\<rparr>) = \<dots>" .
  have "py_lower ''Retry-After'' = ''retry-after''" "py_lower ''X-Request-ID'' = ''x-request-id''" by code_simp+
  then show ?thesis
    using assms(11) run a(2) same kept
    by (auto simp: handle_request_inner json_response_def set_header_def map_of_header_put)
qed

theorem over_limit_requests_are_refused_witness:
  "status_code (fst (handle_request (demo_env\<lparr>e_settings := demo_settings\<lparr>rate_limit_requests := 1\<rparr>\<rparr>) demo_readings
     (demo_request Proxy ''1.1.1.1'' [(''Authorization'', ''Bearer '' @ demo_token ''ann'' ''user'')])
     (with_store (put (rate_key ''ann'') (RZset [(''0-ann'', 0)]) (Some 61000) (empty_keyspace 0)) demo_gateway))) = 429"
proof -
  let ?E = "demo_env\<lparr>e_settings := demo_settings\<lparr>rate_limit_requests := 1\<rparr>\<rparr>"
  let ?rq = "demo_request Proxy ''1.1.1.1'' [(''Authorization'', ''Bearer '' @ demo_token ''ann'' ''user'')]"
  let ?ks = "put (rate_key ''ann'') (RZset [(''0-ann'', 0)]) (Some 61000) (empty_keyspace 0)"
  obtain r g' where r: "handle_request ?E demo_readings ?rq (with_store ?ks demo_gateway) = (r, g')" by fastforce
  have decode: "decode_access_token ref_jwt (demo_settings\<lparr>rate_limit_requests := 1\<rparr>) 0 (demo_token ''ann'' ''user'') =
      Inr (Some [(''sub'', JStr ''ann''), (''role'', JStr ''user''), (''exp'', JInt 1800)])"
    using demo_token_ok(3) [of "''ann''" "''user''"] by (simp add: decode_access_token_def)
  have un: "unlisted ?E ?rq (bloom (gw_node (with_store ?ks demo_gateway)))"
    using tb.new_law by (simp add: unlisted_def demo_header(2) demo_gateway_def bloom_filter_service_def
        new_filter_def might_contain_ip_def)
  note refused = over_limit_requests_are_refused [where view = "\<lambda>ks. ks" and token = "demo_token ''ann'' ''user''",
      OF _ _ _ demo_header(1) _ _ demo_claims(1) [where name = "''ann''" and role = "''user''" and t = "JInt 1800"] un _ _ r]
  have "status_code r = 429"
    by (rule conjunct1 [OF refused])
      (use decode in \<open>simp_all add: redis_server_ks url_path_def public_paths_def excluded_paths_def demo_token_ok
         zset_key_def zset_at_def unexpired_def demo_settings_def\<close>)
  then show ?thesis unfolding r by simp
qed

text \<open>
  C35. A soft block covers the paths that are exempt from authentication and from the rate limit:
  with shadow mode off, a request to \<open>/health\<close> or \<open>/metrics\<close> from a soft-blocked address is answered
  429 with the block's 300 seconds, and reaches no handler.
\<close>

theorem soft_block_covers_health_and_metrics:
  assumes "redis_server (e_redis E) view" and "thresholds_ok (e_settings E)"
    and "rq_endpoint request \<in> {Health, Metrics}" and "unlisted E request (bloom (gw_node g))"
    and "blocked (view (store (gw_node g))) (attr_or (rq_client request) ''unknown'')"
    and "counter_ok (view (store (gw_node g))) (attr_or (rq_client request) ''unknown'')"
    and "counter_ok (view (store (gw_node g))) ''anonymous''"
    and "flag_ok (view (store (gw_node g)))" and "\<not> shadow_flag (e_settings E) (view (store (gw_node g)))"
    and "samples_at (view (store (gw_node g))) ''anonymous'' ts d" and "\<forall>t \<in> set ts. t < rd_timing_ms rd"
    and "handle_request E rd request g = (r, g')"
  shows "status_code r = 429 \<and> map_of (rs_headers r) ''retry-after'' = Some (show_int 300) \<and>
    content r = detail ''Too many requests - temporary block applied''"
proof -
  let ?s = "store (gw_node g)" and ?ip = "attr_or (rq_client request) ''unknown''"
  let ?st = "seen request (fresh_state\<lparr>st_request_id := Some (rd_uuid rd), st_client_id := Some ''anonymous''\<rparr>)"
  obtain a where a: "abuse_verdict (e_redis E) (e_settings E) (rd_timing_ms rd) ?ip ''anonymous'' ?s =
      (Inr ((SOFT_BLOCK, ''existing_soft_block''), False), a)"
    by (rule verdict_view [OF assms(1,2,6,7,8,10,11)]) (use assms(5,9) in \<open>simp add: verdict_def\<close>)
  have path: "url_path request \<in> set public_paths" "url_path request \<in> set excluded_paths"
    using assms(3) by (auto simp: url_path_def public_paths_def excluded_paths_def)
  have "auth_dispatch E rd request (inner_chain E rd request)
      (g\<lparr>gw_state := fresh_state\<lparr>st_request_id := Some (rd_uuid rd)\<rparr>\<rparr>) =
    (Inr (json_response 429 (detail ''Too many requests - temporary block applied'')
            [(''Retry-After'', show_int soft_block_ttl)]),
     (with_store a (g\<lparr>gw_state := ?st\<rparr>))\<lparr>gw_metrics := gw_metrics g @
        [AbuseDetections ''soft_block'' (reason_type ''existing_soft_block'')]\<rparr>)"
    unfolding exempt_request [OF path assms(4)]
    by (subst abuse_soft_blocks) (use a in simp_all)
  moreover have "py_lower ''Retry-After'' = ''retry-after''" "py_lower ''X-Request-ID'' = ''x-request-id''" by code_simp+
  ultimately show ?thesis
    using assms(12)
    by (auto simp: handle_request_inner json_response_def set_header_def map_of_header_put soft_block_ttl_def)
qed

theorem soft_block_covers_health_and_metrics_witness:
  "status_code (fst (handle_request demo_env demo_readings (demo_request Health ''6.6.6.6'' [])
     (with_store (put flag_key (RStr ''false'') None (write_block ''6.6.6.6'' (empty_keyspace 0))) demo_gateway))) = 429"
proof -
  let ?ks = "put flag_key (RStr ''false'') None (write_block ''6.6.6.6'' (empty_keyspace 0))"
  let ?g = "with_store ?ks demo_gateway"
  let ?rq = "demo_request Health ''6.6.6.6'' []"
  obtain r g' where r: "handle_request demo_env demo_readings ?rq ?g = (r, g')" by fastforce
  have k: "entry ?ks (failed_auth_key x) = None" "entry ?ks (request_times_key x) = None"
    "entry ?ks flag_key = Some (RStr ''false'', None)" "blocked ?ks ''6.6.6.6''" for x
  proof -
    show "blocked ?ks ''6.6.6.6''"
      using write_block_until(1) [of "''6.6.6.6''" "empty_keyspace 0"] by (auto simp: blocked_until_def blocked_def)
  qed (simp_all add: write_block_def)
  have low: "py_lower ''false'' = ''false''" by code_simp
  have un: "unlisted demo_env ?rq (bloom (gw_node ?g))"
    using tb.new_law by (simp add: unlisted_def header_get_def demo_gateway_def bloom_filter_service_def
        new_filter_def might_contain_ip_def)
  have "status_code r = 429 \<and> map_of (rs_headers r) ''retry-after'' = Some (show_int 300) \<and>
    content r = detail ''Too many requests - temporary block applied''"
    by (rule soft_block_covers_health_and_metrics [where view = "\<lambda>ks. ks" and ts = "[]" and d = 0, OF _ _ _ un _ _ _ _ _ _ _ r])
      (use k in \<open>simp_all add: redis_server_ks thresholds_ok_def demo_settings_def counter_ok_def flag_ok_def
         shadow_flag_def string_value_def samples_at_def low\<close>)
  then show ?thesis unfolding r by simp
qed

text \<open>
  C34. Without Redis the health check fails instead of reporting it: when the server's commands raise
  connection errors, the handler of \<open>/health\<close> would answer 200 with \<open>"redis": "error"\<close>, but the abuse
  detector asks Redis first, so the request is answered by the server's 500, is not counted, and
  carries no request ID.
\<close>

theorem health_fails_without_redis:
  assumes "\<forall>names s. r_mget (e_redis E) names s = (Inl ConnectionError, s)"
    and "\<forall>s. r_ping (e_redis E) s = (Inl ConnectionError, s)"
    and "rq_endpoint request = Health" and "unlisted E request (bloom (gw_node g))"
  shows "handle_request E rd request g = (internal_server_error,
      g\<lparr>gw_state := seen request (fresh_state\<lparr>st_request_id := Some (rd_uuid rd), st_client_id := Some ''anonymous''\<rparr>)\<rparr>) \<and>
    (\<exists>body h. handle_exceptions (route E rd request) g = (Inr \<lparr>status_code = 200, content = JObj body, rs_headers = []\<rparr>, h) \<and>
      map_of body ''redis'' = Some (JStr ''error''))"
proof
  have path: "url_path request \<in> set public_paths" "url_path request \<in> set excluded_paths"
    using assms(3) by (simp_all add: url_path_def public_paths_def excluded_paths_def)
  have "abuse_verdict (e_redis E) (e_settings E) now ip c s = (Inl ConnectionError, s)" for now ip c s
    using assms(1) by (simp add: abuse_verdict_def abuse_signals_def bind_def)
  then have redis: "on_redis (abuse_verdict (e_redis E) (e_settings E) now ip c) h = (Inl ConnectionError, h)" for now ip c h
    by (simp add: on_redis_eq with_store_def)
  have "auth_dispatch E rd request (inner_chain E rd request)
      (g\<lparr>gw_state := fresh_state\<lparr>st_request_id := Some (rd_uuid rd)\<rparr>\<rparr>) =
    (Inl ConnectionError, g\<lparr>gw_state := seen request (fresh_state\<lparr>st_request_id := Some (rd_uuid rd), st_client_id := Some ''anonymous''\<rparr>)\<rparr>)"
    unfolding exempt_request [OF path assms(4)]
    by (simp add: abuse_detector_dispatch_def bind_def get_state_run redis Let_def)
  then show "handle_request E rd request g = (internal_server_error,
      g\<lparr>gw_state := seen request (fresh_state\<lparr>st_request_id := Some (rd_uuid rd), st_client_id := Some ''anonymous''\<rparr>)\<rparr>)"
    by (simp add: handle_request_inner)
  have "on_redis (r_ping (e_redis E)) g = (Inl ConnectionError, g)"
    using assms(2) by (simp add: on_redis_eq with_store_def)
  then show "\<exists>body h. handle_exceptions (route E rd request) g = (Inr \<lparr>status_code = 200, content = JObj body, rs_headers = []\<rparr>, h) \<and>
      map_of body ''redis'' = Some (JStr ''error'')"
    by (simp add: handle_exceptions_def route_def assms(3) health_def bind_def try_except_def ret_def record_pool_stats_def
        observe_run get_bloom_run json_response_def)
qed

definition dead_redis :: "keyspace redis" where
  "dead_redis = ks_redis\<lparr>r_mget := \<lambda>names s. (Inl ConnectionError, s), r_ping := \<lambda>s. (Inl ConnectionError, s)\<rparr>"

theorem health_fails_without_redis_witness:
  "fst (handle_request (demo_env\<lparr>e_redis := dead_redis\<rparr>) demo_readings (demo_request Health ''1.1.1.1'' []) demo_gateway) =
   internal_server_error"
proof -
  have "unlisted (demo_env\<lparr>e_redis := dead_redis\<rparr>) (demo_request Health ''1.1.1.1'' []) (bloom (gw_node demo_gateway))"
    using tb.new_law by (simp add: unlisted_def header_get_def demo_gateway_def bloom_filter_service_def
        new_filter_def might_contain_ip_def)
  then show ?thesis
    by (subst conjunct1 [OF health_fails_without_redis]) (simp_all add: dead_redis_def)
qed

text \<open>
  After a startup on a healthy server every stored address and user agent is refused from the
  first request on: \<open>startup\<close> connects at once, creates the service and loads both lists, provided
  they fit the configured capacity and the options are in range.
\<close>

lemma startup_loads_the_block_lists:
  assumes "redis_server (e_redis E) view" and "membership_filter (e_bloom E)"
    and "bad_sets (view s) = Some (A, B)"
    and "int (fcard A) \<le> bloom_filter_capacity (e_settings E)" and "int (fcard B) \<le> bloom_filter_capacity (e_settings E)"
    and "filter_options_ok (e_settings E)"
  shows "\<exists>b s'. startup E s = (Inr b, s') \<and> view s' = view s \<and>
    (\<forall>ip. ip |\<in>| A \<longrightarrow> might_contain_ip (e_bloom E) b ip) \<and>
    (\<forall>a. a |\<in>| B \<longrightarrow> might_contain_agent (e_bloom E) b a) \<and>
    loaded_ip_count b = int (fcard A) \<and> loaded_agent_count b = int (fcard B)"
  by (rule startup_run [OF assms])

lemma startup_loads_the_block_lists_example:
  "\<exists>b s. startup demo_env (put ''known_bad_ips'' (RSet {|''6.6.6.6''|}) None (empty_keyspace 0)) = (Inr b, s) \<and>
     might_contain_ip (textbook char_sums) b ''6.6.6.6''"
  using startup_loads_the_block_lists [of demo_env "\<lambda>ks. ks" "put ''known_bad_ips'' (RSet {|''6.6.6.6''|}) None (empty_keyspace 0)"
      "{|''6.6.6.6''|}" "{||}"]
  by (auto simp: redis_server_ks char_sums_filter bad_sets_def set_members_def fcard_finsert_if fcard_fempty demo_settings_def default_options_ok)

end
