(* ===== verification/Deployment.thy ===== *)
theory Deployment
  imports Access Protection
begin

text \<open>
  A deployment: any number of gateway processes over one Redis server and one table of users, as
  app/main.py's lifespan starts and stops them. A process has the filters its requests read and those
  of its background worker. Events are atomic: a process starts or stops, its worker finishes a round,
  it answers a request, or time passes.
\<close>

section \<open>Processes and events\<close>

record 'b process =
  p_bloom :: "'b bloom_service"
  p_worker :: "'b bloom_service"
  p_metrics :: "metric list"

record answer =
  an_process :: nat
  an_readings :: readings
  an_request :: request
  an_response :: response

record ('r, 'b, 'd) deployment =
  d_redis :: 'r
  d_users :: 'd
  d_processes :: "nat \<Rightarrow> 'b process option"
  d_answers :: "answer list"

datatype event = Start nat | Stop nat | Tick nat | Sync nat | Serve nat readings request

text \<open>
  A start that raises leaves no process. The worker begins with a service of its own; a round of it
  reloads that service, and the time between two rounds passes with \<open>Tick\<close>. Stopping cancels the
  worker and closes the connection, which leaves the server as it is.
\<close>

definition start_process :: "('r, 'b, 'd) env \<Rightarrow> nat \<Rightarrow> ('r, 'b, 'd) deployment \<Rightarrow> ('r, 'b, 'd) deployment" where
  "start_process E i d =
     (case startup E (d_redis d) of
        (Inl e, r) \<Rightarrow> d\<lparr>d_redis := r\<rparr>
      | (Inr b, r) \<Rightarrow> d\<lparr>d_redis := r, d_processes := (d_processes d)(i \<mapsto>
          \<lparr>p_bloom = b, p_worker = bloom_filter_service (e_bloom E) (e_settings E), p_metrics = []\<rparr>)\<rparr>)"

definition sync_process ::
  "('r, 'b, 'd) env \<Rightarrow> nat \<Rightarrow> 'b process \<Rightarrow> ('r, 'b, 'd) deployment \<Rightarrow> ('r, 'b, 'd) deployment" where
  "sync_process E i p d =
     (case worker_round (e_bloom E) (e_settings E) (e_redis E) (\<lambda>_ r. r) \<lparr>store = d_redis d, bloom = p_worker p\<rparr> of
        (q, n) \<Rightarrow> d\<lparr>d_redis := store n, d_processes := (d_processes d)(i \<mapsto> p\<lparr>p_worker := bloom n\<rparr>)\<rparr>)"

definition process_gateway :: "'b process \<Rightarrow> ('r, 'b, 'd) deployment \<Rightarrow> ('r, 'b, 'd) gateway" where
  "process_gateway p d =
     \<lparr>gw_node = \<lparr>store = d_redis d, bloom = p_bloom p\<rparr>, gw_users = d_users d, gw_metrics = p_metrics p,
      gw_state = fresh_state\<rparr>"

definition serve_process ::
  "('r, 'b, 'd) env \<Rightarrow> nat \<Rightarrow> readings \<Rightarrow> request \<Rightarrow> 'b process \<Rightarrow> ('r, 'b, 'd) deployment \<Rightarrow> ('r, 'b, 'd) deployment" where
  "serve_process E i rd request p d =
     (case handle_request E rd request (process_gateway p d) of
        (response, g) \<Rightarrow>
          d\<lparr>d_redis := store (gw_node g), d_users := gw_users g,
            d_processes := (d_processes d)(i \<mapsto> p\<lparr>p_bloom := bloom (gw_node g), p_metrics := gw_metrics g\<rparr>),
            d_answers := d_answers d @ [\<lparr>an_process = i, an_readings = rd, an_request = request, an_response = response\<rparr>]\<rparr>)"

primrec dep_step :: "('r, 'b, 'd) env \<Rightarrow> event \<Rightarrow> ('r, 'b, 'd) deployment \<Rightarrow> ('r, 'b, 'd) deployment" where
  "dep_step E (Start i) d = (if d_processes d i = None then start_process E i d else d)"
| "dep_step E (Stop i) d = d\<lparr>d_processes := (d_processes d)(i := None)\<rparr>"
| "dep_step E (Tick t) d = d\<lparr>d_redis := e_elapse E (int t) (d_redis d)\<rparr>"
| "dep_step E (Sync i) d = (case d_processes d i of None \<Rightarrow> d | Some p \<Rightarrow> sync_process E i p d)"
| "dep_step E (Serve i rd request) d =
     (case d_processes d i of None \<Rightarrow> d | Some p \<Rightarrow> serve_process E i rd request p d)"

definition dep_run :: "('r, 'b, 'd) env \<Rightarrow> event list \<Rightarrow> ('r, 'b, 'd) deployment \<Rightarrow> ('r, 'b, 'd) deployment" where
  "dep_run E es d = fold (dep_step E) es d"

lemma dep_run_simps [simp]:
  "dep_run E [] d = d" "dep_run E (e # es) d = dep_run E es (dep_step E e d)"
  "dep_run E (es @ fs) d = dep_run E fs (dep_run E es d)"
  by (simp_all add: dep_run_def)

lemma dep_run_induct:
  assumes "P d" and "\<And>e d. e \<in> set es \<Longrightarrow> P d \<Longrightarrow> P (dep_step E e d)"
  shows "P (dep_run E es d)"
  using assms by (induction es arbitrary: d) auto

section \<open>The server through the events\<close>

lemma keeps_connect:
  assumes "keeps P ping" and "\<And>n. keeps P (sleep (base_delay * 2 ^ n))"
  shows "keeps P (connect_attempts ping sleep xs)"
proof (induction xs)
  case (Cons x xs)
  show ?case
  proof (rule keepsI)
    fix s r s' assume s: "P s" and run: "connect_attempts ping sleep (x # xs) s = (r, s')"
    obtain q t where q: "ping s = (q, t)" by fastforce
    have t: "P t" by (rule keepsD [OF assms(1) q s])
    have "keeps P (bind (sleep (base_delay * 2 ^ (x - 1))) (\<lambda>_. connect_attempts ping sleep xs))"
      by (intro keeps_bind assms(2) Cons.IH)
    then show "P s'" using run q t by (auto split: sum.splits if_splits dest: keepsD)
  qed
qed (simp add: keeps_raise)

lemma keeps_sync:
  assumes F: "framed R K P"
  shows "keeps (\<lambda>n. P (store n)) (sync_from_redis L S R)"
proof -
  have on_store: "keeps (\<lambda>n. P (store n)) (on_store m)" if "keeps P m" for m
    unfolding on_store_def by (rule keeps_zoom) (use that in auto)
  have on_bloom: "keeps (\<lambda>n. P (store n)) (on_bloom m)" for m :: "('b bloom_service, 'x) io"
    by (rule keepsI) (auto simp: on_bloom_def zoom_def split: prod.splits)
  show ?thesis
    unfolding sync_from_redis_def by (intro keeps_intros on_store on_bloom framed_reads [OF F])
qed

lemma keeps_startup:
  assumes F: "framed (e_redis E) K P" and wait: "\<And>t s. 0 \<le> t \<Longrightarrow> P s \<Longrightarrow> P (e_elapse E t s)"
  shows "keeps P (startup E)"
proof -
  have sleep: "keeps P (modify (e_elapse E \<lfloor>base_delay * 2 ^ n * 1000\<rfloor>))" for n
    by (intro keepsI) (auto simp: modify_def base_delay_def intro!: wait)
  have load: "keeps P (\<lambda>r. case sync_from_redis (e_bloom E) (e_settings E) (e_redis E) \<lparr>store = r, bloom = b\<rparr> of
      (Inl e, s) \<Rightarrow> (Inl e, store s) | (Inr n, s) \<Rightarrow> (Inr (bloom s), store s))" for b
    using keeps_sync [OF F, of "e_bloom E" "e_settings E"]
    by (fastforce intro!: keepsI dest: keepsD split: prod.splits sum.splits)
  show ?thesis
    unfolding startup_def Let_def create_redis_client_def
    by (intro keeps_bind keeps_connect keeps_lift_result framed_reads [OF F] sleep load) simp
qed

lemma keeps_worker:
  assumes "framed R K P"
  shows "keeps (\<lambda>n. P (store n)) (worker_round L S R (\<lambda>_ r. r))"
proof -
  have "keeps (\<lambda>n. P (store n)) (on_store (modify (\<lambda>r. r)))"
    by (rule keepsI) (simp add: on_store_def zoom_def modify_def)
  then show ?thesis
    unfolding worker_round_def by (intro keeps_intros keeps_sync [OF assms])
qed

text \<open>What the events other than requests preserve of the server.\<close>

lemma idle_keeps_server:
  assumes F: "framed (e_redis E) K P" and wait: "\<And>t s. 0 \<le> t \<Longrightarrow> P s \<Longrightarrow> P (e_elapse E t s)"
    and "\<forall>i rd request. e \<noteq> Serve i rd request" and "P (d_redis d)"
  shows "P (d_redis (dep_step E e d))"
proof (cases e)
  case (Start i)
  obtain q r where r: "startup E (d_redis d) = (q, r)" by fastforce
  have "P r" by (rule keepsD [OF keeps_startup [OF F wait] r assms(4)])
  then show ?thesis using Start assms(4) r by (cases q) (simp_all add: start_process_def)
next
  case (Sync i)
  show ?thesis
  proof (cases "d_processes d i")
    case (Some p)
    obtain q n where n: "worker_round (e_bloom E) (e_settings E) (e_redis E) (\<lambda>_ r. r)
        \<lparr>store = d_redis d, bloom = p_worker p\<rparr> = (q, n)" by fastforce
    have "P (store n)" by (rule keepsD [OF keeps_worker [OF F] n]) (simp add: assms(4))
    then show ?thesis using Sync Some n by (simp add: sync_process_def)
  qed (use Sync assms(4) in simp)
qed (use assms(3,4) wait in auto)

lemma serve_keeps_server:
  assumes F: "framed (e_redis E) K P" and K: "\<And>k. behavioural k \<Longrightarrow> K k" "\<And>x. K (rate_key x)"
    and wait: "\<And>t s. 0 \<le> t \<Longrightarrow> P s \<Longrightarrow> P (e_elapse E t s)"
    and hard: "\<And>ip. keeps P (r_sadd (e_redis E) ''known_bad_ips'' ip)" "\<And>a. keeps P (r_sadd (e_redis E) ''abusive_agents'' a)"
    and "P (d_redis d)"
  shows "P (d_redis (serve_process E i rd request p d))"
proof -
  obtain r g where g: "handle_request E rd request (process_gateway p d) = (r, g)" by fastforce
  have "P (store (gw_node g))"
    by (rule handle_keeps [OF keeps_store [OF F K wait hard] _ _ _ g])
      (simp_all add: assms(7) process_gateway_def throttle_delay_seconds_def)
  then show ?thesis by (simp add: serve_process_def g)
qed

lemma step_keeps_server:
  assumes "framed (e_redis E) K P" and "\<And>k. behavioural k \<Longrightarrow> K k" "\<And>x. K (rate_key x)"
    and "\<And>t s. 0 \<le> t \<Longrightarrow> P s \<Longrightarrow> P (e_elapse E t s)"
    and "\<And>ip. keeps P (r_sadd (e_redis E) ''known_bad_ips'' ip)" "\<And>a. keeps P (r_sadd (e_redis E) ''abusive_agents'' a)"
    and "P (d_redis d)"
  shows "P (d_redis (dep_step E e d))"
proof (cases "\<exists>i rd request. e = Serve i rd request")
  case True
  then show ?thesis using serve_keeps_server [OF assms] assms(7) by (auto split: option.splits)
next
  case False
  then show ?thesis using idle_keeps_server [OF assms(1,4) _ assms(7)] by blast
qed

section \<open>The stored block lists only grow\<close>

definition listed :: "string fset \<Rightarrow> string fset \<Rightarrow> keyspace \<Rightarrow> bool" where
  "listed A B ks \<longleftrightarrow> (\<exists>A' B'. sets_are ks A' B' \<and> A |\<subseteq>| A' \<and> B |\<subseteq>| B')"

lemma listed_framed:
  "redis_server R view \<Longrightarrow> framed R (\<lambda>k. k \<notin> {''known_bad_ips'', ''abusive_agents''}) (\<lambda>s. listed A B (view s))"
  by (rule redis_server.framed_same_on) (auto simp: same_on_def listed_def sets_are_def)

lemma listed_sadd:
  assumes R: "redis_server R view" and k: "k \<in> {''known_bad_ips'', ''abusive_agents''}"
  shows "keeps (\<lambda>s. listed A B (view s)) (r_sadd R k m)"
proof (rule keeps_sim [OF redis_server.sadd_law [OF R]], rule keepsI)
  fix ks r ks' assume "listed A B ks" and run: "ks_sadd k m ks = (r, ks')"
  then obtain A' B' where s: "sets_are ks A' B'" and sub: "A |\<subseteq>| A'" "B |\<subseteq>| B'" by (auto simp: listed_def)
  have "sets_are ks' (finsert m A') B' \<or> sets_are ks' A' (finsert m B')"
    using run s k by (auto simp: sets_are_def ks_sadd_def split: if_splits)
  then show "listed A B ks'" using sub by (auto simp: listed_def)
qed

lemma listed_elapse:
  "timed_redis R view elapse \<Longrightarrow> 0 \<le> t \<Longrightarrow> listed A B (view s) \<Longrightarrow> listed A B (view (elapse t s))"
  by (auto simp: listed_def timed_redis.elapse_law dest: sets_are_elapse)

lemma listed_step:
  assumes T: "timed_redis (e_redis E) view (e_elapse E)" and "listed A B (view (d_redis d))"
  shows "listed A B (view (d_redis (dep_step E e d)))"
proof -
  have R: "redis_server (e_redis E) view" using T by (simp add: timed_redis_def)
  show ?thesis
    by (rule step_keeps_server [where P = "\<lambda>s. listed A B (view s)", OF listed_framed [OF R]])
      (use assms(2) listed_elapse [OF T] listed_sadd [OF R] in auto)
qed

section \<open>The filters of a process\<close>

text \<open>Process \<open>j\<close> recognises the address, or does not run.\<close>

definition recognises :: "('r, 'b, 'd) env \<Rightarrow> string \<Rightarrow> nat \<Rightarrow> ('r, 'b, 'd) deployment \<Rightarrow> bool" where
  "recognises E ip j d \<longleftrightarrow> (\<forall>p. d_processes d j = Some p \<longrightarrow> might_contain_ip (e_bloom E) (p_bloom p) ip)"

lemma sync_loads:
  assumes R: "redis_server R view" and L: "membership_filter L" and "listed {|ip|} {||} (view (store s))"
    and "sync_from_redis L S R s = (Inr n, s')"
  shows "might_contain_ip L (bloom s') ip"
proof -
  obtain A B where sets: "bad_sets (view (store s)) = Some (A, B)" and ip: "ip |\<in>| A"
    using assms(3) by (auto simp: listed_def dest: sets_are_bad_sets)
  obtain ips agents r f g where "distinct ips" and d: "set ips = fset A" and "distinct agents" "set agents = fset B"
    and "view r = view (store s)"
    and run: "sync_from_redis L S R s =
      (case b_add_all L ips (new_filter L S) of
         Inl e \<Rightarrow> (Inl e, \<lparr>store = r, bloom = (bloom s)\<lparr>ip_filter := f, agent_filter := new_filter L S\<rparr>\<rparr>)
       | Inr F \<Rightarrow>
           (case b_add_all L agents (new_filter L S) of
              Inl e \<Rightarrow> (Inl e, \<lparr>store = r, bloom = (bloom s)\<lparr>ip_filter := F, agent_filter := g\<rparr>\<rparr>)
            | Inr G \<Rightarrow> (Inr (int (length ips) + int (length agents)),
                \<lparr>store = r, bloom = \<lparr>ip_filter = F, agent_filter = G,
                   loaded_ip_count = int (length ips), loaded_agent_count = int (length agents)\<rparr>\<rparr>)))"
    by (rule sync_run [OF R sets])
  obtain F where F: "b_add_all L ips (new_filter L S) = Inr F" and s': "ip_filter (bloom s') = F"
    using assms(4) by (auto simp: run split: sum.splits)
  have "ip \<in> set ips" using ip d by simp
  then have "b_contains L ip F" by (intro membership_filter.add_all_contains [OF L F]) simp
  then show ?thesis using s' by (simp add: might_contain_ip_def)
qed

lemma startup_loads:
  assumes T: "timed_redis (e_redis E) view (e_elapse E)" and L: "membership_filter (e_bloom E)"
    and "listed {|ip|} {||} (view r)" and run: "startup E r = (Inr b, r')"
  shows "might_contain_ip (e_bloom E) b ip"
proof -
  let ?P = "\<lambda>s. listed {|ip|} {||} (view s)"
  have R: "redis_server (e_redis E) view" using T by (simp add: timed_redis_def)
  note F = listed_framed [OF R, of "{|ip|}" "{||}"]
  let ?connect = "create_redis_client (r_ping (e_redis E)) (\<lambda>delay. modify (e_elapse E \<lfloor>delay * 1000\<rfloor>))"
  have "keeps ?P (modify (e_elapse E \<lfloor>base_delay * 2 ^ n * 1000\<rfloor>))" for n
    by (intro keepsI) (auto simp: modify_def base_delay_def intro!: listed_elapse [OF T])
  then have connect: "keeps ?P ?connect"
    unfolding create_redis_client_def by (intro keeps_connect framed_reads [OF F])
  obtain q r1 where q: "?connect r = (q, r1)" by fastforce
  have r1: "?P r1" by (rule keepsD [OF connect q assms(3)])
  obtain n s where s: "sync_from_redis (e_bloom E) (e_settings E) (e_redis E)
      \<lparr>store = r1, bloom = bloom_filter_service (e_bloom E) (e_settings E)\<rparr> = (Inr n, s)" "b = bloom s"
    using run q by (auto simp: startup_def Let_def bind_def lift_result_def create_bloom_filter_service_def split: sum.splits prod.splits if_splits)
  then show ?thesis using sync_loads [OF R L _ s(1)] r1 by simp
qed

lemma serve_recognises:
  assumes "membership_filter (e_bloom E)" and "might_contain_ip (e_bloom E) (p_bloom p) ip"
    and "d_processes (serve_process E i rd request p d) i = Some p'"
  shows "might_contain_ip (e_bloom E) (p_bloom p') ip"
proof -
  obtain r g where g: "handle_request E rd request (process_gateway p d) = (r, g)" by fastforce
  have "might_contain_ip (e_bloom E) (bloom (gw_node g)) ip"
    by (rule handle_keeps_filters [OF assms(1) g]) (simp add: process_gateway_def assms(2))
  then show ?thesis using assms(3) by (auto simp: serve_process_def g)
qed

lemma recognises_step:
  assumes T: "timed_redis (e_redis E) view (e_elapse E)" and L: "membership_filter (e_bloom E)"
    and l: "listed {|ip|} {||} (view (d_redis d))" and r: "recognises E ip j d"
  shows "recognises E ip j (dep_step E e d)"
proof (cases e)
  case (Start i)
  then show ?thesis
    using r startup_loads [OF T L l]
    by (auto simp: recognises_def start_process_def split: prod.splits sum.splits)
next
  case (Serve i rd request)
  show ?thesis
  proof (cases "d_processes d i")
    case (Some p)
    have "d_processes (serve_process E i rd request p d) k = d_processes d k" if "k \<noteq> i" for k
      using that by (simp add: serve_process_def split: prod.splits)
    then show ?thesis
      using r Serve Some serve_recognises [OF L, where p = p and ip = ip]
      by (cases "j = i") (auto simp: recognises_def)
  qed (use r Serve in simp)
qed (use r in \<open>auto simp: recognises_def sync_process_def split: prod.splits option.splits\<close>)

lemma recognises_run:
  assumes T: "timed_redis (e_redis E) view (e_elapse E)" and L: "membership_filter (e_bloom E)"
    and "listed {|ip|} {||} (view (d_redis d))" and "recognises E ip j d \<or> Stop j \<in> set es"
  shows "recognises E ip j (dep_run E es d)"
  using assms(3,4)
proof (induction es arbitrary: d)
  case (Cons e es)
  have "recognises E ip j (dep_step E (Stop j) d)" by (simp add: recognises_def)
  then have "recognises E ip j (dep_step E e d) \<or> Stop j \<in> set es"
    using Cons.prems recognises_step [OF T L, of ip d j e] by auto
  then show ?case using Cons.IH [OF listed_step [OF T Cons.prems(1)]] by simp
qed simp

section \<open>A block answered 200 is stored\<close>

definition stored :: "string \<Rightarrow> keyspace \<Rightarrow> bool" where
  "stored ip ks \<longleftrightarrow> (\<exists>S d. entry ks ''known_bad_ips'' = Some (RSet S, d) \<and> ip |\<in>| S)"

lemma sadd_stores:
  "ks_sadd ''known_bad_ips'' ip ks = (Inr n, ks') \<Longrightarrow> stored ip ks'"
  by (auto simp: ks_sadd_def stored_def dest: entry_deadline split: option.splits prod.splits rval.splits)

lemma add_ip_stores:
  assumes R: "redis_server R view" and "add_ip_to_redis L R ip s = (Inr (), s')"
  shows "stored ip (view (store s'))"
proof -
  obtain q r where q: "r_sadd R ''known_bad_ips'' ip (store s) = (q, r)" by fastforce
  have "ks_sadd ''known_bad_ips'' ip (view (store s)) = (q, view r)"
    by (rule simulatesD [OF redis_server.sadd_law [OF R] q])
  then show ?thesis
    using assms(2) q sadd_stores
    by (auto simp: add_ip_to_redis_def bind_def on_store_def on_bloom_def zoom_def split: sum.splits prod.splits)
qed

lemma block_ip_stores:
  assumes J: "jwt_contract (e_jwt E)" and L: "membership_filter (e_bloom E)"
    and R: "redis_server (e_redis E) view" and ep: "rq_endpoint request = BlockIp ip"
  shows "hoare (\<lambda>s. True) (handle_exceptions (route E rd request))
     (\<lambda>r g. status_code r = 200 \<longrightarrow> stored ip (view (store (gw_node g))))"
proof (cases "require_admin E rd request")
  case (Inl e)
  then show ?thesis
    using require_admin_errors [OF J Inl]
    by (auto simp: hoare_def handle_exceptions_def route_def ep admin_only_def try_except_def bind_def
        lift_result_def ret_def json_response_def)
next
  case (Inr u)
  then show ?thesis
    using add_ip_errors [OF R L] add_ip_stores [OF R]
    by (fastforce simp: hoare_def handle_exceptions_def route_def ep admin_only_def try_except_def bind_def
        lift_result_def ret_def raise_exn_def block_ip_def on_node_def zoom_def split: prod.splits sum.splits)
qed

lemma block_request_stores:
  assumes J: "jwt_contract (e_jwt E)" and L: "membership_filter (e_bloom E)"
    and R: "redis_server (e_redis E) view" and ep: "rq_endpoint request = BlockIp ip"
    and run: "handle_request E rd request g = (r, g')" and ok: "status_code r = 200"
  shows "stored ip (view (store (gw_node g')))"
proof -
  let ?Q = "\<lambda>r g. status_code r = 200 \<longrightarrow> stored ip (view (store (gw_node g)))"
  have F: "framed (e_redis E) (\<lambda>k. k \<notin> {''known_bad_ips''}) (\<lambda>s. c = 200 \<longrightarrow> stored ip (view s))" for c :: int
    by (rule redis_server.framed_same_on [OF R]) (auto simp: same_on_def stored_def)
  have "hoare (\<lambda>s. True) (chain E rd request) ?Q"
  proof (rule chain_answers [OF _ _ _ _ _ block_ip_stores [OF J L R ep]])
    show "keeps (?Q r) (observe m)" for r m by (rule keeps_observe) simp
    show "keeps (?Q r) (on_redis (is_shadow_mode_enabled (e_redis E) b))" for r b
      by (rule keeps_on_redis, rule services_keep [OF F]) auto
    show "keeps (?Q r) (on_redis (log_shadow_event (e_redis E) (rd_shadow_s rd) i rule c p why))" for r i rule c p why
      by (rule keeps_on_redis, rule services_keep [OF F]) auto
  qed (auto simp: json_response_def)
  then show ?thesis
    using run ok
    by (auto simp: handle_request_def internal_server_error_def hoare_def split: prod.splits sum.splits)
qed

lemma block_lists:
  assumes T: "timed_redis (e_redis E) view (e_elapse E)" and J: "jwt_contract (e_jwt E)" and L: "membership_filter (e_bloom E)"
    and "listed {||} {||} (view (d_redis d))" and "rq_endpoint request = BlockIp ip"
    and d1: "d1 = dep_step E (Serve i rd request) d"
    and "d_answers d1 = d_answers d @ [a]" and "status_code (an_response a) = 200"
  shows "listed {|ip|} {||} (view (d_redis d1))" and "recognises E ip i d1"
proof -
  have R: "redis_server (e_redis E) view" using T by (simp add: timed_redis_def)
  obtain p where p: "d_processes d i = Some p"
    using assms(7) by (cases "d_processes d i") (auto simp: d1)
  obtain r g where g: "handle_request E rd request (process_gateway p d) = (r, g)" by fastforce
  have r: "status_code r = 200"
    using assms(7,8) by (auto simp: d1 p serve_process_def g)
  have "stored ip (view (d_redis d1))"
    using block_request_stores [OF J L R assms(5) g r] by (simp add: d1 p serve_process_def g)
  moreover have "listed {||} {||} (view (d_redis d1))"
    unfolding d1 by (rule listed_step [OF T assms(4)])
  ultimately show "listed {|ip|} {||} (view (d_redis d1))"
    by (auto simp: listed_def stored_def sets_are_def split: if_splits)
  have "might_contain_ip (e_bloom E) (bloom (gw_node g)) ip"
    by (rule block_request_blocks [OF J L R assms(5) g r])
  then show "recognises E ip i d1"
    by (simp add: d1 p serve_process_def g recognises_def)
qed

lemma recognised_answer:
  assumes J: "jwt_contract (e_jwt E)" and "recognises E ip j d"
    and "attr_or (rq_client request) ''unknown'' = ip"
    and "d_answers (dep_step E (Serve j rd request) d) = d_answers d @ [a]"
  shows "status_code (an_response a) \<in> {401, 403}"
proof -
  obtain p where p: "d_processes d j = Some p"
    using assms(4) by (cases "d_processes d j") auto
  obtain r g where g: "handle_request E rd request (process_gateway p d) = (r, g)" by fastforce
  have "status_code r \<in> {401, 403}"
    by (rule conjunct1 [OF blocked_ip_answer [OF J _ g]])
      (use assms(2,3) p in \<open>auto simp: recognises_def process_gateway_def\<close>)
  then show ?thesis using assms(4) by (auto simp: p serve_process_def g)
qed

section \<open>Nothing else reaches the filters of a running process\<close>

text \<open>The events that may change the filters process \<open>j\<close> reads.\<close>

fun touches_filters :: "('r, 'b, 'd) env \<Rightarrow> nat \<Rightarrow> event \<Rightarrow> bool" where
  "touches_filters E j (Start i) = (i = j)"
| "touches_filters E j (Stop i) = (i = j)"
| "touches_filters E j (Serve i rd request) =
     (i = j \<and> (case rq_endpoint request of BlockIp ip \<Rightarrow> True | BlockAgent a \<Rightarrow> True | _ \<Rightarrow> False) \<and>
      (case require_admin E rd request of Inl e \<Rightarrow> False | Inr u \<Rightarrow> True))"
| "touches_filters E j e = False"

lemma filters_step:
  assumes "\<not> touches_filters E j e"
  shows "map_option p_bloom (d_processes (dep_step E e d) j) = map_option p_bloom (d_processes d j)"
proof (cases e)
  case (Serve i rd request)
  show ?thesis
  proof (cases "d_processes d i")
    case (Some p)
    obtain r g where g: "handle_request E rd request (process_gateway p d) = (r, g)" by fastforce
    have "bloom (gw_node g) = p_bloom p" if "i = j"
      by (rule handle_keeps [OF keeps_filters [where P = "\<lambda>b. b = p_bloom p"] _ _ _ g])
        (use assms Serve that in \<open>auto simp: process_gateway_def split: endpoint.splits sum.splits\<close>)
    then show ?thesis using Serve Some by (auto simp: serve_process_def g)
  qed (use Serve in simp)
qed (use assms in \<open>auto simp: start_process_def sync_process_def split: prod.splits sum.splits option.splits\<close>)

lemma filters_run:
  "\<forall>e \<in> set es. \<not> touches_filters E j e \<Longrightarrow>
   map_option p_bloom (d_processes (dep_run E es d) j) = map_option p_bloom (d_processes d j)"
  by (induction es arbitrary: d) (simp_all add: filters_step)

lemma sync_event_loads:
  assumes R: "redis_server (e_redis E) view" and L: "membership_filter (e_bloom E)"
    and "bad_sets (view (d_redis d)) = Some (A, B)"
    and "int (fcard A) \<le> bloom_filter_capacity (e_settings E)" and "int (fcard B) \<le> bloom_filter_capacity (e_settings E)"
    and "d_processes d j = Some p"
  shows "\<exists>w. d_processes (dep_step E (Sync j) d) j = Some (p\<lparr>p_worker := w\<rparr>) \<and>
           (\<forall>ip. ip |\<in>| A \<longrightarrow> might_contain_ip (e_bloom E) w ip)"
proof -
  let ?s = "\<lparr>store = d_redis d, bloom = p_worker p\<rparr>"
  have "bad_sets (view (store ?s)) = Some (A, B)" using assms(3) by simp
  from sync_success [OF R L this assms(4,5)]
  obtain n s' where "sync_from_redis (e_bloom E) (e_settings E) (e_redis E) ?s = (Inr n, s')"
    and ips: "\<And>ip. ip |\<in>| A \<Longrightarrow> might_contain_ip (e_bloom E) (bloom s') ip" by metis
  then have "worker_round (e_bloom E) (e_settings E) (e_redis E) (\<lambda>_ r. r) ?s = (Inr (), s')"
    by (simp add: worker_round_def bind_def try_except_def discard_def ret_def on_store_def zoom_def modify_def)
  then show ?thesis using ips assms(6) by (intro exI [of _ "bloom s'"]) (simp add: sync_process_def)
qed

lemma serve_answers:
  "d_processes d j = Some p \<Longrightarrow> \<exists>b. d_answers (dep_step E (Serve j rd request) d) = d_answers d @ [b]"
  by (simp add: serve_process_def split: prod.splits)

section \<open>Two processes\<close>

definition demo_process :: "textbook process" where
  "demo_process = \<lparr>p_bloom = bloom_filter_service (textbook char_sums) demo_settings,
     p_worker = bloom_filter_service (textbook char_sums) demo_settings, p_metrics = []\<rparr>"

definition demo_deployment :: "(keyspace, textbook, user list) deployment" where
  "demo_deployment = \<lparr>d_redis = empty_keyspace 0, d_users = [], d_processes = [0 \<mapsto> demo_process, 1 \<mapsto> demo_process],
     d_answers = []\<rparr>"

definition demo_blocking :: event where
  "demo_blocking = Serve 0 demo_readings (admin_request (BlockIp ''6.6.6.6'') ''1.1.1.1'')"

lemma demo_blocked:
  obtains a where "d_answers (dep_step demo_env demo_blocking demo_deployment) = [a]" and "status_code (an_response a) = 200"
    and "sets_are (d_redis (dep_step demo_env demo_blocking demo_deployment)) {|''6.6.6.6''|} {||}"
    and "\<And>i. i \<noteq> 0 \<Longrightarrow> d_processes (dep_step demo_env demo_blocking demo_deployment) i = d_processes demo_deployment i"
proof -
  obtain r g where g: "handle_request demo_env demo_readings (admin_request (BlockIp ''6.6.6.6'') ''1.1.1.1'') demo_gateway = (r, g)"
    and r: "status_code r = 200" and s: "sets_are (store (gw_node g)) {|''6.6.6.6''|} {||}"
    by (rule demo_block) blast
  have "process_gateway demo_process demo_deployment = demo_gateway"
    by (simp add: process_gateway_def demo_process_def demo_deployment_def demo_gateway_def)
  moreover have proc: "d_processes demo_deployment 0 = Some demo_process" "d_answers demo_deployment = []"
    by (simp_all add: demo_deployment_def)
  ultimately have step: "dep_step demo_env demo_blocking demo_deployment =
      demo_deployment\<lparr>d_redis := store (gw_node g), d_users := gw_users g,
        d_processes := (d_processes demo_deployment)(0 \<mapsto> demo_process\<lparr>p_bloom := bloom (gw_node g), p_metrics := gw_metrics g\<rparr>),
        d_answers := [\<lparr>an_process = 0, an_readings = demo_readings,
          an_request = admin_request (BlockIp ''6.6.6.6'') ''1.1.1.1'', an_response = r\<rparr>]\<rparr>"
    using proc by (simp add: demo_blocking_def serve_process_def g)
  show thesis
    by (rule that [of "\<lparr>an_process = 0, an_readings = demo_readings,
          an_request = admin_request (BlockIp ''6.6.6.6'') ''1.1.1.1'', an_response = r\<rparr>"]) (simp_all add: step r s)
qed

section \<open>Properties\<close>

text \<open>
  C4. A hard block survives restarts and holds across the deployment: once a process answered a block
  request 200, every later request from that address is answered 401 or 403 by that process, by every
  process that was not running then, and by every process after it was stopped once, whatever all of
  them serve, however much time passes, and even if the process that made the block is long gone.
\<close>

theorem hard_block_survives_restarts:
  assumes "timed_redis (e_redis E) view (e_elapse E)" and "jwt_contract (e_jwt E)" and "membership_filter (e_bloom E)"
    and "sets_are (view (d_redis d)) A B" and "rq_endpoint request = BlockIp ip"
    and "d_answers (dep_step E (Serve i rd request) d) = d_answers d @ [a]" and "status_code (an_response a) = 200"
    and "d1 = dep_step E (Serve i rd request) d" and "d2 = dep_run E es d1"
    and "j = i \<or> d_processes d1 j = None \<or> Stop j \<in> set es"
    and "attr_or (rq_client request') ''unknown'' = ip"
    and "d_answers (dep_step E (Serve j rd' request') d2) = d_answers d2 @ [b]"
  shows "status_code (an_response b) \<in> {401, 403}"
proof -
  have "listed {||} {||} (view (d_redis d))" using assms(4) by (auto simp: listed_def)
  note block = block_lists [OF assms(1-3) this assms(5,8) _ assms(7)]
  have "recognises E ip j d1 \<or> Stop j \<in> set es"
    using assms(6,8,10) block(2) by (auto simp: recognises_def)
  then have "recognises E ip j d2"
    unfolding assms(9) using assms(6,8) by (intro recognises_run [OF assms(1,3) block(1)]) simp_all
  then show ?thesis by (rule recognised_answer [OF assms(2) _ assms(11,12)])
qed

theorem hard_block_survives_restarts_witness:
  "\<exists>d b. d = dep_run demo_env [demo_blocking, Tick 400000, Stop 0, Start 2] demo_deployment \<and>
     d_answers (dep_step demo_env (Serve 2 demo_readings (demo_request Proxy ''6.6.6.6'' [])) d) = d_answers d @ [b] \<and>
     status_code (an_response b) \<in> {401, 403}"
proof -
  let ?d1 = "dep_step demo_env demo_blocking demo_deployment"
  let ?d2 = "dep_run demo_env [Tick 400000, Stop 0, Start 2] ?d1"
  obtain a where a: "d_answers ?d1 = [a]" "status_code (an_response a) = 200"
    and sets: "sets_are (d_redis ?d1) {|''6.6.6.6''|} {||}" and p: "\<And>i. i \<noteq> 0 \<Longrightarrow> d_processes ?d1 i = d_processes demo_deployment i"
    by (rule demo_blocked) blast
  have none: "d_processes ?d1 2 = None" using p [of 2] by (simp add: demo_deployment_def)
  have "bad_sets (ks_elapse 400000 (d_redis ?d1)) = Some ({|''6.6.6.6''|}, {||})"
    by (rule sets_are_bad_sets [OF sets_are_elapse [OF _ sets]]) simp
  from startup_run [of demo_env "\<lambda>ks. ks", OF _ _ this]
  obtain b s' where "startup demo_env (ks_elapse 400000 (d_redis ?d1)) = (Inr b, s')"
    by (auto simp: redis_server_ks char_sums_filter fcard_finsert_if fcard_fempty demo_settings_def default_options_ok)
  then obtain q where q: "d_processes ?d2 2 = Some q"
    using none by (simp add: start_process_def)
  then obtain c where c: "d_answers (dep_step demo_env (Serve 2 demo_readings (demo_request Proxy ''6.6.6.6'' [])) ?d2) =
      d_answers ?d2 @ [c]"
    using serve_answers by blast
  have e: "demo_blocking = Serve 0 demo_readings (admin_request (BlockIp ''6.6.6.6'') ''1.1.1.1'')"
    by (rule demo_blocking_def)
  have "status_code (an_response c) \<in> {401, 403}"
    by (rule hard_block_survives_restarts [where view = "\<lambda>ks. ks" and E = demo_env and d = demo_deployment and i = 0
          and rd = demo_readings and request = "admin_request (BlockIp ''6.6.6.6'') ''1.1.1.1''" and j = 2 and a = a
          and es = "[Tick 400000, Stop 0, Start 2]" and A = "{||}" and B = "{||}" and ip = "''6.6.6.6''", OF _ _ _ _ _ _ a(2) e [THEN arg_cong] refl _ _ c])
      (use a none e in \<open>simp_all add: timed_redis_ks jwt_contract_ref char_sums_filter sets_are_def demo_deployment_def\<close>)
  then show ?thesis using c by auto
qed

text \<open>
  C31. Until then a block does not travel: whatever the other processes do and however long it takes,
  the filters a running process reads change only by an administrator's block request that it serves
  itself or by a restart. Its own worker reloads the stored lists, every address of them, into filters that
  no request reads.
\<close>

theorem blocks_wait_for_a_restart:
  assumes "timed_redis (e_redis E) view (e_elapse E)" and "membership_filter (e_bloom E)"
    and "\<forall>e \<in> set es. \<not> touches_filters E j e" and "d_processes d j = Some p"
    and "sets_are (view (d_redis (dep_run E es d))) A B"
    and "int (fcard A) \<le> bloom_filter_capacity (e_settings E)" and "int (fcard B) \<le> bloom_filter_capacity (e_settings E)"
  shows "\<exists>p'. d_processes (dep_run E (es @ [Sync j]) d) j = Some p' \<and> p_bloom p' = p_bloom p \<and>
           (\<forall>ip. ip |\<in>| A \<longrightarrow> might_contain_ip (e_bloom E) (p_worker p') ip)"
proof -
  obtain q where q: "d_processes (dep_run E es d) j = Some q" "p_bloom q = p_bloom p"
    using filters_run [OF assms(3), of d] assms(4) by auto
  have R: "redis_server (e_redis E) view" using assms(1) by (simp add: timed_redis_def)
  from sync_event_loads [OF R assms(2) sets_are_bad_sets [OF assms(5)] assms(6,7) q(1)] show ?thesis
    using q(2) by auto
qed

theorem blocks_wait_for_a_restart_witness:
  "\<exists>p. d_processes (dep_run demo_env [demo_blocking, Sync 1] demo_deployment) 1 = Some p \<and>
     \<not> might_contain_ip (textbook char_sums) (p_bloom p) ''6.6.6.6'' \<and>
     might_contain_ip (textbook char_sums) (p_worker p) ''6.6.6.6''"
proof -
  obtain a where sets: "sets_are (d_redis (dep_step demo_env demo_blocking demo_deployment)) {|''6.6.6.6''|} {||}"
    by (rule demo_blocked) blast
  have "\<exists>p'. d_processes (dep_run demo_env ([demo_blocking] @ [Sync 1]) demo_deployment) 1 = Some p' \<and>
      p_bloom p' = p_bloom demo_process \<and>
      (\<forall>ip. ip |\<in>| {|''6.6.6.6''|} \<longrightarrow> might_contain_ip (e_bloom demo_env) (p_worker p') ip)"
    by (rule blocks_wait_for_a_restart [where view = "\<lambda>ks. ks" and B = "{||}"])
      (use sets in \<open>simp_all add: timed_redis_ks char_sums_filter demo_blocking_def demo_deployment_def
        fcard_finsert_if fcard_fempty demo_settings_def\<close>)
  moreover have "\<not> might_contain_ip (textbook char_sums) (p_bloom demo_process) ip" for ip
    using tb.new_law by (simp add: demo_process_def bloom_filter_service_def new_filter_def might_contain_ip_def)
  ultimately show ?thesis by auto
qed

end
