(* ===== verification/Quota.thy ===== *)
theory Quota
  imports Deployment
begin

text \<open>
  The rate limit of a whole deployment: however the requests of a client are spread over processes
  that come and go, and whatever else these do to the server, the requests of the client that get
  past the limiter stay within the limit in every window.
\<close>

section \<open>Who a request counts for\<close>

definition auth_client :: "('r, 'b, 'd) env \<Rightarrow> readings \<Rightarrow> request \<Rightarrow> string option" where
  "auth_client E rd request =
     (if url_path request \<in> set public_paths then Some ''anonymous''
      else if \<not> py_startswith (header_get request ''Authorization'' []) ''Bearer '' then None
      else
        (case list_item (py_split_sep (CHR '' '') (header_get request ''Authorization'' [])) 1 of
           Inl e \<Rightarrow> None
         | Inr token \<Rightarrow>
             (case decode_access_token (e_jwt E) (e_settings E) (rd_auth_s rd) token of
                Inr (Some cl) \<Rightarrow> Some (claim_text ''sub'' ''unknown'' cl)
              | _ \<Rightarrow> None)))"

lemma auth_run:
  assumes J: "jwt_contract (e_jwt E)"
  shows "case auth_client E rd request of
      None \<Rightarrow> \<exists>m. auth_dispatch E rd request call_next g = (Inr (not_authenticated m), g)
    | Some c \<Rightarrow> auth_dispatch E rd request call_next g = call_next (g\<lparr>gw_state := (gw_state g)\<lparr>st_client_id := Some c\<rparr>\<rparr>)"
proof (cases "url_path request \<in> set public_paths")
  case True
  then show ?thesis by (simp add: auth_client_def auth_dispatch_def bind_def set_state_run)
next
  case False
  show ?thesis
  proof (cases "py_startswith (header_get request ''Authorization'' []) ''Bearer ''")
    case True
    then obtain t where t: "list_item (py_split_sep (CHR '' '') (header_get request ''Authorization'' [])) 1 = Inr t"
      using bearer_token_item by blast
    obtain v where "decode_access_token (e_jwt E) (e_settings E) (rd_auth_s rd) t = Inr v"
      using jwt_contract.decode_total [OF J] by blast
    then show ?thesis
      using False True t
      by (cases v) (auto simp: auth_client_def auth_dispatch_def Let_def bind_def lift_result_def ret_def set_state_run)
  qed (use False in \<open>auto simp: auth_client_def auth_dispatch_def Let_def ret_def\<close>)
qed

text \<open>
  The requests that got past the limiter: their answer carries the remaining quota, or it is the server's
  500, since what lies before the limiter raises nothing.
\<close>

definition past_limiter :: "('r, 'b, 'd) env \<Rightarrow> string \<Rightarrow> answer \<Rightarrow> bool" where
  "past_limiter E c a \<longleftrightarrow> auth_client E (an_readings a) (an_request a) = Some c \<and>
     url_path (an_request a) \<notin> set excluded_paths \<and>
     (map_of (rs_headers (an_response a)) ''x-ratelimit-remaining'' \<noteq> None \<or> an_response a = internal_server_error)"

definition quota_times :: "('r, 'b, 'd) env \<Rightarrow> string \<Rightarrow> answer list \<Rightarrow> int list" where
  "quota_times E c as = map (\<lambda>a. rd_rate_ms (an_readings a)) (filter (past_limiter E c) as)"

lemma quota_times_append [simp]:
  "quota_times E c (as @ bs) = quota_times E c as @ quota_times E c bs" "quota_times E c [] = []"
  by (simp_all add: quota_times_def)

text \<open>
  The clocks: a process that meets the limiter reads a time within half a second of the server's, and
  no two such requests of one client read the same millisecond.
\<close>

fun clocks_ok ::
  "('r, 'b, 'd) env \<Rightarrow> ('r \<Rightarrow> keyspace) \<Rightarrow> (string \<Rightarrow> int) \<Rightarrow> event list \<Rightarrow> ('r, 'b, 'd) deployment \<Rightarrow> bool" where
  "clocks_ok E view prev [] d = True"
| "clocks_ok E view prev (Serve i rd request # es) d =
     (if url_path request \<in> set excluded_paths \<or> auth_client E rd request = None
      then clocks_ok E view prev es (dep_step E (Serve i rd request) d)
      else
        (let c = the (auth_client E rd request); now = rd_rate_ms rd
         in 0 \<le> now \<and> \<bar>now - know (view (d_redis d))\<bar> \<le> 500 \<and> prev c < now \<and>
            clocks_ok E view (prev(c := now)) es (dep_step E (Serve i rd request) d)))"
| "clocks_ok E view prev (e # es) d = clocks_ok E view prev es (dep_step E e d)"

section \<open>The logs of the clients\<close>

definition logs_are :: "int \<Rightarrow> (string \<Rightarrow> int) \<Rightarrow> (string \<Rightarrow> int list) \<Rightarrow> keyspace \<Rightarrow> bool" where
  "logs_are W prev L ks \<longleftrightarrow> (\<forall>c. log_inv W ks c (prev c) (L c))"

lemma logs_framed:
  "redis_server R view \<Longrightarrow> framed R (\<lambda>k. k \<notin> range rate_key) (\<lambda>s. logs_are W prev L (view s))"
  by (rule redis_server.framed_same_on) (auto simp: same_on_def logs_are_def intro: log_inv_frame)

lemma logs_elapse:
  "timed_redis R view elapse \<Longrightarrow> 0 \<le> t \<Longrightarrow> logs_are W prev L (view s) \<Longrightarrow> logs_are W prev L (view (elapse t s))"
  by (simp add: logs_are_def timed_redis.elapse_law log_inv_elapse)

lemma log_inv_later: "log_inv W ks c prev H \<Longrightarrow> prev \<le> now \<Longrightarrow> log_inv W ks c now H"
  unfolding log_inv_def by fastforce

lemma logs_later: "logs_are W prev L ks \<Longrightarrow> prev c \<le> now \<Longrightarrow> logs_are W (prev(c := now)) L ks"
  by (auto simp: logs_are_def intro: log_inv_later)

lemma logs_behind:
  fixes E :: "('r, 'b, 'd) env"
  assumes T: "timed_redis (e_redis E) view (e_elapse E)"
  shows "keeps (\<lambda>g :: ('r, 'b, 'd) gateway. logs_are W prev L (view (store (gw_node g))))
    (abuse_detector_dispatch E rd (shadow_mode_dispatch E rd request (handle_exceptions (route E rd request))))"
proof -
  have R: "redis_server (e_redis E) view" using T by (simp add: timed_redis_def)
  note F = logs_framed [OF R, of W prev L]
  have lists: "''known_bad_ips'' \<notin> range rate_key" "''abusive_agents'' \<notin> range rate_key"
    by (auto simp: rate_key_def)
  show ?thesis
    by (rule behind_keeps_store [where P = "\<lambda>s. logs_are W prev L (view s)", OF F])
      (use logs_elapse [OF T] framed_writes [OF F lists(1)] framed_writes [OF F lists(2)] in
        \<open>auto simp: throttle_delay_seconds_def\<close>)
qed

lemma logs_check:
  assumes R: "redis_server R view" and "logs_are W prev L (view s)" and "0 \<le> W"
    and "prev c < now" "0 \<le> now" "\<bar>now - know (view s)\<bar> \<le> 500"
  obtains s' where "check_rate_limit R now c limit W s = (Inr (fst (log_step limit W (L c) now)), s')"
    and "logs_are W (prev(c := now)) (L(c := snd (log_step limit W (L c) now))) (view s')"
proof -
  have inv: "log_inv W (view s) c' (prev c') (L c')" for c' using assms(2) by (simp add: logs_are_def)
  obtain ks' where run: "check_rate_limit ks_redis now c limit W (view s) = (Inr (fst (log_step limit W (L c) now)), ks')"
    and "\<And>c'. log_inv W ks' c' ((prev(c := now)) c') ((L(c := snd (log_step limit W (L c) now))) c')"
    using check_refines [where prev = prev and L = L, OF inv assms(3-6)] by blast
  moreover from simulates_run [OF redis_server.sim_check_rate_limit [OF R] run]
  obtain s' where "check_rate_limit R now c limit W s = (Inr (fst (log_step limit W (L c) now)), s')" "view s' = ks'"
    by blast
  ultimately show thesis by (intro that [of s']) (simp_all add: logs_are_def)
qed

section \<open>One request\<close>

lemma bloom_refuses:
  "\<not> unlisted E request (bloom (gw_node g)) \<Longrightarrow>
   \<exists>m t. bloom_filter_dispatch E request next g =
     (Inr (json_response 403 (detail m) []), g\<lparr>gw_metrics := gw_metrics g @ [BloomFilterHits t]\<rparr>)"
  by (auto simp: unlisted_def bloom_filter_dispatch_def Let_def bind_def get_bloom_run observe_run ret_def)

lemma header_names:
  "py_lower ''X-Request-ID'' = ''x-request-id''" "py_lower ''WWW-Authenticate'' = ''www-authenticate''"
  "py_lower ''Retry-After'' = ''retry-after''" "py_lower ''X-RateLimit-Remaining'' = ''x-ratelimit-remaining''"
  by code_simp+

abbreviation remaining :: "response \<Rightarrow> string option" where
  "remaining r \<equiv> map_of (rs_headers r) ''x-ratelimit-remaining''"

lemma remaining_tagged [simp]: "remaining (set_header ''X-Request-ID'' v r) = remaining r"
  by (simp add: set_header_def map_of_header_put header_names)

lemma refusals_have_no_remaining [simp]:
  "remaining (not_authenticated m) = None" "remaining (json_response 403 d []) = None"
  "remaining (json_response 429 d [(''Retry-After'', v)]) = None"
  "remaining internal_server_error = None"
  by (simp_all add: not_authenticated_def json_response_def header_names internal_server_error_def)

lemma limited_chain:
  fixes g :: "('r, 'b, 'd) gateway"
  assumes T: "timed_redis (e_redis E) view (e_elapse E)"
    and inv: "logs_are W prev L (view (store (gw_node g)))"
    and W: "W = rate_limit_window_seconds (e_settings E)" "0 \<le> W" and limit: "limit = rate_limit_requests (e_settings E)"
    and c: "st_client_id (gw_state g) = Some c" and path: "url_path request \<notin> set excluded_paths"
    and now: "prev c < rd_rate_ms rd" "0 \<le> rd_rate_ms rd" "\<bar>rd_rate_ms rd - know (view (store (gw_node g)))\<bar> \<le> 500"
    and run: "inner_chain E rd request g = (q, g')"
  shows "logs_are W (prev(c := rd_rate_ms rd)) L (view (store (gw_node g'))) \<and> (\<exists>r. q = Inr r \<and> remaining r = None) \<or>
         logs_are W (prev(c := rd_rate_ms rd)) (L(c := snd (log_step limit W (L c) (rd_rate_ms rd)))) (view (store (gw_node g')))
           \<and> int (length (in_window W (rd_rate_ms rd) (L c))) < limit"
proof (cases "unlisted E request (bloom (gw_node g))")
  case False
  then obtain m t where "inner_chain E rd request g =
      (Inr (json_response 403 (detail m) []), g\<lparr>gw_metrics := gw_metrics g @ [BloomFilterHits t]\<rparr>)"
    unfolding inner_chain_def using bloom_refuses by blast
  then show ?thesis using run logs_later [OF inv, of c "rd_rate_ms rd"] now(1) by auto
next
  case True
  let ?now = "rd_rate_ms rd" and ?n = "in_window W (rd_rate_ms rd) (L c)"
  let ?rest = "abuse_detector_dispatch E rd (shadow_mode_dispatch E rd request (handle_exceptions (route E rd request)))"
  let ?g = "g\<lparr>gw_state := seen request (gw_state g)\<rparr>"
  let ?L = "L(c := snd (log_step limit W (L c) ?now))"
  have R: "redis_server (e_redis E) view" using T by (simp add: timed_redis_def)
  obtain s' where chk: "check_rate_limit (e_redis E) ?now c limit W (store (gw_node g)) =
      (Inr (fst (log_step limit W (L c) ?now)), s')" and inv': "logs_are W (prev(c := ?now)) ?L (view s')"
    using logs_check [OF R inv W(2) now] by blast
  have lim: "rate_limit_dispatch E rd request ?rest ?g = (q, g')"
    using run by (simp add: inner_chain_def bloom_passes [OF True])
  show ?thesis
  proof (cases "int (length ?n) < limit")
    case True
    then have "check_rate_limit (e_redis E) ?now c limit W (store (gw_node g)) = (Inr (True, limit - int (length ?n) - 1), s')"
      using chk by (simp add: log_step_def)
    then have "rate_limit_dispatch E rd request ?rest ?g =
        bind ?rest (\<lambda>r. ret (set_header ''X-RateLimit-Remaining'' (show_int (limit - int (length ?n) - 1)) r)) (with_store s' ?g)"
      by (intro rate_passes) (simp_all add: path c W(1) limit)
    then have go: "bind ?rest (\<lambda>r. ret (set_header ''X-RateLimit-Remaining'' (show_int (limit - int (length ?n) - 1)) r))
        (with_store s' ?g) = (q, g')"
      using lim by simp
    have K: "keeps (\<lambda>g :: ('r, 'b, 'd) gateway. logs_are W (prev(c := ?now)) ?L (view (store (gw_node g))))
        (bind ?rest (\<lambda>r. ret (set_header ''X-RateLimit-Remaining'' (show_int (limit - int (length ?n) - 1)) r)))"
      by (intro keeps_bind logs_behind [OF T] keeps_ret)
    have "logs_are W (prev(c := ?now)) ?L (view (store (gw_node g')))"
      by (rule keepsD [OF K go]) (simp add: inv')
    then show ?thesis using True by simp
  next
    case False
    then have "check_rate_limit (e_redis E) ?now c limit W (store (gw_node g)) = (Inr (False, 0), s')" and "?L = L"
      using chk by (simp_all add: log_step_def)
    then have "rate_limit_dispatch E rd request ?rest ?g =
      (Inr (json_response 429 (detail ''Rate limit exceeded - please retry after the indicated period'')
            [(''Retry-After'', show_int W)]),
       (with_store s' ?g)\<lparr>gw_metrics := gw_metrics ?g @ [RateLimitRejections c]\<rparr>)"
      using rate_rejects [OF path, of E rd ?g 0 s' ?rest] by (simp add: c W(1) limit)
    then show ?thesis using lim inv' \<open>?L = L\<close> by auto
  qed
qed

lemma excluded_chain:
  fixes g :: "('r, 'b, 'd) gateway"
  assumes T: "timed_redis (e_redis E) view (e_elapse E)" and inv: "logs_are W prev L (view (store (gw_node g)))"
    and path: "url_path request \<in> set excluded_paths" and run: "inner_chain E rd request g = (q, g')"
  shows "logs_are W prev L (view (store (gw_node g')))"
proof (cases "unlisted E request (bloom (gw_node g))")
  case False
  then obtain m t where "inner_chain E rd request g =
      (Inr (json_response 403 (detail m) []), g\<lparr>gw_metrics := gw_metrics g @ [BloomFilterHits t]\<rparr>)"
    unfolding inner_chain_def using bloom_refuses by blast
  then show ?thesis using run inv by auto
next
  case True
  have "abuse_detector_dispatch E rd (shadow_mode_dispatch E rd request (handle_exceptions (route E rd request)))
      (g\<lparr>gw_state := seen request (gw_state g)\<rparr>) = (q, g')"
    using run path by (simp add: inner_chain_def bloom_passes [OF True] rate_limit_dispatch_def)
  then show ?thesis using keepsD [OF logs_behind [OF T]] inv by force
qed

section \<open>Every event\<close>

definition quota_inv ::
  "('r, 'b, 'd) env \<Rightarrow> ('r \<Rightarrow> keyspace) \<Rightarrow> (string \<Rightarrow> int) \<Rightarrow> (string \<Rightarrow> int list) \<Rightarrow> ('r, 'b, 'd) deployment \<Rightarrow> bool" where
  "quota_inv E view prev L d \<longleftrightarrow>
     logs_are (rate_limit_window_seconds (e_settings E)) prev L (view (d_redis d)) \<and>
     (\<forall>c. window_ok (rate_limit_requests (e_settings E)) (rate_limit_window_seconds (e_settings E)) (L c)) \<and>
     (\<forall>c P. length (filter P (quota_times E c (d_answers d))) \<le> length (filter P (L c)))"

lemma quota_idle:
  assumes T: "timed_redis (e_redis E) view (e_elapse E)" and "quota_inv E view prev L d"
    and "\<forall>i rd request. e \<noteq> Serve i rd request"
  shows "quota_inv E view prev L (dep_step E e d)"
proof -
  have R: "redis_server (e_redis E) view" using T by (simp add: timed_redis_def)
  let ?W = "rate_limit_window_seconds (e_settings E)"
  have "logs_are ?W prev L (view (d_redis (dep_step E e d)))"
    by (rule idle_keeps_server [where P = "\<lambda>s. logs_are ?W prev L (view s)", OF logs_framed [OF R] _ assms(3)])
      (use assms(2) logs_elapse [OF T] in \<open>auto simp: quota_inv_def\<close>)
  moreover have "d_answers (dep_step E e d) = d_answers d"
    using assms(3) by (cases e) (auto simp: start_process_def sync_process_def split: prod.splits sum.splits option.splits)
  ultimately show ?thesis using assms(2) by (simp add: quota_inv_def)
qed

lemma quota_accept:
  assumes "quota_inv E view prev L d" and S: "S = e_settings E"
    and "logs_are (rate_limit_window_seconds S) (prev(c := now))
       (L(c := snd (log_step (rate_limit_requests S) (rate_limit_window_seconds S) (L c) now))) (view (d_redis d'))"
    and "int (length (in_window (rate_limit_window_seconds S) now (L c))) < rate_limit_requests S"
    and "prev c < now" and "d_answers d' = d_answers d @ [a]" and "auth_client E (an_readings a) (an_request a) = Some c"
    and "rd_rate_ms (an_readings a) = now"
  shows "quota_inv E view (prev(c := now)) (L(c := now # L c)) d'"
proof -
  let ?W = "rate_limit_window_seconds S" and ?limit = "rate_limit_requests S"
  have step: "snd (log_step ?limit ?W (L c) now) = now # L c" using assms(4) by (simp add: log_step_def)
  have "t < now" if "t \<in> set (L c)" for t
    using assms(1,5) that log_invD(7) unfolding quota_inv_def logs_are_def by fastforce
  then have "window_ok ?limit ?W (now # L c)"
    using window_ok_step [of ?limit ?W "L c" now] assms(1) S step by (simp add: quota_inv_def)
  moreover have "length (filter P (quota_times E c' (d_answers d'))) \<le> length (filter P ((L(c := now # L c)) c'))" for c' P
  proof -
    have "length (filter P (quota_times E c' (d_answers d))) \<le> length (filter P (L c'))"
      using assms(1) by (simp add: quota_inv_def)
    moreover have "quota_times E c' [a] \<in> (if c' = c then {[], [now]} else {[]})"
      using assms(7,8) by (auto simp: quota_times_def past_limiter_def)
    ultimately show ?thesis using assms(6) by (auto split: if_splits)
  qed
  ultimately show ?thesis
    using assms(1,3) S step by (simp add: quota_inv_def)
qed

lemma quota_refuse:
  assumes "quota_inv E view prev L d" and "logs_are (rate_limit_window_seconds (e_settings E)) prev' L (view (d_redis d'))"
    and "d_answers d' = d_answers d @ [a]" and "\<And>c. \<not> past_limiter E c a"
  shows "quota_inv E view prev' L d'"
  using assms by (simp add: quota_inv_def quota_times_def)

lemma quota_serve:
  fixes d :: "('r, 'b, 'd) deployment"
  assumes T: "timed_redis (e_redis E) view (e_elapse E)" and J: "jwt_contract (e_jwt E)"
    and W: "0 \<le> rate_limit_window_seconds (e_settings E)" and inv: "quota_inv E view prev L d"
    and free: "url_path request \<in> set excluded_paths \<or> auth_client E rd request = None \<Longrightarrow> prev' = prev"
    and limited: "\<And>c. url_path request \<notin> set excluded_paths \<Longrightarrow> auth_client E rd request = Some c \<Longrightarrow>
      0 \<le> rd_rate_ms rd \<and> \<bar>rd_rate_ms rd - know (view (d_redis d))\<bar> \<le> 500 \<and> prev c < rd_rate_ms rd \<and>
      prev' = prev(c := rd_rate_ms rd)"
  shows "\<exists>L'. quota_inv E view prev' L' (serve_process E i rd request p d)"
proof -
  let ?W = "rate_limit_window_seconds (e_settings E)" and ?limit = "rate_limit_requests (e_settings E)"
  let ?g = "(process_gateway p d)\<lparr>gw_state := fresh_state\<lparr>st_request_id := Some (rd_uuid rd)\<rparr>\<rparr>"
  let ?d = "serve_process E i rd request p d"
  obtain q h where run: "auth_dispatch E rd request (inner_chain E rd request) ?g = (q, h)" by fastforce
  obtain r g' where r: "handle_request E rd request (process_gateway p d) = (r, g')" by fastforce
  have store: "store (gw_node g') = store (gw_node h)"
    and rem: "q = Inr r1 \<Longrightarrow> remaining r = remaining r1 \<and> r \<noteq> internal_server_error" for r1
    using r run by (auto simp: handle_request_inner tagged_is_no_500 split: sum.splits)
  let ?a = "\<lparr>an_process = i, an_readings = rd, an_request = request, an_response = r\<rparr>"
  have d: "d_redis ?d = store (gw_node h)" "d_answers ?d = d_answers d @ [?a]"
    using store by (simp_all add: serve_process_def r)
  have logs: "logs_are ?W prev L (view (store (gw_node ?g)))"
    using inv by (simp add: quota_inv_def process_gateway_def)
  show ?thesis
  proof (cases "auth_client E rd request")
    case None
    then obtain m where "(q, h) = (Inr (not_authenticated m), ?g)"
      using auth_run [OF J, where rd = rd and request = request and call_next = "inner_chain E rd request" and g = ?g] run by auto
    then have "logs_are ?W prev' L (view (d_redis ?d))" using logs None free d(1) by simp
    then show ?thesis
      using None by (intro exI [of _ L] quota_refuse [OF inv _ d(2)]) (simp_all add: past_limiter_def)
  next
    case (Some c)
    let ?h = "?g\<lparr>gw_state := (gw_state ?g)\<lparr>st_client_id := Some c\<rparr>\<rparr>"
    have inner: "inner_chain E rd request ?h = (q, h)"
      using auth_run [OF J, where rd = rd and request = request and call_next = "inner_chain E rd request" and g = ?g] run Some by simp
    show ?thesis
    proof (cases "url_path request \<in> set excluded_paths")
      case True
      have "logs_are ?W prev L (view (store (gw_node h)))"
        by (rule excluded_chain [OF T _ True inner]) (use logs in simp)
      then have "logs_are ?W prev' L (view (d_redis ?d))" using True free d(1) by simp
      then show ?thesis
        using True by (intro exI [of _ L] quota_refuse [OF inv _ d(2)]) (simp_all add: past_limiter_def)
    next
      case False
      let ?now = "rd_rate_ms rd"
      have now: "prev c < ?now" "0 \<le> ?now" "\<bar>?now - know (view (d_redis d))\<bar> \<le> 500" and prev': "prev' = prev(c := ?now)"
        using limited [OF False Some] by auto
      have "logs_are ?W (prev(c := ?now)) L (view (store (gw_node h))) \<and> (\<exists>r. q = Inr r \<and> remaining r = None) \<or>
         logs_are ?W (prev(c := ?now)) (L(c := snd (log_step ?limit ?W (L c) ?now))) (view (store (gw_node h)))
           \<and> int (length (in_window ?W ?now (L c))) < ?limit"
        by (rule limited_chain [OF T _ refl W refl _ False _ _ _ inner])
          (use logs now in \<open>simp_all add: process_gateway_def\<close>)
      then show ?thesis
      proof (elim disjE conjE)
        assume l: "logs_are ?W (prev(c := ?now)) L (view (store (gw_node h)))" and none: "\<exists>r. q = Inr r \<and> remaining r = None"
        have "remaining r = None" "r \<noteq> internal_server_error" using none rem by auto
        then show ?thesis
          using l by (intro exI [of _ L] quota_refuse [OF inv _ d(2)]) (simp_all add: past_limiter_def prev' d(1))
      next
        assume "logs_are ?W (prev(c := ?now)) (L(c := snd (log_step ?limit ?W (L c) ?now))) (view (store (gw_node h)))"
          and "int (length (in_window ?W ?now (L c))) < ?limit"
        from quota_accept [OF inv refl _ this(2) now(1) d(2)] this(1) Some show ?thesis
          unfolding prev' by (intro exI [of _ "L(c := ?now # L c)"]) (simp add: d(1))
      qed
    qed
  qed
qed

lemma quota_run:
  assumes T: "timed_redis (e_redis E) view (e_elapse E)" and J: "jwt_contract (e_jwt E)"
    and W: "0 \<le> rate_limit_window_seconds (e_settings E)"
    and "quota_inv E view prev L d" and "clocks_ok E view prev es d"
  shows "\<exists>prev' L'. quota_inv E view prev' L' (dep_run E es d)"
  using assms(4,5)
proof (induction es arbitrary: prev L d)
  case (Cons e es)
  show ?case
  proof (cases "\<exists>i rd request. e = Serve i rd request")
    case True
    then obtain i rd request where Serve: "e = Serve i rd request" by blast
    define prev' where "prev' = (if url_path request \<in> set excluded_paths \<or> auth_client E rd request = None then prev
       else prev(the (auth_client E rd request) := rd_rate_ms rd))"
    have ok: "clocks_ok E view prev' es (dep_step E e d)"
      using Cons.prems(2) by (auto simp: Serve prev'_def Let_def split: if_splits)
    have "\<exists>L'. quota_inv E view prev' L' (dep_step E e d)"
    proof (cases "d_processes d i")
      case None
      then have "dep_step E e d = d" by (simp add: Serve)
      moreover have "quota_inv E view prev' L d"
        using Cons.prems by (auto simp: Serve prev'_def Let_def quota_inv_def intro!: logs_later)
      ultimately show ?thesis by metis
    next
      case (Some p)
      have "\<exists>L'. quota_inv E view prev' L' (serve_process E i rd request p d)"
        by (rule quota_serve [OF T J W Cons.prems(1)])
          (use Cons.prems(2) in \<open>auto simp: Serve prev'_def Let_def split: if_splits\<close>)
      then show ?thesis by (simp add: Serve Some)
    qed
    then show ?thesis using Cons.IH ok by auto
  next
    case False
    then have "clocks_ok E view prev es (dep_step E e d)" using Cons.prems(2) by (cases e) auto
    then show ?thesis using Cons.IH [OF quota_idle [OF T Cons.prems(1)]] False by simp
  qed
qed auto

section \<open>Properties\<close>

text \<open>
  C8. The quota holds for the whole deployment: over any sequence of events, with any number of
  processes that start, stop, serve every kind of request and let time pass, the requests of a client
  that got past the limiter in the window up to any instant \<open>T\<close> are at most the configured number,
  those that end in the server's 500 included. It needs a healthy Redis on which no client has a
  window yet, and the clocks of \<open>clocks_ok\<close>: every process that meets the limiter reads a time within
  500 ms of the server's, and the requests of one client read strictly increasing milliseconds, over
  all processes - and all logins are the one client \<open>anonymous\<close>. Without the last condition the
  quota fails: two requests of a client in one millisecond count as one.
\<close>

theorem deployment_quota:
  assumes "timed_redis (e_redis E) view (e_elapse E)" and "jwt_contract (e_jwt E)"
    and "0 \<le> rate_limit_window_seconds (e_settings E)" and "0 \<le> rate_limit_requests (e_settings E)"
    and "\<And>c. entry (view (d_redis d)) (rate_key c) = None" and "d_answers d = []"
    and "clocks_ok E view (\<lambda>_. -1) es d"
  shows "int (length (filter (\<lambda>t. T - rate_limit_window_seconds (e_settings E) * 1000 < t \<and> t \<le> T)
           (quota_times E c (d_answers (dep_run E es d))))) \<le> rate_limit_requests (e_settings E)"
proof -
  let ?P = "\<lambda>t. T - rate_limit_window_seconds (e_settings E) * 1000 < t \<and> t \<le> T"
  have "quota_inv E view (\<lambda>_. -1) (\<lambda>_. []) d"
    using assms(4-6) by (simp add: quota_inv_def logs_are_def log_inv_init window_ok_def)
  from quota_run [OF assms(1-3) this assms(7)]
  obtain prev L where inv: "quota_inv E view prev L (dep_run E es d)" by blast
  then have "int (length (filter ?P (L c))) \<le> rate_limit_requests (e_settings E)"
    using assms(4) unfolding quota_inv_def window_ok_def by (metis max.absorb1)
  moreover have "length (filter ?P (quota_times E c (d_answers (dep_run E es d)))) \<le> length (filter ?P (L c))"
    using inv unfolding quota_inv_def by blast
  ultimately show ?thesis by linarith
qed

theorem deployment_quota_witness:
  "int (length (filter (\<lambda>t. 1000 - 60 * 1000 < t \<and> t \<le> 1000)
     (quota_times demo_env ''root'' (d_answers (dep_run demo_env
        [Serve 0 demo_readings (admin_request Proxy ''1.1.1.1''), Serve 1 demo_readings (demo_request Health ''1.1.1.1'' []),
         Sync 1, Stop 0] demo_deployment))))) \<le> 100"
  using deployment_quota [where view = "\<lambda>ks. ks" and E = demo_env and d = demo_deployment and T = 1000 and c = "''root''" and
      es = "[Serve 0 demo_readings (admin_request Proxy ''1.1.1.1''), Serve 1 demo_readings (demo_request Health ''1.1.1.1'' []),
        Sync 1, Stop 0]"]
  by (simp add: timed_redis_ks jwt_contract_ref demo_settings_def demo_deployment_def Let_def excluded_paths_def url_path_def
      del: dep_step.simps dep_run_simps)

end
