(* ===== verification/Accounts.thy ===== *)
theory Accounts
  imports Frames Demo
begin

text \<open>
  The users and their logins: the table stays well-formed and only grows by plain users, every branch
  of the registration, the way from a registration to a valid token, and how many passwords one
  address may try.
\<close>

section \<open>The table over all requests\<close>

definition table_ok :: "user list \<Rightarrow> bool" where
  "table_ok us \<longleftrightarrow> distinct (map u_id us) \<and> distinct (map u_username us) \<and> distinct (map u_email us) \<and>
     list_all fits_columns us"

definition plain_user :: "user \<Rightarrow> bool" where
  "plain_user u \<longleftrightarrow> u_role u = role_value USER \<and> u_is_active u"

definition grown_by_users :: "user list \<Rightarrow> user list \<Rightarrow> bool" where
  "grown_by_users old us \<longleftrightarrow> (\<exists>new. us = old @ new \<and> list_all plain_user new)"

lemma keeps_table:
  fixes E :: "('r, 'b, 'd) env"
  assumes D: "user_table (e_users E) rows" and P: "\<And>us u. P us \<Longrightarrow> plain_user u \<Longrightarrow>
      fst (tbl_add u us) = Inr () \<Longrightarrow> P (us @ [u])"
  shows "keeps (\<lambda>g. P (rows (gw_users g))) (auth_dispatch E rd request (inner_chain E rd request))"
    (is "keeps ?P _")
proof -
  have zoom: "keeps ?P (on_users m)" if "keeps (\<lambda>d. P (rows d)) m" for m :: "('d, 'x) io"
    unfolding on_users_def by (rule keeps_zoom [where P' = "\<lambda>d. P (rows d)"]) (use that in auto)
  have find: "keeps (\<lambda>d. P (rows d)) (db_find (e_users E) n)" for n
    by (rule keeps_sim [OF user_table.find_law [OF D]]) (simp add: tbl_find_def keeps_gets)
  have add: "keeps (\<lambda>d. P (rows d)) (db_add (e_users E) u)" if "u_role u = role_value USER" "u_is_active u" for u
    by (rule keeps_sim [OF user_table.add_law [OF D]], rule keepsI)
      (use that P in \<open>auto simp: tbl_add_def plain_user_def split: if_splits\<close>)
  have obs: "keeps ?P (observe m)" for m
    by (rule keepsI) (auto simp: observe_run)
  have st: "keeps ?P (set_state f)" for f
    by (rule keepsI) (auto simp: set_state_run)
  have node: "keeps ?P (on_node m)" for m :: "(('r, 'b) node, 'x) io"
    by (rule keepsI) (auto simp: on_node_def zoom_def split: prod.splits)
  then have redis: "keeps ?P (on_redis m)" for m :: "('r, 'x) io"
    by (simp add: on_redis_def)
  show ?thesis
    by (intro auth_keeps abuse_keeps [where Y = UNIV] route_keeps register_keeps login_keeps obs st redis node zoom find add) simp_all
qed

lemma table_step:
  assumes D: "user_table (e_users E) rows"
    and P: "\<And>us u. P us \<Longrightarrow> plain_user u \<Longrightarrow> fst (tbl_add u us) = Inr () \<Longrightarrow> P (us @ [u])"
    and "P (rows (gw_users g))" and "handle_requests E rqs g = (rs, h)"
  shows "P (rows (gw_users h))"
  using assms(3,4)
proof (induction rqs arbitrary: g rs)
  case (Cons a rqs)
  obtain rd request where a: "a = (rd, request)" by fastforce
  obtain r g' where r: "handle_request E rd request g = (r, g')" by fastforce
  have "P (rows (gw_users g'))"
    by (rule handle_keeps [OF keeps_table [where P = P, OF D P] _ _ Cons.prems(1) r]) simp_all
  moreover obtain rs' where "handle_requests E rqs g' = (rs', h)"
    using Cons.prems(2) r a by (auto split: prod.splits)
  ultimately show ?case by (rule Cons.IH)
qed simp

section \<open>Registration\<close>

lemma register_run:
  assumes D: "user_table (e_users E) rows"
  shows "map_prod id (\<lambda>g. rows (gw_users g)) (register E rd n m p g) =
    (case bcrypt_hashpw (e_bcrypt E) p (rd_salt rd) of
       Inl e \<Rightarrow> (Inl e, rows (gw_users g))
     | Inr h \<Rightarrow>
         (let u = new_user rd n m h; us = rows (gw_users g)
          in if n \<in> u_username ` set us then
               (Inl (HTTPException PlainHTTP 409 ''Username already exists'' []), us)
             else if \<not> fits_columns u then (Inl DatabaseError, us)
             else if rd_user_id rd \<in> u_id ` set us \<or> m \<in> u_email ` set us then (Inl IntegrityError, us)
             else (Inr (json_response 201 (user_response u) []), us @ [u])))"
proof (cases "bcrypt_hashpw (e_bcrypt E) p (rd_salt rd)")
  case (Inl e)
  then show ?thesis by (simp add: register_def bind_def hash_password_def lift_result_def)
next
  case (Inr h)
  let ?u = "new_user rd n m h"
  let ?us = "rows (gw_users g)"
  obtain d where d: "db_find (e_users E) n (gw_users g) = (Inr (find (\<lambda>u. u_username u = n) ?us), d)" "rows d = ?us"
    using simulates_run [OF user_table.find_law [OF D], of n "gw_users g"] by (fastforce simp: tbl_find_def gets_def)
  obtain q d' where a: "db_add (e_users E) ?u d = (q, d')" by fastforce
  then have add: "tbl_add ?u ?us = (q, rows d')"
    using simulatesD [OF user_table.add_law [OF D] a] d(2) by simp
  have run: "register E rd n m p g = (case find (\<lambda>u. u_username u = n) ?us of
      Some u \<Rightarrow> (Inl (HTTPException PlainHTTP 409 ''Username already exists'' []), g\<lparr>gw_users := d\<rparr>)
    | None \<Rightarrow> (case q of Inl e \<Rightarrow> Inl e | Inr x \<Rightarrow> Inr (json_response 201 (user_response ?u) []), g\<lparr>gw_users := d'\<rparr>))"
    using d(1) a
    by (simp add: register_def Let_def bind_def hash_password_def Inr lift_result_def on_users_def zoom_def raise_exn_def
        ret_def split: option.splits sum.splits)
  show ?thesis
  proof (cases "n \<in> u_username ` set ?us")
    case True
    then obtain u where "find (\<lambda>u. u_username u = n) ?us = Some u"
      by (cases "find (\<lambda>u. u_username u = n) ?us") (auto simp: find_None_iff)
    then show ?thesis using True run d(2) Inr by (simp add: Let_def)
  next
    case False
    then have "find (\<lambda>u. u_username u = n) ?us = None" by (auto simp: find_None_iff)
    moreover have "\<not> (\<exists>v \<in> set ?us. u_username v = n)" using False by auto
    ultimately show ?thesis
      using False run add Inr by (auto simp: Let_def tbl_add_def intro: rev_image_eqI split: if_splits)
  qed
qed

lemma find_append: "find P (xs @ ys) = (case find P xs of None \<Rightarrow> find P ys | Some x \<Rightarrow> Some x)"
  by (induction xs) auto

section \<open>Login\<close>

text \<open>
  One login over the views of the server and of the table; \<open>token_for\<close> is the token of a user.
\<close>

definition token_for :: "('r, 'b, 'd) env \<Rightarrow> readings \<Rightarrow> user \<Rightarrow> string" where
  "token_for E rd u = create_access_token (e_jwt E) (e_settings E) (rd_login_s rd) (login_claims u)"

definition too_many :: exn where
  "too_many = HTTPException PlainHTTP 403 ''Too many failed attempts'' []"

definition invalid_credentials :: exn where
  "invalid_credentials = HTTPException PlainHTTP 401 ''Invalid credentials'' []"

lemma login_run:
  assumes R: "redis_server (e_redis E) view" and D: "user_table (e_users E) rows"
    and ip: "attr_or (rq_client request) ''unknown'' = ip"
    and check: "is_credential_stuffing ks_redis ip n (auth_failure_ip_threshold (e_settings E))
        (auth_failure_user_threshold (e_settings E)) (view (store (gw_node g))) = (Inr v, view (store (gw_node g)))"
    and count: "record_auth_failure ks_redis ip n (auth_failure_window_seconds (e_settings E))
        (view (store (gw_node g))) = (Inr (), ks')"
  shows "map_prod id (\<lambda>g. (view (store (gw_node g)), rows (gw_users g))) (login E rd request n p g) =
    (if fst v then (Inl too_many, view (store (gw_node g)), rows (gw_users g))
     else
       (case password_ok E (find (\<lambda>u. u_username u = n) (rows (gw_users g))) p of
          Inl e \<Rightarrow> (Inl e, view (store (gw_node g)), rows (gw_users g))
        | Inr False \<Rightarrow> (Inl invalid_credentials, ks', rows (gw_users g))
        | Inr True \<Rightarrow>
            (Inr (json_response 200 (token_response (token_for E rd
                (the (find (\<lambda>u. u_username u = n) (rows (gw_users g)))))) []),
             view (store (gw_node g)), rows (gw_users g))))"
proof -
  let ?S = "e_settings E" and ?us = "rows (gw_users g)" and ?s = "store (gw_node g)"
  let ?u = "find (\<lambda>u. u_username u = n) ?us"
  obtain a where a: "is_credential_stuffing (e_redis E) ip n (auth_failure_ip_threshold ?S)
      (auth_failure_user_threshold ?S) ?s = (Inr v, a)" "view a = view ?s"
    using simulates_run [OF redis_server.sim_is_credential_stuffing [OF R] check] by blast
  obtain d where d: "db_find (e_users E) n (gw_users g) = (Inr ?u, d)" "rows d = ?us"
    using simulates_run [OF user_table.find_law [OF D], of n "gw_users g"] by (fastforce simp: tbl_find_def gets_def)
  obtain b where b: "record_auth_failure (e_redis E) ip n (auth_failure_window_seconds ?S) a = (Inr (), b)" "view b = ks'"
    using simulates_run [OF redis_server.sim_record_auth_failure [OF R]] count a(2) by metis
  let ?rest = "\<lambda>g. bind (on_users (db_find (e_users E) n)) (\<lambda>user.
      bind (lift_result (password_ok E user p)) (\<lambda>ok.
      if \<not> ok then
        bind (on_redis (record_auth_failure (e_redis E) ip n (auth_failure_window_seconds ?S))) (\<lambda>_.
        raise_exn invalid_credentials)
      else (case user of None \<Rightarrow> raise_exn AttributeError
            | Some u \<Rightarrow> ret (json_response 200 (token_response (token_for E rd u)) [])))) g"
  have run: "login E rd request n p g =
      (if fst v then (Inl too_many, with_store a g) else ?rest (with_store a g))"
    using a(1) unfolding login_def Let_def ip token_for_def invalid_credentials_def too_many_def
    by (simp add: bind_def [of "on_redis m" for m] on_redis_eq split_beta raise_run)
  have find: "on_users (db_find (e_users E) n) (with_store a g) = (Inr ?u, (with_store a g)\<lparr>gw_users := d\<rparr>)"
    using d(1) by (simp add: on_users_def zoom_def)
  have fail: "on_redis (record_auth_failure (e_redis E) ip n (auth_failure_window_seconds ?S)) ((with_store a g)\<lparr>gw_users := d\<rparr>) =
      (Inr (), with_store b ((with_store a g)\<lparr>gw_users := d\<rparr>))"
    by (rule on_redis_eq) (use b(1) in \<open>simp add: with_store_def\<close>)
  have sel: "store (gw_node ((with_store a g)\<lparr>gw_users := d\<rparr>)) = a" by (simp add: with_store_def)
  have rest: "?rest (with_store a g) =
      (case password_ok E ?u p of
         Inl e \<Rightarrow> (Inl e, (with_store a g)\<lparr>gw_users := d\<rparr>)
       | Inr False \<Rightarrow> (Inl invalid_credentials, with_store b ((with_store a g)\<lparr>gw_users := d\<rparr>))
       | Inr True \<Rightarrow> (Inr (json_response 200 (token_response (token_for E rd (the ?u))) []),
                      (with_store a g)\<lparr>gw_users := d\<rparr>))"
    using find fail
    by (cases ?u; cases "password_ok E ?u p")
      (simp_all add: bind_def lift_result_def raise_exn_def ret_def password_ok_def split: bool.splits)
  show ?thesis
    unfolding run rest using a(2) b(2) d(2)
    by (auto simp: sel split: sum.splits bool.splits)
qed

text \<open>
  Login attempts from one address: each lets time pass on the server and then tries a user name and
  a password.
\<close>

type_synonym attempt = "int \<times> string \<times> string"

definition login_request :: "string \<Rightarrow> string \<Rightarrow> string \<Rightarrow> request" where
  "login_request ip n p = \<lparr>rq_endpoint = Login n p, rq_client = Some ip, rq_headers = []\<rparr>"

fun login_attempts ::
  "('r, 'b, 'd) env \<Rightarrow> readings \<Rightarrow> string \<Rightarrow> attempt list \<Rightarrow> ('r, 'b, 'd) gateway \<Rightarrow> (exn + response) list" where
  "login_attempts E rd ip [] g = []"
| "login_attempts E rd ip ((dt, n, p) # es) g =
     (case login E rd (login_request ip n p) n p (with_store (e_elapse E dt (store (gw_node g))) g) of
        (r, g') \<Rightarrow> r # login_attempts E rd ip es g')"

text \<open>Counters that only this address has touched: \<open>k\<close> failures, and no deadline within \<open>T\<close>.\<close>

definition attempted :: "keyspace \<Rightarrow> string \<Rightarrow> int \<Rightarrow> int \<Rightarrow> bool" where
  "attempted ks ip k T \<longleftrightarrow>
     (\<forall>x. counter_ok ks x \<and> failures ks x \<le> k) \<and> failures ks ip = k \<and>
     (\<forall>x v e. entry ks (failed_auth_key x) = Some (v, Some e) \<longrightarrow> know ks + T \<le> e)"

lemma attempted_elapse:
  assumes "attempted ks ip k T" and "0 \<le> dt" and "dt \<le> T"
  shows "attempted (ks_elapse dt ks) ip k (T - dt)"
proof -
  have e: "entry (ks_elapse dt ks) (failed_auth_key x) = entry ks (failed_auth_key x)" for x
  proof (rule elapse_keeps [OF assms(2)])
    have "counter_ok ks x" using assms(1) by (simp add: attempted_def)
    then show "entry ks (failed_auth_key x) \<noteq> Some (v, None)" for v by (cases rule: counter_okE) auto
  qed (use assms in \<open>force simp: attempted_def\<close>)
  then show ?thesis
    using assms(1) unfolding attempted_def
    by (auto simp: counter_ok_frame [OF e])
qed

lemma attempted_fail:
  assumes a: "attempted ks ip k T" and w: "0 < w" "T \<le> w * 1000" and k: "k + 2 < 2 ^ 62" and u: "u \<noteq> ip"
  obtains ks' where "record_auth_failure ks_redis ip u w ks = (Inr (), ks')" and "attempted ks' ip (k + 1) T"
proof -
  have ok: "\<And>x. counter_ok ks x" and le: "\<And>x. failures ks x \<le> k" and ip: "failures ks ip = k"
    and dl: "\<And>x v e. entry ks (failed_auth_key x) = Some (v, Some e) \<Longrightarrow> know ks + T \<le> e"
    using a by (auto simp: attempted_def)
  have small: "\<And>x. failures ks x + 2 < 2 ^ 62" using le k by (smt (verit))
  obtain ks' where run: "record_auth_failure ks_redis ip u w ks = (Inr (), ks')"
    and n: "know ks' = know ks" and c: "\<And>x. counter_ok ks' x"
    and f: "\<And>x. failures ks' x = failures ks x + bump ip u x"
    and d: "\<And>x. x = ip \<or> x = u \<Longrightarrow> \<exists>v. entry ks' (failed_auth_key x) = Some (v, Some (know ks + w * 1000))"
    and o: "\<And>k. k \<noteq> failed_auth_key ip \<Longrightarrow> k \<noteq> failed_auth_key u \<Longrightarrow> entry ks' k = entry ks k"
    using record_failure_run [OF ok small w(1)] by metis
  have "failures ks' x \<le> k + 1" for x using f [of x] le [of x] u by (auto simp: bump_def)
  moreover have "failures ks' ip = k + 1" using f [of ip] ip u by (simp add: bump_def)
  moreover have "know ks' + T \<le> e" if "entry ks' (failed_auth_key x) = Some (v, Some e)" for x v e
  proof (cases "x = ip \<or> x = u")
    case True
    then show ?thesis using d [of x] that n w(2) by auto
  next
    case False
    then have "entry ks (failed_auth_key x) = Some (v, Some e)" using o [of "failed_auth_key x"] that by simp
    then show ?thesis using dl n by simp
  qed
  ultimately show thesis using c by (intro that [OF run]) (simp add: attempted_def)
qed

lemma login_attempts_run:
  assumes T: "timed_redis (e_redis E) view (e_elapse E)" and D: "user_table (e_users E) rows"
    and th: "auth_failure_ip_threshold (e_settings E) \<le> auth_failure_user_threshold (e_settings E)"
    and w: "0 < auth_failure_window_seconds (e_settings E)"
    and "\<forall>(dt, n, p) \<in> set es. 0 \<le> dt \<and> n \<noteq> ip \<and>
        password_ok E (find (\<lambda>u. u_username u = n) (rows (gw_users g))) p = Inr False"
    and "attempted (view (store (gw_node g))) ip k (sum_list (map fst es))"
    and "sum_list (map fst es) \<le> auth_failure_window_seconds (e_settings E) * 1000"
    and "k + int (length es) + 2 < 2 ^ 62"
  shows "login_attempts E rd ip es g =
    map (\<lambda>i. Inl (if k + int i < auth_failure_ip_threshold (e_settings E) then invalid_credentials else too_many))
      [0..<length es]"
  using assms(5-)
proof (induction es arbitrary: g k)
  case (Cons a es)
  obtain dt n p where a: "a = (dt, n, p)" by (cases a)
  let ?S = "e_settings E" and ?ipt = "auth_failure_ip_threshold (e_settings E)"
  let ?g = "with_store (e_elapse E dt (store (gw_node g))) g"
  let ?T = "sum_list (map fst es)"
  have R: "redis_server (e_redis E) view" using T by (simp add: timed_redis_def)
  have dt: "0 \<le> dt" and n: "n \<noteq> ip" and pw: "password_ok E (find (\<lambda>u. u_username u = n) (rows (gw_users g))) p = Inr False"
    and rest: "\<forall>(dt, n, p) \<in> set es. 0 \<le> dt \<and> n \<noteq> ip \<and>
        password_ok E (find (\<lambda>u. u_username u = n) (rows (gw_users g))) p = Inr False"
    using Cons.prems(1) by (auto simp: a)
  have T0: "0 \<le> ?T" using rest by (intro sum_list_nonneg) auto
  let ?ks = "view (store (gw_node ?g))"
  have ks: "?ks = ks_elapse dt (view (store (gw_node g)))" using timed_redis.elapse_law [OF T dt] by simp
  have "attempted ?ks ip k (sum_list (map fst (a # es)) - dt)"
    unfolding ks by (rule attempted_elapse [OF Cons.prems(2) dt]) (use T0 in \<open>simp add: a\<close>)
  then have att: "attempted ?ks ip k ?T" by (simp add: a)
  then have c: "counter_ok ?ks ip" "counter_ok ?ks n" "failures ?ks ip = k" "failures ?ks n \<le> k"
    by (auto simp: attempted_def)
  note check = stuffing_run [OF c(1,2), of ?ipt "auth_failure_user_threshold ?S"]
  obtain ks' where fail: "record_auth_failure ks_redis ip n (auth_failure_window_seconds ?S) ?ks = (Inr (), ks')"
    and att': "attempted ks' ip (k + 1) ?T"
    by (rule attempted_fail [OF att w _ _ n]) (use Cons.prems(3,4) dt in \<open>simp_all add: a\<close>)
  obtain r g' where run: "login E rd (login_request ip n p) n p ?g = (r, g')" by fastforce
  have out: "map_prod id (\<lambda>g. (view (store (gw_node g)), rows (gw_users g))) (r, g') =
      (if ?ipt \<le> k then (Inl too_many, ?ks, rows (gw_users g)) else (Inl invalid_credentials, ks', rows (gw_users g)))"
    using login_run [OF R D _ check fail, where request = "login_request ip n p" and p = p and rd = rd] run pw c(3,4) th
    by (auto simp: login_request_def stuffing_verdict_def)
  show ?case
  proof (cases "?ipt \<le> k")
    case True
    have "attempted (view (store (gw_node g'))) ip k ?T" and us: "rows (gw_users g') = rows (gw_users g)"
      using out True att by auto
    then have "login_attempts E rd ip es g' = map (\<lambda>i. Inl (if k + int i < ?ipt then invalid_credentials else too_many)) [0..<length es]"
      by (intro Cons.IH) (use rest Cons.prems(3,4) dt in \<open>auto simp: a us\<close>)
    then show ?thesis using run out True
      by (simp add: a map_upt_Suc del: upt_Suc)
  next
    case False
    have "attempted (view (store (gw_node g'))) ip (k + 1) ?T" and us: "rows (gw_users g') = rows (gw_users g)"
      using out False att' by auto
    then have "login_attempts E rd ip es g' = map (\<lambda>i. Inl (if k + 1 + int i < ?ipt then invalid_credentials else too_many)) [0..<length es]"
      by (intro Cons.IH) (use rest Cons.prems(3,4) dt in \<open>auto simp: a us\<close>)
    then show ?thesis using run out False
      by (simp add: a map_upt_Suc algebra_simps del: upt_Suc)
  qed
qed simp

section \<open>Properties\<close>

text \<open>
  The table of users stays well-formed under any sequence of requests: identifiers, user names
  and addresses stay pairwise distinct and every row fits its columns, whatever is registered.
\<close>

lemma user_table_stays_well_formed:
  assumes "user_table (e_users E) rows" and "table_ok (rows (gw_users g))"
    and "handle_requests E rqs g = (rs, h)"
  shows "table_ok (rows (gw_users h))"
proof (rule table_step [where P = table_ok, OF assms(1) _ assms(2,3)])
  show "table_ok (us @ [u])" if "table_ok us" "fst (tbl_add u us) = Inr ()" for us u
    using that by (auto simp: table_ok_def tbl_add_def split: if_splits)
qed

text \<open>
  C16. No request makes an administrator: whatever sequence of requests arrives, the rows of the
  table stay as they are, and the new ones are active users with the role \<open>user\<close>.
\<close>

theorem no_request_makes_an_admin:
  assumes "user_table (e_users E) rows" and "handle_requests E rqs g = (rs, h)"
  shows "\<exists>new. rows (gw_users h) = rows (gw_users g) @ new \<and>
           list_all (\<lambda>u. u_role u = ''user'' \<and> u_is_active u) new"
proof -
  have "grown_by_users (rows (gw_users g)) (rows (gw_users h))"
    by (rule table_step [where P = "grown_by_users (rows (gw_users g))", OF assms(1) _ _ assms(2)])
      (auto simp: grown_by_users_def)
  then obtain new where "rows (gw_users h) = rows (gw_users g) @ new" "list_all plain_user new"
    by (auto simp: grown_by_users_def)
  then show ?thesis by (intro exI [of _ new]) (simp add: list_all_iff plain_user_def)
qed

theorem no_request_makes_an_admin_witness:
  "list_all (\<lambda>u. u_role u = ''user'' \<and> u_is_active u) (gw_users (snd (handle_requests demo_env
     [(demo_readings, demo_request (Register ''root'' ''r@x'' ''pw'') ''1.1.1.1'' [])] demo_gateway)))"
proof -
  obtain rs h where "handle_requests demo_env
      [(demo_readings, demo_request (Register ''root'' ''r@x'' ''pw'') ''1.1.1.1'' [])] demo_gateway = (rs, h)"
    by fastforce
  with no_request_makes_an_admin [OF _ this, of "\<lambda>us. us"] show ?thesis
    by (auto simp: user_table_list simp del: handle_requests.simps)
qed

text \<open>
  C24. Registration on every branch: a password over 72 bytes raises \<open>ValueError\<close> before anything is
  looked up, a taken user name is answered 409, a taken address or identifier and an overlong column
  raise the database's error, which no handler answers, and only otherwise the answer is 201 and
  the user is added, last, with the role \<open>user\<close>.
\<close>

theorem registration_outcomes:
  assumes "user_table (e_users E) rows" and "bcrypt_contract (e_bcrypt E)"
    and "rq_endpoint request = Register n m p"
    and "72 < utf8_length p \<or> bcrypt_hashpw (e_bcrypt E) p (rd_salt rd) = Inr hashed"
    and "u = new_user rd n m hashed"
  shows "map_prod id (\<lambda>g. rows (gw_users g)) (handle_exceptions (route E rd request) g) =
    (let us = rows (gw_users g)
     in if 72 < utf8_length p then (Inl ValueError, us)
        else if n \<in> u_username ` set us then (Inr (json_response 409 (detail ''Username already exists'') []), us)
        else if \<not> fits_columns u then (Inl DatabaseError, us)
        else if rd_user_id rd \<in> u_id ` set us \<or> m \<in> u_email ` set us then (Inl IntegrityError, us)
        else (Inr (json_response 201 (user_response u) []), us @ [u]))"
proof -
  have run: "map_prod id (\<lambda>g. rows (gw_users g)) (register E rd n m p g) =
    (let us = rows (gw_users g)
     in if 72 < utf8_length p then (Inl ValueError, us)
        else if n \<in> u_username ` set us then (Inl (HTTPException PlainHTTP 409 ''Username already exists'' []), us)
        else if \<not> fits_columns u then (Inl DatabaseError, us)
        else if rd_user_id rd \<in> u_id ` set us \<or> m \<in> u_email ` set us then (Inl IntegrityError, us)
        else (Inr (json_response 201 (user_response u) []), us @ [u]))"
    using register_run [OF assms(1), of rd n m p g] assms(4) bcrypt_contract.long_hash_law [OF assms(2), of p "rd_salt rd"]
    by (auto simp: Let_def assms(5))
  obtain r g' where r: "register E rd n m p g = (r, g')" by fastforce
  show ?thesis
    using run unfolding r
    by (auto simp: handle_exceptions_def try_except_def route_def assms(3) r ret_def raise_exn_def Let_def
        split: if_splits sum.splits)
qed

theorem registration_outcomes_witness:
  "fst (handle_exceptions (route demo_env demo_readings
     (demo_request (Register ''ann'' ''root@x'' ''pw'') ''1.1.1.1'' []))
     (demo_gateway\<lparr>gw_users := [\<lparr>u_id = ''u0'', u_username = ''root'', u_email = ''root@x'',
        u_hashed_password = ''$2b$x'', u_is_active = True, u_role = ''admin'', u_created_at = 0\<rparr>]\<rparr>)) = Inl IntegrityError"
proof -
  let ?g = "demo_gateway\<lparr>gw_users := [\<lparr>u_id = ''u0'', u_username = ''root'', u_email = ''root@x'',
        u_hashed_password = ''$2b$x'', u_is_active = True, u_role = ''admin'', u_created_at = 0\<rparr>]\<rparr>"
  let ?u = "\<lparr>u_id = ''u1'', u_username = ''ann'', u_email = ''root@x'', u_hashed_password = ''$2b$pw'',
             u_is_active = True, u_role = ''user'', u_created_at = 0\<rparr>"
  have pw: "\<not> 72 < utf8_length ''pw''" "bcrypt_hashpw ref_bcrypt ''pw'' salt = Inr ''$2b$pw''" for salt
    by (simp_all add: utf8_length_def ref_bcrypt_def)
  have fits: "fits_columns ?u" by (simp add: fits_columns_def)
  have id: "rd_user_id demo_readings = ''u1''" by (simp add: demo_readings_def)
  have "map_prod id gw_users (handle_exceptions (route demo_env demo_readings
      (demo_request (Register ''ann'' ''root@x'' ''pw'') ''1.1.1.1'' [])) ?g) = (Inl IntegrityError, gw_users ?g)"
    by (subst registration_outcomes [where n = "''ann''" and m = "''root@x''" and p = "''pw''" and
          hashed = "''$2b$pw''" and rows = "\<lambda>us. us" and u = ?u])
      (simp_all add: user_table_list bcrypt_contract_ref pw fits id Let_def new_user_def demo_readings_def)
  then show ?thesis by (metis fst_conv fst_map_prod id_apply)
qed

text \<open>
  C12. A registered user can log in: whatever was registered in between, from an address and for a
  user name below both thresholds, the login with the same password answers 200 with a token that
  carries the user name and the role \<open>user\<close>, is accepted for exactly thirty minutes, and never raises.
\<close>

theorem registered_user_can_log_in:
  assumes "redis_server (e_redis E) view" and "user_table (e_users E) rows"
    and "bcrypt_contract (e_bcrypt E)" and "jwt_contract (e_jwt E)"
    and "register E rd n m p g = (Inr r, g1)" and "rows (gw_users g2) = rows (gw_users g1) @ later"
    and "\<And>x. counter_ok (view (store (gw_node g2))) x \<and> failures (view (store (gw_node g2))) x + 2 < 2 ^ 62"
    and "0 < auth_failure_window_seconds (e_settings E)"
    and "failures (view (store (gw_node g2))) (attr_or (rq_client request) ''unknown'') < auth_failure_ip_threshold (e_settings E)"
    and "failures (view (store (gw_node g2))) n < auth_failure_user_threshold (e_settings E)"
  shows "\<exists>token g3. login E rd2 request n p g2 = (Inr (json_response 200 (token_response token) []), g3) \<and>
    (\<forall>now. decode_access_token (e_jwt E) (e_settings E) now token =
       Inr (if now \<le> rd_login_s rd2 + 30 * 60
            then Some [(''sub'', JStr n), (''role'', JStr ''user''), (''exp'', JInt (rd_login_s rd2 + 30 * 60))]
            else None))"
proof -
  let ?us = "rows (gw_users g)"
  obtain h where h: "bcrypt_hashpw (e_bcrypt E) p (rd_salt rd) = Inr h"
    using register_run [OF assms(2), of rd n m p g] assms(5) by (auto split: sum.splits)
  let ?u = "new_user rd n m h"
  have g1: "rows (gw_users g1) = ?us @ [?u]" and new: "n \<notin> u_username ` set ?us"
    using register_run [OF assms(2), of rd n m p g] assms(5) h by (auto simp: Let_def split: if_splits)
  have "find (\<lambda>u. u_username u = n) ?us = None" using new by (auto simp: find_None_iff)
  then have find: "find (\<lambda>u. u_username u = n) (rows (gw_users g2)) = Some ?u"
    using g1 assms(6) by (simp add: find_append)
  let ?ks = "view (store (gw_node g2))" and ?ip = "attr_or (rq_client request) ''unknown''"
  note check = stuffing_run [of ?ks ?ip n "auth_failure_ip_threshold (e_settings E)" "auth_failure_user_threshold (e_settings E)"]
  obtain ks' where "record_auth_failure ks_redis ?ip n (auth_failure_window_seconds (e_settings E)) ?ks = (Inr (), ks')"
    using record_failure_run [of ?ks "auth_failure_window_seconds (e_settings E)" ?ip n] assms(7,8) by metis
  from login_run [OF assms(1,2) refl check this, where p = p and rd = rd2]
  obtain g3 where "login E rd2 request n p g2 =
      (Inr (json_response 200 (token_response (token_for E rd2 ?u)) []), g3)"
    using assms(7,9,10) find bcrypt_contract.check_law [OF assms(3) h]
    by (cases "login E rd2 request n p g2") (simp add: stuffing_verdict_def password_ok_def verify_password_def)
  moreover have "plain_claims (login_claims ?u)" "''exp'' \<notin> fst ` set (login_claims ?u)"
    by (simp_all add: plain_claims_def login_claims_def)
  from jwt_contract.token_decodes [OF assms(4) this]
  have "decode_access_token (e_jwt E) (e_settings E) now (token_for E rd2 ?u) =
       Inr (if now \<le> rd_login_s rd2 + 30 * 60
            then Some [(''sub'', JStr n), (''role'', JStr ''user''), (''exp'', JInt (rd_login_s rd2 + 30 * 60))]
            else None)" for now
    unfolding token_for_def by (simp add: login_claims_def)
  ultimately show ?thesis by blast
qed

lemma demo_counters: "counter_ok (empty_keyspace 0) x" "failures (empty_keyspace 0) x = 0"
  by (simp_all add: counter_ok_def failures_def string_value_def)

theorem registered_user_can_log_in_witness:
  "\<exists>token g. login demo_env demo_readings (demo_request (Login ''ann'' ''pw'') ''1.1.1.1'' []) ''ann'' ''pw''
       (snd (register demo_env demo_readings ''ann'' ''a@x'' ''pw'' demo_gateway)) =
     (Inr (json_response 200 (token_response token) []), g) \<and>
     decode_access_token ref_jwt demo_settings 1801 token = Inr None"
proof -
  obtain q g1 where g1: "register demo_env demo_readings ''ann'' ''a@x'' ''pw'' demo_gateway = (q, g1)" by fastforce
  have pw: "bcrypt_hashpw ref_bcrypt ''pw'' salt = Inr ''$2b$pw''" for salt
    by (simp add: utf8_length_def ref_bcrypt_def)
  have q: "\<exists>r. q = Inr r" and st: "store (gw_node g1) = empty_keyspace 0"
    using g1 by (auto simp: register_def Let_def bind_def hash_password_def pw lift_result_def on_users_def zoom_def new_user_def
        list_users_def tbl_find_def tbl_add_def gets_def fits_columns_def ret_def demo_readings_def)
  then obtain r where r: "register demo_env demo_readings ''ann'' ''a@x'' ''pw'' demo_gateway = (Inr r, g1)"
    using g1 by auto
  have "\<exists>token g3. login demo_env demo_readings (demo_request (Login ''ann'' ''pw'') ''1.1.1.1'' []) ''ann'' ''pw'' g1 =
      (Inr (json_response 200 (token_response token) []), g3) \<and>
      (\<forall>now. decode_access_token (e_jwt demo_env) (e_settings demo_env) now token =
        Inr (if now \<le> rd_login_s demo_readings + 30 * 60
          then Some [(''sub'', JStr ''ann''), (''role'', JStr ''user''), (''exp'', JInt (rd_login_s demo_readings + 30 * 60))]
          else None))"
    by (rule registered_user_can_log_in [where view = "\<lambda>ks. ks" and rows = "\<lambda>us. us" and later = "[]", OF _ _ _ _ r])
      (simp_all add: redis_server_ks user_table_list bcrypt_contract_ref jwt_contract_ref st demo_counters demo_settings_def)
  then obtain token g3 where t: "login demo_env demo_readings (demo_request (Login ''ann'' ''pw'') ''1.1.1.1'' []) ''ann'' ''pw'' g1 =
      (Inr (json_response 200 (token_response token) []), g3)"
    "decode_access_token ref_jwt demo_settings 1801 token = Inr None" by auto
  show ?thesis by (rule exI [of _ token], rule exI [of _ g3]) (use t in \<open>simp add: g1\<close>)
qed

text \<open>
  C13. One address that logs in one request at a time has as many guesses as its threshold, per
  window: starting without recorded failures, of any series of calls of the login handler from one
  address, one after the other, with wrong user names or passwords within one window, exactly the
  first ones up to the threshold are answered 401, and every later one is refused with 403 before the
  password is looked at. It needs a threshold for addresses that is not above the one for user names,
  and user names that differ from the address; logins in flight at the same time get more guesses.
\<close>

theorem guesses_from_one_address:
  assumes "timed_redis (e_redis E) view (e_elapse E)" and "user_table (e_users E) rows"
    and "auth_failure_ip_threshold (e_settings E) \<le> auth_failure_user_threshold (e_settings E)"
    and "0 < auth_failure_window_seconds (e_settings E)"
    and "\<forall>x. entry (view (store (gw_node g))) (failed_auth_key x) = None"
    and "\<forall>(dt, n, p) \<in> set es. 0 \<le> dt \<and> n \<noteq> ip \<and>
        password_ok E (find (\<lambda>u. u_username u = n) (rows (gw_users g))) p = Inr False"
    and "sum_list (map fst es) \<le> auth_failure_window_seconds (e_settings E) * 1000" and "length es < 2 ^ 60"
  shows "login_attempts E rd ip es g =
    map (\<lambda>i. Inl (if int i < auth_failure_ip_threshold (e_settings E)
         then HTTPException PlainHTTP 401 ''Invalid credentials'' []
         else HTTPException PlainHTTP 403 ''Too many failed attempts'' [])) [0..<length es]"
proof -
  have "attempted (view (store (gw_node g))) ip 0 (sum_list (map fst es))"
    using assms(5) by (simp add: attempted_def counter_ok_def failures_def string_value_def)
  from login_attempts_run [OF assms(1-4,6) this assms(7)] show ?thesis
    using assms(8) by (simp add: too_many_def invalid_credentials_def)
qed

theorem guesses_from_one_address_witness:
  "login_attempts demo_env demo_readings ''6.6.6.6'' (replicate 12 (1000, ''ann'', ''guess'')) demo_gateway =
   map (\<lambda>i. Inl (if int i < 10 then HTTPException PlainHTTP 401 ''Invalid credentials'' []
        else HTTPException PlainHTTP 403 ''Too many failed attempts'' [])) [0..<12]"
  by (subst guesses_from_one_address [where view = "\<lambda>ks. ks" and rows = "\<lambda>us. us"])
    (simp_all add: timed_redis_ks user_table_list demo_settings_def password_ok_def sum_list_replicate)

end
