(* ===== verification/ServerState.thy ===== *)
theory ServerState
  imports Deployment Accounts
begin

text \<open>
  The schema of the server: what kind of value lies under which key, how large it may get and how
  late it may expire. On a server that fits it no service of the gateway meets an error of Redis, and
  every service leaves such a server; so a deployment keeps it through all its events, and the only
  requests that can end in the server's 500 are those that do so for another reason.
\<close>

section \<open>The schema\<close>

text \<open>
  One login lets each of its two counters grow by one, or one by two, and only below the thresholds,
  so no counter gets over the larger one plus one.
\<close>

definition counter_cap :: "settings \<Rightarrow> int" where
  "counter_cap S = max (auth_failure_ip_threshold S) (auth_failure_user_threshold S) + 1"

text \<open>\<open>expires_by t d\<close>: the key has a deadline, and no later one than \<open>t\<close>.\<close>

fun expires_by :: "int \<Rightarrow> int option \<Rightarrow> bool" where
  "expires_by t None = False"
| "expires_by t (Some d) = (d \<le> t)"

text \<open>
  What the value and the deadline of a key must be, at the server's clock \<open>now\<close>: for the window of
  a client, a failure counter, the stamps of a client, an event of the shadow log, a soft block, the
  shadow flag and the two block lists.
\<close>

definition window_entry :: "settings \<Rightarrow> int \<Rightarrow> rval \<Rightarrow> int option \<Rightarrow> bool" where
  "window_entry S now v d \<longleftrightarrow> (\<exists>zs. v = RZset zs \<and> int (length zs) \<le> rate_limit_requests S) \<and>
     expires_by (now + (rate_limit_window_seconds S + 1) * 1000) d"

definition counter_entry :: "settings \<Rightarrow> int \<Rightarrow> rval \<Rightarrow> int option \<Rightarrow> bool" where
  "counter_entry S now v d \<longleftrightarrow> (\<exists>n. v = RStr (show_int n) \<and> 0 \<le> n \<and> n \<le> counter_cap S) \<and>
     expires_by (now + auth_failure_window_seconds S * 1000) d"

definition stamps_entry :: "settings \<Rightarrow> int \<Rightarrow> rval \<Rightarrow> int option \<Rightarrow> bool" where
  "stamps_entry S now v d \<longleftrightarrow>
     (\<exists>ts. v = RZset (stamped ts) \<and> ts \<noteq> [] \<and> sorted_wrt (<) ts \<and> int (length ts) \<le> scraping_sample_size S) \<and>
     expires_by (now + 3600 * 1000) d"

definition event_entry :: "int \<Rightarrow> rval \<Rightarrow> int option \<Rightarrow> bool" where
  "event_entry now v d \<longleftrightarrow> (\<exists>ev. v = RStr (json_dumps (event_json ev))) \<and> expires_by (now + shadow_log_ttl * 1000) d"

definition block_entry :: "int \<Rightarrow> rval \<Rightarrow> int option \<Rightarrow> bool" where
  "block_entry now v d \<longleftrightarrow> v = RStr ''1'' \<and> expires_by (now + soft_block_ttl * 1000) d"

definition flag_entry :: "rval \<Rightarrow> int option \<Rightarrow> bool" where
  "flag_entry v d \<longleftrightarrow> (\<exists>t. v = RStr t) \<and> d = None"

definition set_entry :: "rval \<Rightarrow> int option \<Rightarrow> bool" where
  "set_entry v d \<longleftrightarrow> (\<exists>A. v = RSet A \<and> A \<noteq> {||}) \<and> d = None"

fun key_ok :: "settings \<Rightarrow> int \<Rightarrow> string \<Rightarrow> (rval \<times> int option) option \<Rightarrow> bool" where
  "key_ok S now k None = True"
| "key_ok S now k (Some (v, d)) =
     (if py_startswith k ''rate_limit:'' then window_entry S now v d
      else if py_startswith k ''failed_auth:'' then counter_entry S now v d
      else if py_startswith k ''request_times:'' then stamps_entry S now v d
      else if py_startswith k ''shadow_log:'' then event_entry now v d
      else if py_startswith k ''blocked_ip:'' then block_entry now v d
      else if k = flag_key then flag_entry v d
      else if k = ''known_bad_ips'' \<or> k = ''abusive_agents'' then set_entry v d
      else True)"

definition server_ok :: "settings \<Rightarrow> keyspace \<Rightarrow> bool" where
  "server_ok S ks \<longleftrightarrow> (\<forall>k. key_ok S (know ks) k (entry ks k))"

lemma key_ok_simps [simp]:
  "key_ok S t (rate_key x) (Some (v, d)) = window_entry S t v d"
  "key_ok S t (failed_auth_key x) (Some (v, d)) = counter_entry S t v d"
  "key_ok S t (request_times_key x) (Some (v, d)) = stamps_entry S t v d"
  "key_ok S t (shadow_log_key x) (Some (v, d)) = event_entry t v d"
  "key_ok S t (block_key x) (Some (v, d)) = block_entry t v d"
  "key_ok S t flag_key (Some (v, d)) = flag_entry v d"
  "key_ok S t ''known_bad_ips'' (Some (v, d)) = set_entry v d"
  "key_ok S t ''abusive_agents'' (Some (v, d)) = set_entry v d"
  by (simp_all add: py_startswith_def rate_key_def failed_auth_key_def request_times_key_def
      shadow_log_key_def block_key_def flag_key_def)

declare key_ok.simps(2) [simp del]

lemmas entry_kinds = window_entry_def counter_entry_def stamps_entry_def event_entry_def block_entry_def
  flag_entry_def set_entry_def

lemma expires_later: "expires_by t d \<Longrightarrow> t \<le> t' \<Longrightarrow> expires_by t' d"
  by (cases d) auto

lemma key_ok_later:
  assumes "key_ok S t k e" and "t \<le> t'"
  shows "key_ok S t' k e"
proof (cases e)
  case (Some p)
  obtain v d where p: "p = (v, d)" by (cases p)
  have "expires_by (t' + n) d" if "expires_by (t + n) d" for n
    by (rule expires_later [OF that]) (use assms(2) in simp)
  then have "window_entry S t v d \<longrightarrow> window_entry S t' v d" "counter_entry S t v d \<longrightarrow> counter_entry S t' v d"
    "stamps_entry S t v d \<longrightarrow> stamps_entry S t' v d" "event_entry t v d \<longrightarrow> event_entry t' v d"
    "block_entry t v d \<longrightarrow> block_entry t' v d"
    unfolding entry_kinds by blast+
  then show ?thesis using assms(1) unfolding Some p key_ok.simps(2) by presburger
qed simp

lemma server_okD: "server_ok S ks \<Longrightarrow> key_ok S (know ks) k (entry ks k)"
  by (simp add: server_ok_def)

lemma server_ok_at: "server_ok S ks \<Longrightarrow> entry ks k = Some e \<Longrightarrow> key_ok S (know ks) k (Some e)"
  using server_okD [of S ks k] by simp

lemma server_ok_one:
  "server_ok S ks \<Longrightarrow> know ks' = know ks \<Longrightarrow> (\<And>k'. k' \<noteq> k \<Longrightarrow> entry ks' k' = entry ks k') \<Longrightarrow>
   key_ok S (know ks) k (entry ks' k) \<Longrightarrow> server_ok S ks'"
  unfolding server_ok_def by metis

lemma server_ok_empty: "server_ok S (empty_keyspace t)"
  by (simp add: server_ok_def)

lemma server_ok_put: "server_ok S ks \<Longrightarrow> key_ok S (know ks) k (Some (v, d)) \<Longrightarrow> server_ok S (put k v d ks)"
  by (erule server_ok_one [where k = k]) (auto split: option.splits)

lemma server_ok_drop: "server_ok S ks \<Longrightarrow> server_ok S (drop_key k ks)"
  by (erule server_ok_one [where k = k]) simp_all

lemma server_ok_elapse:
  assumes "server_ok S ks" and "0 \<le> t"
  shows "server_ok S (ks_elapse t ks)"
proof -
  have "entry (ks_elapse t ks) k = entry ks k \<or> entry (ks_elapse t ks) k = None" for k
    using assms(2) by (auto simp: entry_elapse split: option.splits)
  moreover have "key_ok S (know (ks_elapse t ks)) k (entry ks k)" for k
    using key_ok_later [OF server_okD [OF assms(1), of k]] assms(2) by simp
  ultimately show ?thesis unfolding server_ok_def by (metis key_ok.simps(1))
qed

section \<open>What the services find there\<close>

lemma rate_ready:
  assumes "server_ok S ks"
  shows "zset_key ks (rate_key c)"
    and "entry ks (rate_key c) \<noteq> None \<Longrightarrow> int (length (zset_at ks (rate_key c))) \<le> rate_limit_requests S"
  using server_okD [OF assms, of "rate_key c"]
  by (auto simp: zset_key_def zset_at_def window_entry_def elim: expires_by.elims split: option.splits)

lemma counter_ready:
  assumes "server_ok S ks" and "thresholds_ok S"
  shows "counter_ok ks x" and "failures ks x \<le> counter_cap S"
proof -
  have "counter_cap S < 2 ^ 62" using assms(2) by (simp add: counter_cap_def thresholds_ok_def)
  moreover have "0 \<le> counter_cap S" using assms(2) by (simp add: counter_cap_def thresholds_ok_def max_def)
  ultimately show "counter_ok ks x" "failures ks x \<le> counter_cap S"
    using server_okD [OF assms(1), of "failed_auth_key x"]
    by (cases "entry ks (failed_auth_key x)";
        auto simp: counter_entry_def counter_ok_def failures_def string_value_def elim: expires_by.elims)+
qed

lemma stamps_ready:
  assumes "server_ok S ks"
  obtains ts d where "samples_at ks c ts d" and "sorted_wrt (<) ts"
proof (cases "entry ks (request_times_key c)")
  case None
  then show thesis by (intro that [of "[]" 0]) (simp_all add: samples_at_def)
next
  case (Some e)
  then show thesis
    using server_okD [OF assms, of "request_times_key c"] that
    by (cases e) (force simp: stamps_entry_def samples_at_def elim: expires_by.elims)
qed

lemma flag_ready: "server_ok S ks \<Longrightarrow> flag_ok ks"
  using server_okD [of S ks flag_key] by (auto simp: flag_ok_def flag_entry_def split: option.splits)

lemma lists_ready:
  assumes "server_ok S ks"
  obtains A B where "sets_are ks A B"
proof -
  have *: "\<exists>A. entry ks k = (if A = {||} then None else Some (RSet A, None))"
    if "k = ''known_bad_ips'' \<or> k = ''abusive_agents''" for k
  proof (cases "entry ks k")
    case (Some e)
    have "\<exists>A. fst e = RSet A \<and> A \<noteq> {||} \<and> snd e = None"
      using server_ok_at [OF assms Some] that by (cases e) (elim disjE; simp add: set_entry_def)
    then show ?thesis using Some by (cases e) auto
  qed simp
  obtain A where "entry ks ''known_bad_ips'' = (if A = {||} then None else Some (RSet A, None))"
    using * [of "''known_bad_ips''"] by auto
  moreover obtain B where "entry ks ''abusive_agents'' = (if B = {||} then None else Some (RSet B, None))"
    using * [of "''abusive_agents''"] by auto
  ultimately show thesis by (intro that [of A B]) (simp only: sets_are_def)
qed

lemma log_ready:
  assumes "server_ok S ks"
  obtains f where "log_is ks f"
proof
  let ?K = "fset (live_keys ks ''shadow_log:*'')"
  define f where "f k = (if k \<in> ?K then Some (SOME ev. string_value ks k = Some (json_dumps (event_json ev))) else None)" for k
  have "\<exists>ev. string_value ks k = Some (json_dumps (event_json ev))" if "k \<in> ?K" for k
  proof -
    have k: "entry ks k \<noteq> None" "py_startswith k ''shadow_log:''" using that live_shadow_keys by auto
    then obtain x where x: "k = shadow_log_key x" by (auto simp: py_startswith_iff shadow_log_key_def)
    show ?thesis using server_okD [OF assms, of k] k(1) unfolding x by (force simp: event_entry_def string_value_def)
  qed
  then show "log_is ks f"
    unfolding log_is_def f_def by (auto intro: someI_ex split: if_splits)
qed

section \<open>The services on such a server\<close>

text \<open>They raise nothing and leave such a server.\<close>

definition limits_ok :: "settings \<Rightarrow> bool" where
  "limits_ok S \<longleftrightarrow> thresholds_ok S \<and> 0 \<le> rate_limit_window_seconds S \<and> 0 < auth_failure_window_seconds S"

lemma safe_run:
  assumes "\<And>ks. P ks \<Longrightarrow> \<exists>x ks'. m ks = (Inr x, ks') \<and> P ks'"
  shows "safe {} P m"
  by (rule safeI) (use assms in fastforce)+

lemma safe_limiter:
  assumes S: "limits_ok S"
  shows "safe {} (server_ok S) 
    (check_rate_limit ks_redis now c (rate_limit_requests S) (rate_limit_window_seconds S))"
proof (rule safe_run)
  fix ks assume ok: "server_ok S ks"
  let ?W = "rate_limit_window_seconds S" and ?l = "rate_limit_requests S"
  let ?zs = "unexpired now ?W (zset_at ks (rate_key c))"
  have W: "0 \<le> ?W" using S by (simp add: limits_ok_def)
  obtain r ks' where r: "sliding_window_script ks_redis (rate_key c) now ?W ?l (rate_request_id now c) ks = (Inr r, ks')"
    and t: "know ks' = know ks" and e: "key_ok S (know ks) (rate_key c) (entry ks' (rate_key c))"
    and same: "\<And>k. k \<noteq> rate_key c \<Longrightarrow> entry ks' k = entry ks k"
  proof (cases "int (length ?zs) < ?l")
    case True
    obtain ks' where r: "sliding_window_script ks_redis (rate_key c) now ?W ?l (rate_request_id now c) ks =
        (Inr (1, ?l - int (length ?zs) - 1), ks')"
      and t: "know ks' = know ks"
      and e: "entry ks' (rate_key c) = Some (RZset (zinsert (rate_request_id now c) now ?zs), Some (know ks + (?W + 1) * 1000))"
      and same: "\<And>k. k \<noteq> rate_key c \<Longrightarrow> entry ks' k = entry ks k"
      by (rule script_accept [OF rate_ready(1) [OF ok] W True]) blast
    have "length (zinsert m now ?zs) \<le> Suc (length ?zs)" for m by (simp add: zinsert_def)
    from this [of "rate_request_id now c"] True have "key_ok S (know ks) (rate_key c) (entry ks' (rate_key c))"
      by (simp add: e window_entry_def)
    then show thesis by (rule that [OF r t _ same])
  next
    case False
    obtain ks' where r: "sliding_window_script ks_redis (rate_key c) now ?W ?l (rate_request_id now c) ks = (Inr (0, 0), ks')"
      and t: "know ks' = know ks" and z: "zset_key ks' (rate_key c)" "zset_at ks' (rate_key c) = ?zs"
      and d: "\<And>zs d. entry ks' (rate_key c) = Some (zs, d) \<Longrightarrow> \<exists>zs'. entry ks (rate_key c) = Some (zs', d)"
      and same: "\<And>k. k \<noteq> rate_key c \<Longrightarrow> entry ks' k = entry ks k"
      by (rule script_reject [OF rate_ready(1) [OF ok] False]) blast
    have "key_ok S (know ks) (rate_key c) (entry ks' (rate_key c))"
    proof (cases "entry ks' (rate_key c)")
      case (Some e)
      then obtain v d where e: "entry ks' (rate_key c) = Some (v, d)" by (cases e) auto
      then obtain v' where old: "entry ks (rate_key c) = Some (v', d)" using d by blast
      have "length ?zs \<le> length (zset_at ks (rate_key c))" by (simp add: unexpired_def)
      then have "int (length ?zs) \<le> ?l" using rate_ready(2) [OF ok, of c] old by simp
      then show ?thesis
        using z server_ok_at [OF ok old] by (auto simp: e zset_key_def zset_at_def window_entry_def split: rval.splits option.splits)
    qed simp
    then show thesis by (rule that [OF r t _ same])
  qed
  have "server_ok S ks'" by (rule server_ok_one [OF ok t same e])
  then show "\<exists>x ks'. check_rate_limit ks_redis now c ?l ?W ks = (Inr x, ks') \<and> server_ok S ks'"
    by (simp add: check_rate_limit_def bind_def r ret_def)
qed

lemma safe_verdict:
  assumes S: "limits_ok S"
  shows "safe {} (server_ok S) (abuse_verdict ks_redis S now ip c)"
proof (rule safe_run)
  fix ks assume ok: "server_ok S ks"
  have T: "thresholds_ok S" using S by (simp add: limits_ok_def)
  obtain ts d where ts: "samples_at ks c ts d" "sorted_wrt (<) ts" by (rule stamps_ready [OF ok])
  let ?us = "last_n (nat (scraping_sample_size S)) (stamp_in now ts)"
  obtain ks' where run: "abuse_verdict ks_redis S now ip c ks = (Inr (verdict S ks ip c ?us, shadow_flag S ks), ks')"
    and s: "samples_at ks' c ?us (know ks + 3600 * 1000)"
    and t: "know ks' = know ks"
    and same: "\<And>k. k \<noteq> request_times_key c \<Longrightarrow> k \<noteq> block_key ip \<Longrightarrow> entry ks' k = entry ks k"
    and b: "entry ks' (block_key ip) = entry ks (block_key ip) \<or>
      entry ks' (block_key ip) = Some (RStr ''1'', Some (know ks + soft_block_ttl * 1000))"
    by (rule verdict_insert [OF T counter_ready(1) [OF ok T] counter_ready(1) [OF ok T] ts(1) zinsert_sorted flag_ready [OF ok]]) blast
  have "key_ok S (know ks) k (entry ks' k)" for k
  proof -
    consider "k = request_times_key c" | "k = block_key ip" | "k \<noteq> request_times_key c" "k \<noteq> block_key ip" by blast
    then show ?thesis
    proof cases
      case 1
      then show ?thesis
        using s stamp_in_sorted [OF ts(2)] T by (auto simp: samples_at_def stamps_entry_def thresholds_ok_def split: if_splits)
    next
      case 2
      then show ?thesis using b server_okD [OF ok, of k] by (auto simp: block_entry_def)
    qed (use same server_okD [OF ok] in simp)
  qed
  then show "\<exists>x ks'. abuse_verdict ks_redis S now ip c ks = (Inr x, ks') \<and> server_ok S ks'"
    by (simp add: run server_ok_def t)
qed

lemma safe_flag: "safe {} (server_ok S) (is_shadow_mode_enabled ks_redis (shadow_mode_enabled S))"
  by (rule safe_run) (simp add: flag_run [OF flag_ready])

lemma safe_log: "safe {} (server_ok S) (log_shadow_event ks_redis now q rule c p why)"
  by (rule safe_run)
    (auto simp: log_shadow_event_def Let_def ks_set_def shadow_log_ttl_def event_entry_def intro!: server_ok_put)

lemma safe_small:
  "safe {} (server_ok S) (get_client_state ks_redis ip)"
  "safe {} (server_ok S) (apply_soft_block ks_redis ip soft_block_ttl)"
  "safe {} (server_ok S) (remove_soft_block ks_redis ip)"
  "safe {} (server_ok S) (ks_set flag_key v None)"
  by (rule safe_run;
      auto simp: get_client_state_def apply_soft_block_def remove_soft_block_def ks_exists_def ks_set_def ks_delete_def
        block_entry_def flag_entry_def soft_block_ttl_def bind_def discard_def ret_def intro!: server_ok_put server_ok_drop)+

lemma safe_sadd: "k \<in> {''known_bad_ips'', ''abusive_agents''} \<Longrightarrow> safe {} (server_ok S) (ks_sadd k m)"
proof (rule safe_run)
  fix ks assume k: "k \<in> {''known_bad_ips'', ''abusive_agents''}" and ok: "server_ok S ks"
  show "\<exists>x ks'. ks_sadd k m ks = (Inr x, ks') \<and> server_ok S ks'"
    using ok k server_okD [OF ok, of k] by (auto simp: set_entry_def ks_sadd_def intro!: server_ok_put split: option.splits)
qed

text \<open>A login records its failure only after a test below both thresholds.\<close>

lemma safe_stuffing:
  assumes "limits_ok S"
  shows "safe {} (server_ok S) (is_credential_stuffing ks_redis ip n i u)"
  by (rule safe_run) (use counter_ready(1) assms in \<open>auto simp: stuffing_run limits_ok_def\<close>)

lemma failure_recorded:
  assumes S: "limits_ok S" and ok: "server_ok S ks"
    and "failures ks ip < auth_failure_ip_threshold S" and "failures ks n < auth_failure_user_threshold S"
  obtains ks' where "record_auth_failure ks_redis ip n (auth_failure_window_seconds S) ks = (Inr (), ks')" and "server_ok S ks'"
proof -
  have T: "thresholds_ok S" and w: "0 < auth_failure_window_seconds S" using S by (simp_all add: limits_ok_def)
  note c = counter_ready [OF ok T]
  have small: "failures ks x + 2 < 2 ^ 62" for x
    using c(2) [of x] T by (simp add: counter_cap_def thresholds_ok_def max_def split: if_splits)
  obtain ks' where r: "record_auth_failure ks_redis ip n (auth_failure_window_seconds S) ks = (Inr (), ks')"
    and t: "know ks' = know ks"
    and c': "\<And>x. counter_ok ks' x" "\<And>x. failures ks' x = failures ks x + bump ip n x"
    and d: "\<And>x. x = ip \<or> x = n \<Longrightarrow>
      \<exists>v. entry ks' (failed_auth_key x) = Some (v, Some (know ks + auth_failure_window_seconds S * 1000))"
    and same: "\<And>k. k \<noteq> failed_auth_key ip \<Longrightarrow> k \<noteq> failed_auth_key n \<Longrightarrow> entry ks' k = entry ks k"
    by (rule record_failure_run [OF c(1) small w]) blast
  have cap: "failures ks' x \<le> counter_cap S" if "x = ip \<or> x = n" for x
    using that assms(3,4) by (auto simp: c'(2) bump_def counter_cap_def)
  have "key_ok S (know ks) k (entry ks' k)" for k
  proof (cases "\<exists>x. (x = ip \<or> x = n) \<and> k = failed_auth_key x")
    case True
    then obtain x where x: "x = ip \<or> x = n" "k = failed_auth_key x" by blast
    from c'(1) [of x] have "key_ok S (know ks) (failed_auth_key x) (entry ks' (failed_auth_key x))"
      by (cases rule: counter_okE) (use cap [OF x(1)] d [OF x(1)] in \<open>auto simp: counter_entry_def\<close>)
    then show ?thesis by (simp add: x(2))
  next
    case False
    then have "k \<noteq> failed_auth_key ip" "k \<noteq> failed_auth_key n" by auto
    then show ?thesis using same server_okD [OF ok, of k] by simp
  qed
  then have "server_ok S ks'" by (simp add: server_ok_def t)
  then show thesis by (rule that [OF r])
qed

section \<open>One request\<close>

text \<open>What can still leave the chain and end in the server's 500, endpoint by endpoint.\<close>

fun crashes :: "endpoint \<Rightarrow> exn set" where
  "crashes (Register n m p) = {ValueError, DatabaseError, IntegrityError}"
| "crashes (Login n p) = {ValueError}"
| "crashes (BlockIp ip) = {IndexError}"
| "crashes (BlockAgent a) = {IndexError}"
| "crashes e = {}"

lemma ok_framed:
  assumes "redis_server R view"
  shows "framed R (\<lambda>k. False) (\<lambda>s. server_ok S (view s))"
proof -
  have "framed R (\<lambda>k. k \<notin> UNIV) (\<lambda>s. server_ok S (view s))"
    by (rule redis_server.framed_same_on [OF assms]) (auto simp: same_on_def server_ok_def)
  then show ?thesis by simp
qed

lemma safe_stats:
  assumes R: "redis_server R view"
  shows "safe {} (\<lambda>s. server_ok S (view s)) (get_shadow_stats R)"
proof (rule safeI)
  note reads = framed_reads [OF ok_framed [OF R], of S]
  have "keeps (\<lambda>s. server_ok S (view s)) (get_shadow_stats R)"
    unfolding get_shadow_stats_def
    by (intro keeps_intros reads pipe_keeps) (auto simp: list_all_iff intro: reads)
  then show "server_ok S (view s')" if "server_ok S (view s)" "get_shadow_stats R s = (r, s')" for s r s'
    using that by (blast dest: safeD)
  show "e \<in> {}" if ok: "server_ok S (view s)" and run: "get_shadow_stats R s = (Inl e, s')" for s e s'
  proof -
    obtain f where "log_is (view s) f" by (rule log_ready [OF ok])
    from stats_run [OF R this] show ?thesis using run by auto
  qed
qed

text \<open>The block lists: after the command the filter may be full.\<close>

lemma safe_hard:
  assumes R: "redis_server R view" and k: "k \<in> {''known_bad_ips'', ''abusive_agents''}"
    and add: "safe {IndexError} (\<lambda>_. True) add"
  shows "safe {IndexError} (\<lambda>g. server_ok S (view (store (gw_node g))))
    (on_node (bind (on_store (r_sadd R k m)) (\<lambda>_. on_bloom add)))"
proof -
  let ?P = "\<lambda>s. server_ok S (view s)"
  have sadd: "safe {} ?P (r_sadd R k m)"
    by (rule keeps_sim [OF redis_server.sadd_law [OF R] safe_sadd [OF k]])
  show ?thesis
    unfolding on_node_def on_store_def on_bloom_def
    by (rule keeps_zoom [where P' = "\<lambda>n. ?P (store n)"], simp, simp,
        rule keeps_bind, rule keeps_zoom [where P' = ?P], simp, simp, rule safe_mono [OF sadd], simp,
        rule keeps_zoom [where P' = "\<lambda>_. True"], simp, simp, rule add)
qed

lemma safe_add:
  assumes "membership_filter L"
  shows "safe {IndexError} (\<lambda>_. True) (add_ip L ip)" "safe {IndexError} (\<lambda>_. True) (add_agent L a)"
  using membership_filter.raise_law [OF assms]
  by (auto intro!: safeI simp: add_ip_def add_agent_def split: sum.splits)

lemma safe_login:
  assumes R: "redis_server (e_redis E) view" and D: "user_table (e_users E) rows"
    and B: "bcrypt_contract (e_bcrypt E)" and S: "limits_ok (e_settings E)"
  shows "safe ({ValueError} \<union> handled) (\<lambda>g. server_ok (e_settings E) (view (store (gw_node g)))) (login E rd request n p)"
  unfolding safe_def
proof (intro allI impI)
  let ?S = "e_settings E" and ?ip = "attr_or (rq_client request) ''unknown''"
  fix g r g' assume ok: "server_ok ?S (view (store (gw_node g)))" and run: "login E rd request n p g = (r, g')"
  let ?ks = "view (store (gw_node g))"
  have T: "thresholds_ok ?S" and w: "0 < auth_failure_window_seconds ?S" using S by (simp_all add: limits_ok_def)
  note c = counter_ready [OF ok T]
  have small: "failures ?ks x + 2 < 2 ^ 62" for x
    using c(2) [of x] T by (simp add: counter_cap_def thresholds_ok_def max_def split: if_splits)
  let ?v = "stuffing_verdict (auth_failure_ip_threshold ?S) (auth_failure_user_threshold ?S) (failures ?ks ?ip) (failures ?ks n)"
  obtain ks' where count: "record_auth_failure ks_redis ?ip n (auth_failure_window_seconds ?S) ?ks = (Inr (), ks')"
    by (rule record_failure_run [OF c(1) small w]) blast
  have ok': "server_ok ?S ks'" if "\<not> fst ?v"
  proof -
    have "failures ?ks ?ip < auth_failure_ip_threshold ?S" "failures ?ks n < auth_failure_user_threshold ?S"
      using that by (auto simp: stuffing_verdict_def split: if_splits)
    then show ?thesis using failure_recorded [OF S ok] count by (metis Pair_inject)
  qed
  have "password_ok E u p = Inl e \<Longrightarrow> e = ValueError" for u e
    using bcrypt_contract.raise_law(2) [OF B] by (cases u) (auto simp: password_ok_def verify_password_def)
  then show "server_ok ?S (view (store (gw_node g'))) \<and> (\<forall>e. r = Inl e \<longrightarrow> e \<in> {ValueError} \<union> handled)"
    using login_run [OF R D refl stuffing_run [OF c(1) c(1)] count, where p = p and rd = rd] ok ok' unfolding run
    by (auto simp: too_many_def invalid_credentials_def split: if_splits sum.splits bool.splits)
qed

lemma safe_register:
  fixes E :: "('r, 'b, 'd) env"
  assumes D: "user_table (e_users E) rows" and B: "bcrypt_contract (e_bcrypt E)"
  shows "safe (crashes (Register n m p) \<union> handled) (\<lambda>g. P (gw_node g)) (register E rd n m p)"
proof (rule register_keeps)
  have users: "safe X (\<lambda>g. P (gw_node g)) (on_users f)" if "safe X (\<lambda>_. True) f" for f :: "('d, 'x) io" and X
    unfolding on_users_def by (rule keeps_zoom [where P' = "\<lambda>_. True"]) (use that in auto)
  have find: "safe {} (\<lambda>_. True) (db_find (e_users E) n)" for n
    using keeps_sim [OF user_table.find_law [OF D], of "{}" "\<lambda>_. True"] by (simp add: tbl_find_def keeps_gets)
  show "safe (crashes (Register n m p) \<union> handled) (\<lambda>g. P (gw_node g)) (on_users (db_find (e_users E) k))" for k
    by (rule users [OF safe_mono [OF find]]) simp
  have row: "safe {DatabaseError, IntegrityError} (\<lambda>_. True) (tbl_add u)" for u
    by (rule safeI) (auto simp: tbl_add_def split: if_splits)
  show "safe (crashes (Register n m p) \<union> handled) (\<lambda>g. P (gw_node g)) (on_users (db_add (e_users E) u))" for u
    by (rule users [OF safe_mono [OF keeps_sim [OF user_table.add_law [OF D] row]]]) simp
  show "e \<in> crashes (Register n m p) \<union> handled" if "hash_password (e_bcrypt E) (rd_salt rd) p = Inl e" for e
    using that bcrypt_contract.raise_law(1) [OF B] by (auto simp: hash_password_def)
qed auto

lemma safe_route:
  fixes E :: "('r, 'b, 'd) env"
  assumes T: "timed_redis (e_redis E) view (e_elapse E)" and D: "user_table (e_users E) rows"
    and J: "jwt_contract (e_jwt E)" and B: "bcrypt_contract (e_bcrypt E)" and L: "membership_filter (e_bloom E)"
    and S: "limits_ok (e_settings E)"
  shows "safe (crashes (rq_endpoint request) \<union> handled)
    (\<lambda>g :: ('r, 'b, 'd) gateway. server_ok (e_settings E) (view (store (gw_node g)))) (route E rd request)" (is "safe ?Y ?P _")
proof -
  let ?S = "e_settings E"
  have R: "redis_server (e_redis E) view" using T by (simp add: timed_redis_def)
  have redis: "safe X ?P (on_redis m)" if "safe {} (\<lambda>s. server_ok ?S (view s)) m" for m :: "('r, 'x) io" and X
    by (rule safe_mono [OF keeps_on_redis [OF that]]) simp
  have sim: "safe X ?P (on_redis m)" if "simulates view m n" "safe {} (server_ok ?S) n"
    for m :: "('r, 'x) io" and n X
    by (rule redis [OF keeps_sim [OF that]])
  have gauge: "safe ?Y ?P (observe m)" for m by (rule keeps_observe) simp
  have admin: "e \<in> ?Y" if "require_admin E rd request = Inl e" for e
    using require_admin_errors [OF J that] by auto
  have hard: "safe ?Y ?P (on_node (add_ip_to_redis (e_bloom E) (e_redis E) ip))" if "rq_endpoint request = BlockIp ip" for ip
    unfolding add_ip_to_redis_def by (rule safe_mono [OF safe_hard [OF R _ safe_add(1) [OF L]]]) (auto simp: that)
  have hard': "safe ?Y ?P (on_node (add_agent_to_redis (e_bloom E) (e_redis E) a))" if "rq_endpoint request = BlockAgent a" for a
    unfolding add_agent_to_redis_def by (rule safe_mono [OF safe_hard [OF R _ safe_add(2) [OF L]]]) (auto simp: that)
  have login: "safe ?Y ?P (login E rd request n p)" if "rq_endpoint request = Login n p" for n p
    by (rule safe_mono [OF safe_login [OF R D B S]]) (auto simp: that)
  have register: "safe ?Y ?P (register E rd n m p)" if "rq_endpoint request = Register n m p" for n m p
    unfolding that by (rule safe_register [OF D B])
  have ping: "keeps ?P (on_redis (r_ping (e_redis E)))"
    by (intro keeps_on_redis framed_reads [OF ok_framed [OF R]])
  have small: "safe ?Y ?P (on_redis (get_client_state (e_redis E) ip))"
    "safe ?Y ?P (on_redis (apply_soft_block (e_redis E) ip soft_block_ttl))"
    "safe ?Y ?P (on_redis (remove_soft_block (e_redis E) ip))"
    "safe ?Y ?P (on_redis (r_set (e_redis E) ''config:shadow_mode_enabled'' v None))" for ip v
    using safe_small [of ?S] R
    by (auto simp: flag_key_def intro!: sim redis_server.sim_get_client_state redis_server.sim_apply_soft_block
        redis_server.sim_remove_soft_block redis_server.set_law)
  show ?thesis
    by (rule route_keeps [OF register login admin ping gauge gauge redis [OF safe_stats [OF R]] small(2,3,1,4) hard hard'])
qed

lemma safe_request:
  fixes E :: "('r, 'b, 'd) env"
  assumes T: "timed_redis (e_redis E) view (e_elapse E)" and D: "user_table (e_users E) rows"
    and J: "jwt_contract (e_jwt E)" and B: "bcrypt_contract (e_bcrypt E)" and L: "membership_filter (e_bloom E)"
    and S: "limits_ok (e_settings E)"
  shows "safe (crashes (rq_endpoint request)) (\<lambda>g :: ('r, 'b, 'd) gateway. server_ok (e_settings E) (view (store (gw_node g))))
    (auth_dispatch E rd request (inner_chain E rd request))" (is "safe ?X ?P _")
proof -
  let ?S = "e_settings E"
  have R: "redis_server (e_redis E) view" using T by (simp add: timed_redis_def)
  have redis: "safe ?X ?P (on_redis m)" if "safe {} (\<lambda>s. server_ok ?S (view s)) m" for m :: "('r, 'x) io"
    by (rule safe_mono [OF keeps_on_redis [OF that]]) simp
  have sim: "safe ?X ?P (on_redis m)" if "simulates view m n" "safe {} (server_ok ?S) n" for m :: "('r, 'x) io" and n
    by (rule redis [OF keeps_sim [OF that]])
  have state: "safe ?X ?P (set_state f)" "safe ?X ?P (observe m)" for f m
    by (rule keeps_set_state, simp, rule keeps_observe, simp)
  have sleep: "safe {} (\<lambda>s. server_ok ?S (view s)) (apply_throttle (sleep_on E))"
    unfolding apply_throttle_def sleep_on_def
    by (rule safeI) (auto simp: modify_def timed_redis.elapse_law [OF T] throttle_delay_seconds_def server_ok_elapse)
  have flag: "safe ?X ?P (on_redis (is_shadow_mode_enabled (e_redis E) (shadow_mode_enabled ?S)))"
    by (rule sim [OF redis_server.sim_is_shadow_mode_enabled [OF R] safe_flag])
  have log: "safe ?X ?P (on_redis (log_shadow_event (e_redis E) (rd_shadow_s rd) i rule c p why))" for i rule c p why
    by (rule sim [OF redis_server.sim_log_shadow_event [OF R] safe_log])
  show ?thesis
    by (rule auth_keeps [OF state(2,1)], rule sim [OF redis_server.sim_check_rate_limit [OF R] safe_limiter [OF S]],
        rule abuse_keeps [OF state(2,1) sim [OF redis_server.sim_abuse_verdict [OF R] safe_verdict [OF S]] redis [OF sleep] flag log
          safe_route [OF T D J B L S]])
      (use jwt_contract.decode_total [OF J] in \<open>auto, metis sum.distinct(1)\<close>)
qed

section \<open>A deployment\<close>

definition services_healthy :: "('r, 'b, 'd) env \<Rightarrow> ('r \<Rightarrow> keyspace) \<Rightarrow> ('d \<Rightarrow> user list) \<Rightarrow> bool" where
  "services_healthy E view rows \<longleftrightarrow> timed_redis (e_redis E) view (e_elapse E) \<and> user_table (e_users E) rows \<and>
     jwt_contract (e_jwt E) \<and> bcrypt_contract (e_bcrypt E) \<and> membership_filter (e_bloom E) \<and> limits_ok (e_settings E)"

lemma healthy_request:
  assumes "services_healthy E view rows"
  shows "safe (crashes (rq_endpoint request)) (\<lambda>g. server_ok (e_settings E) (view (store (gw_node g))))
    (auth_dispatch E rd request (inner_chain E rd request))"
  by (rule safe_request [where rows = rows]) (use assms in \<open>simp_all add: services_healthy_def\<close>)

lemma healthy_handler:
  assumes "services_healthy E view rows"
  shows "safe (crashes (rq_endpoint request)) (\<lambda>g. server_ok (e_settings E) (view (store (gw_node g))))
    (handle_exceptions (route E rd request))"
  by (rule handle_exceptions_keeps [OF safe_route [where rows = rows]]) (use assms in \<open>simp_all add: services_healthy_def\<close>)

lemma request_500:
  assumes H: "services_healthy E view rows" and "server_ok (e_settings E) (view (store (gw_node g)))"
    and run: "handle_request E rd request g = (internal_server_error, g')"
  shows "crashes (rq_endpoint request) \<noteq> {}"
proof -
  obtain q h where q: "auth_dispatch E rd request (inner_chain E rd request)
      (g\<lparr>gw_state := fresh_state\<lparr>st_request_id := Some (rd_uuid rd)\<rparr>\<rparr>) = (q, h)" by fastforce
  have "\<exists>e. q = Inl e"
    using run unfolding handle_request_inner q by (cases q) (auto simp: tagged_is_no_500)
  then show ?thesis using safe_raises [OF healthy_request [OF H], of rd request] q assms(2) by fastforce
qed

lemma step_server_ok:
  assumes H: "services_healthy E view rows" and ok: "server_ok (e_settings E) (view (d_redis d))"
  shows "server_ok (e_settings E) (view (d_redis (dep_step E e d)))"
proof (cases "\<exists>i rd request. e = Serve i rd request")
  case True
  then obtain i rd request where e: "e = Serve i rd request" by blast
  show ?thesis
  proof (cases "d_processes d i")
    case (Some p)
    obtain r g where g: "handle_request E rd request (process_gateway p d) = (r, g)" by fastforce
    have "server_ok (e_settings E) (view (store (gw_node g)))"
      by (rule handle_keeps [OF safe_mono [OF healthy_request [OF H]] _ _ _ g]) (simp_all add: process_gateway_def ok)
    then show ?thesis by (simp add: e Some serve_process_def g)
  qed (use e ok in simp)
next
  case False
  have T: "timed_redis (e_redis E) view (e_elapse E)" using H by (simp add: services_healthy_def)
  then have R: "redis_server (e_redis E) view" by (simp add: timed_redis_def)
  show ?thesis
    by (rule idle_keeps_server [where P = "\<lambda>s. server_ok (e_settings E) (view s)", OF ok_framed [OF R]])
      (use False ok server_ok_elapse in \<open>auto simp: timed_redis.elapse_law [OF T]\<close>)
qed

lemma run_server_ok:
  "services_healthy E view rows \<Longrightarrow> server_ok (e_settings E) (view (d_redis d)) \<Longrightarrow>
   server_ok (e_settings E) (view (d_redis (dep_run E es d)))"
  by (rule dep_run_induct [where P = "\<lambda>d. server_ok (e_settings E) (view (d_redis d))"]) (auto intro: step_server_ok)

lemma idle_answers: "\<forall>i rd request. e \<noteq> Serve i rd request \<Longrightarrow> d_answers (dep_step E e d) = d_answers d"
  by (cases e) (auto simp: start_process_def sync_process_def split: prod.splits sum.splits option.splits)

lemma run_500:
  assumes H: "services_healthy E view rows" and "server_ok (e_settings E) (view (d_redis d))"
    and "\<forall>a \<in> set (d_answers d). an_response a = internal_server_error \<longrightarrow> crashes (rq_endpoint (an_request a)) \<noteq> {}"
  shows "\<forall>a \<in> set (d_answers (dep_run E es d)). an_response a = internal_server_error \<longrightarrow>
    crashes (rq_endpoint (an_request a)) \<noteq> {}"
  using assms(2,3)
proof (induction es arbitrary: d)
  case (Cons e es)
  have "\<forall>a \<in> set (d_answers (dep_step E e d)). an_response a = internal_server_error \<longrightarrow>
      crashes (rq_endpoint (an_request a)) \<noteq> {}"
  proof (cases "\<exists>i rd request. e = Serve i rd request")
    case True
    then obtain i rd request where e: "e = Serve i rd request" by blast
    then show ?thesis
      using Cons.prems request_500 [OF H, of "process_gateway p d" rd request for p]
      by (auto simp: serve_process_def process_gateway_def split: option.splits prod.splits)
  next
    case False
    then show ?thesis using Cons.prems(2) by (simp add: idle_answers)
  qed
  then show ?case using Cons.IH [OF step_server_ok [OF H Cons.prems(1)]] by simp
qed simp

section \<open>Properties\<close>

text \<open>
  C9. The server keeps its schema: on healthy services, through any sequence of events of the
  deployment, a client's window is a sorted set of at most \<open>rate_limit_requests\<close> entries, a failure
  counter a number of at most the larger threshold plus one, a client's stamps are strictly increasing
  and at most \<open>scraping_sample_size\<close>, an entry of the shadow log is the text of an event and a soft
  block is the text 1; each of these has a deadline, at most its lifetime ahead of the server's clock
  (window + 1 s, failure window, 3600 s, \<open>shadow_log_ttl\<close>, 300 s). The shadow flag is a text and the
  two block lists are non-empty sets, all three without a deadline.
\<close>

theorem server_stays_well_formed:
  assumes "services_healthy E view rows" and "server_ok (e_settings E) (view (d_redis d))"
  shows "server_ok (e_settings E) (view (d_redis (dep_run E es d))) \<and>
    (\<forall>x. failures (view (d_redis (dep_run E es d))) x \<le>
       max (auth_failure_ip_threshold (e_settings E)) (auth_failure_user_threshold (e_settings E)) + 1)"
proof -
  have "thresholds_ok (e_settings E)" using assms(1) by (simp add: services_healthy_def limits_ok_def)
  with run_server_ok [OF assms] counter_ready(2) [OF run_server_ok [OF assms]] show ?thesis
    unfolding counter_cap_def by blast
qed

lemma demo_healthy: "services_healthy demo_env (\<lambda>ks. ks) (\<lambda>us. us)"
  by (simp add: services_healthy_def timed_redis_ks user_table_list jwt_contract_ref bcrypt_contract_ref char_sums_filter
      limits_ok_def thresholds_ok_def demo_settings_def)

definition demo_events :: "event list" where
  "demo_events = [demo_blocking, Serve 1 demo_readings (demo_request (Login ''ann'' ''pw'') ''1.1.1.1'' []), Sync 1, Stop 0]"

theorem server_stays_well_formed_witness:
  "server_ok demo_settings (d_redis (dep_run demo_env demo_events demo_deployment))"
  using server_stays_well_formed [OF demo_healthy, of demo_deployment demo_events]
  by (simp add: demo_deployment_def server_ok_empty)

text \<open>
  C5. Who can meet a 500: on healthy services and from a server with that schema, whatever happens in
  the deployment, the server's internal error only answers registrations, logins and the two
  block requests, the four that can raise something no handler answers; every other request
  gets an answer of the application.
\<close>

theorem only_four_endpoints_fail:
  assumes "services_healthy E view rows" and "server_ok (e_settings E) (view (d_redis d))" and "d_answers d = []"
    and "a \<in> set (d_answers (dep_run E es d))" and "an_response a = internal_server_error"
  shows "case rq_endpoint (an_request a) of
      Register n m p \<Rightarrow> True | Login n p \<Rightarrow> True | BlockIp ip \<Rightarrow> True | BlockAgent u \<Rightarrow> True | _ \<Rightarrow> False"
  using run_500 [OF assms(1,2), of es] assms(3-5) by (cases "rq_endpoint (an_request a)") auto

lemma demo_quiet:
  "abuse_verdict ks_redis demo_settings 0 ''1.1.1.1'' ''anonymous'' (empty_keyspace 0) =
     (Inr ((ALLOWED, []), True), snd (abuse_verdict ks_redis demo_settings 0 ''1.1.1.1'' ''anonymous'' (empty_keyspace 0)))"
proof -
  have S: "thresholds_ok demo_settings" by (simp add: thresholds_ok_def demo_settings_def)
  have "samples_at (empty_keyspace 0) ''anonymous'' [] 0" "flag_ok (empty_keyspace 0)"
    by (simp_all add: samples_at_def flag_ok_def)
  from verdict_run [OF S demo_counters(1) demo_counters(1) this(1) _ this(2), of 0 "''1.1.1.1''"]
  obtain ks where "abuse_verdict ks_redis demo_settings 0 ''1.1.1.1'' ''anonymous'' (empty_keyspace 0) =
      (Inr (verdict demo_settings (empty_keyspace 0) ''1.1.1.1'' ''anonymous'' (last_n (nat (scraping_sample_size demo_settings)) [0]),
        shadow_flag demo_settings (empty_keyspace 0)), ks)" by auto
  then show ?thesis
    by (simp add: verdict_def blocked_def decision_def demo_counters entropy_of_def timing_entropy_def below_def demo_settings_def
        shadow_flag_def string_value_def min_less_iff_disj)
qed

theorem only_four_endpoints_fail_witness:
  "\<exists>a. d_answers (dep_run demo_env [Serve 0 demo_readings (demo_request (Register ''ann'' ''a@x'' (replicate 73 CHR ''x'')) ''1.1.1.1'' [])]
      demo_deployment) = [a] \<and> an_response a = internal_server_error \<and>
    (case rq_endpoint (an_request a) of Register n m p \<Rightarrow> True | Login n p \<Rightarrow> True | BlockIp ip \<Rightarrow> True | BlockAgent u \<Rightarrow> True | _ \<Rightarrow> False)"
proof -
  let ?p = "replicate 73 CHR ''x''"
  let ?rq = "demo_request (Register ''ann'' ''a@x'' ?p) ''1.1.1.1'' []"
  let ?es = "[Serve 0 demo_readings ?rq]"
  have "utf8_length ?p = 73" unfolding utf8_length_def by (simp add: sum_list_replicate)
  then have "route demo_env demo_readings ?rq g = (Inl ValueError, g)" for g
    by (simp add: route_def register_def hash_password_def ref_bcrypt_def lift_result_def bind_def)
  then have route: "handle_exceptions (route demo_env demo_readings ?rq) g = (Inl ValueError, g)" for g
    by (simp add: handle_exceptions_def try_except_def raise_exn_def)
  have g: "process_gateway demo_process demo_deployment = demo_gateway"
    by (simp add: process_gateway_def demo_process_def demo_deployment_def demo_gateway_def)
  have un: "unlisted demo_env ?rq (bloom (gw_node demo_gateway))"
    using tb.new_law by (simp add: unlisted_def demo_gateway_def bloom_filter_service_def new_filter_def might_contain_ip_def header_get_def)
  have path: "url_path ?rq \<in> set public_paths" "url_path ?rq \<in> set excluded_paths"
    by (simp_all add: url_path_def public_paths_def excluded_paths_def)
  let ?g = "demo_gateway\<lparr>gw_state := seen ?rq (fresh_state\<lparr>st_request_id := Some (rd_uuid demo_readings), st_client_id := Some ''anonymous''\<rparr>)\<rparr>"
  have "\<exists>h. auth_dispatch demo_env demo_readings ?rq (inner_chain demo_env demo_readings ?rq)
      (demo_gateway\<lparr>gw_state := fresh_state\<lparr>st_request_id := Some (rd_uuid demo_readings)\<rparr>\<rparr>) = (Inl ValueError, h)"
    unfolding exempt_request [OF path un]
    by (subst abuse_allows [OF trans [OF _ demo_quiet]]) (simp_all add: shadow_mode_dispatch_def bind_def route)
  then obtain h where "handle_request demo_env demo_readings ?rq demo_gateway = (internal_server_error, h)"
    by (auto simp: handle_request_inner)
  then obtain a where a: "d_answers (dep_run demo_env ?es demo_deployment) = [a]" "an_response a = internal_server_error"
    using g by (auto simp: demo_deployment_def serve_process_def)
  have "case rq_endpoint (an_request a) of
      Register n m p \<Rightarrow> True | Login n p \<Rightarrow> True | BlockIp ip \<Rightarrow> True | BlockAgent u \<Rightarrow> True | _ \<Rightarrow> False"
    by (rule only_four_endpoints_fail [OF demo_healthy _ _ _ a(2), of demo_deployment ?es])
      (use a(1) in \<open>simp_all add: demo_deployment_def server_ok_empty\<close>)
  then show ?thesis using a by blast
qed

end
