(* ===== verification/Policy.thy ===== *)
theory Policy
  imports Quota ServerState
begin

text \<open>
  The gateway as one decision: what a request meets as a function of its token, the filters of the
  process and the entries of the server, and the proof that the whole chain of middleware
  answers exactly that. The policy reads the state; \<open>meets\<close> relates it to a result of the chain, level by
  level from the handler outwards.
\<close>

section \<open>The policy\<close>

text \<open>
  An admitted request comes with its client, whether it is slowed down, and what is left of the
  client's quota, where the path has one; a soft-blocked one has already used the quota.
\<close>

datatype outcome =
    Unauthenticated string
  | Listed string
  | OverLimit
  | SoftBlocked "int option"
  | Admitted string bool "int option"

definition stamps_of :: "keyspace \<Rightarrow> string \<Rightarrow> int list" where
  "stamps_of ks c = map snd (zset_at ks (request_times_key c))"

definition quota_used :: "settings \<Rightarrow> keyspace \<Rightarrow> int \<Rightarrow> string \<Rightarrow> int" where
  "quota_used S ks now c = int (length (unexpired now (rate_limit_window_seconds S) (zset_at ks (rate_key c))))"

definition client_verdict :: "settings \<Rightarrow> keyspace \<Rightarrow> int \<Rightarrow> string \<Rightarrow> string \<Rightarrow> client_state" where
  "client_verdict S ks now ip c =
     fst (verdict S ks ip c (last_n (nat (scraping_sample_size S)) (stamp_in now (stamps_of ks c))))"

text \<open>Behind the limiter, behind the authentication, and for any request.\<close>

definition behind_policy :: "settings \<Rightarrow> keyspace \<Rightarrow> int \<Rightarrow> string \<Rightarrow> string \<Rightarrow> int option \<Rightarrow> outcome" where
  "behind_policy S ks now ip c left =
     (let state = client_verdict S ks now ip c
      in if shadow_flag S ks \<or> state = ALLOWED then Admitted c False left
         else if state = SOFT_BLOCK then SoftBlocked left
         else Admitted c True left)"

definition inner_policy :: "('r, 'b, 'd) env \<Rightarrow> keyspace \<Rightarrow> 'b bloom_service \<Rightarrow> readings \<Rightarrow> request \<Rightarrow> string \<Rightarrow> outcome" where
  "inner_policy E ks b rd request c =
     (let S = e_settings E; ip = attr_or (rq_client request) ''unknown'';
          agent = header_get request ''User-Agent'' [];
          used = quota_used S ks (rd_rate_ms rd) c
      in if might_contain_ip (e_bloom E) b ip then Listed ''Access denied - known bad IP''
         else if agent \<noteq> [] \<and> might_contain_agent (e_bloom E) b agent
         then Listed ''Access denied - abusive user agent''
         else if url_path request \<in> set excluded_paths then behind_policy S ks (rd_timing_ms rd) ip c None
         else if rate_limit_requests S \<le> used then OverLimit
         else behind_policy S ks (rd_timing_ms rd) ip c (Some (rate_limit_requests S - used - 1)))"

definition policy :: "('r, 'b, 'd) env \<Rightarrow> keyspace \<Rightarrow> 'b bloom_service \<Rightarrow> readings \<Rightarrow> request \<Rightarrow> outcome" where
  "policy E ks b rd request =
     (case auth_client E rd request of
        None \<Rightarrow> Unauthenticated
          (if py_startswith (header_get request ''Authorization'' []) ''Bearer ''
           then ''Invalid or expired token'' else ''Not authenticated'')
      | Some c \<Rightarrow> inner_policy E ks b rd request c)"

text \<open>What the caller sees of an answer: status, body, \<open>Retry-After\<close> and \<open>X-RateLimit-Remaining\<close>.\<close>

type_synonym seen_answer = "int \<times> json \<times> string option \<times> string option"

text \<open>The answer to a refusal, and what the way back adds to the handler's answer.\<close>

fun refusal :: "settings \<Rightarrow> outcome \<Rightarrow> seen_answer option" where
  "refusal S (Unauthenticated m) = Some (401, detail m, None, None)"
| "refusal S (Listed m) = Some (403, detail m, None, None)"
| "refusal S OverLimit =
     Some (429, detail ''Rate limit exceeded - please retry after the indicated period'',
       Some (show_int (rate_limit_window_seconds S)), None)"
| "refusal S (SoftBlocked left) =
     Some (429, detail ''Too many requests - temporary block applied'', Some ''300'', map_option show_int left)"
| "refusal S (Admitted c slowed left) = None"

fun decorated :: "bool \<Rightarrow> int option \<Rightarrow> seen_answer \<Rightarrow> seen_answer" where
  "decorated slowed left (code, body, retry, rest) =
     (code, body, if slowed then Some ''2'' else retry, case left of None \<Rightarrow> rest | Some n \<Rightarrow> Some (show_int n))"

definition answer_view :: "response \<Rightarrow> seen_answer" where
  "answer_view r = (status_code r, content r, map_of (rs_headers r) ''retry-after'',
     map_of (rs_headers r) ''x-ratelimit-remaining'')"

lemma view_headers [simp]:
  "answer_view (set_header ''X-Request-ID'' v r) = answer_view r"
  "answer_view (set_header ''X-RateLimit-Remaining'' (show_int n) r) = decorated False (Some n) (answer_view r)"
  "answer_view (set_header ''Retry-After'' ''2'' r) = decorated True None (answer_view r)"
  by (simp_all add: answer_view_def set_header_def map_of_header_put header_names)

lemma view_responses [simp]:
  "answer_view (json_response code body []) = (code, body, None, None)"
  "answer_view (json_response code body [(''Retry-After'', v)]) = (code, body, Some v, None)"
  "answer_view (not_authenticated m) = (401, detail m, None, None)"
  by (simp_all add: answer_view_def json_response_def not_authenticated_def header_names)

section \<open>Authentication and the filters\<close>

lemma auth_none:
  assumes J: "jwt_contract (e_jwt E)" and "auth_client E rd request = None"
  shows "auth_dispatch E rd request call_next g = (Inr (not_authenticated
    (if py_startswith (header_get request ''Authorization'' []) ''Bearer ''
     then ''Invalid or expired token'' else ''Not authenticated'')), g)"
proof (cases "py_startswith (header_get request ''Authorization'' []) ''Bearer ''")
  case True
  then obtain t where t: "list_item (py_split_sep (CHR '' '') (header_get request ''Authorization'' [])) 1 = Inr t"
    using bearer_token_item by blast
  obtain v where "decode_access_token (e_jwt E) (e_settings E) (rd_auth_s rd) t = Inr v"
    using jwt_contract.decode_total [OF J] by blast
  then show ?thesis
    using True t assms(2)
    by (cases v) (auto simp: auth_client_def auth_dispatch_def Let_def bind_def lift_result_def ret_def split: if_splits)
next
  case False
  then show ?thesis using assms(2) by (auto simp: auth_client_def auth_dispatch_def ret_def split: if_splits)
qed

lemma bloom_listed:
  assumes "\<not> unlisted E request (bloom (gw_node g))"
  shows "\<exists>ms. bloom_filter_dispatch E request next g =
    (Inr (json_response 403 (detail (if might_contain_ip (e_bloom E) (bloom (gw_node g)) (attr_or (rq_client request) ''unknown'')
       then ''Access denied - known bad IP'' else ''Access denied - abusive user agent'')) []), g\<lparr>gw_metrics := ms\<rparr>)"
  using assms
  by (auto simp: unlisted_def bloom_filter_dispatch_def Let_def bind_def get_bloom_run observe_run ret_def)

section \<open>Behind the limiter\<close>

text \<open>On a healthy server the way back through the shadow middleware always returns the answer.\<close>

lemma safe_returns:
  assumes "safe {} P m" and "P s"
  obtains x s' where "m s = (Inr x, s')" and "P s'"
proof -
  obtain r s' where r: "m s = (r, s')" by fastforce
  then have "P s'" "\<forall>e. r \<noteq> Inl e" using safeD [OF assms(1) r assms(2)] safe_raises [OF assms(1) _ assms(2)] by auto
  then show thesis using that r by (cases r) auto
qed

lemma with_store_twice: "with_store c (with_store a h) = with_store c h"
  by (simp add: with_store_def)

lemma script_answer:
  "sliding_window_script ks_redis (rate_key c) now W l (rate_request_id now c) ks = (Inr (b, n), ks') \<Longrightarrow>
   check_rate_limit ks_redis now c l W ks = (Inr (b \<noteq> 0, n), ks')"
  by (simp add: check_rate_limit_def bind_def ret_def)

lemma shadow_passes:
  assumes R: "redis_server (e_redis E) view" and run: "next g = (Inr r, h)"
    and ok: "server_ok (e_settings E) (view (store (gw_node h)))"
  shows "\<exists>a. shadow_mode_dispatch E rd request next g = (Inr r, with_store a h)"
proof -
  let ?P = "\<lambda>s. server_ok (e_settings E) (view s)"
  have "safe {} ?P (is_shadow_mode_enabled (e_redis E) (shadow_mode_enabled (e_settings E)))"
    by (rule keeps_sim [OF redis_server.sim_is_shadow_mode_enabled [OF R] safe_flag])
  then obtain b a where b: "is_shadow_mode_enabled (e_redis E) (shadow_mode_enabled (e_settings E)) (store (gw_node h)) = (Inr b, a)"
    and a: "?P a" using ok by (rule safe_returns)
  let ?st = "gw_state h"
  have "safe {} ?P (log_shadow_event (e_redis E) (rd_shadow_s rd) (attr_or (st_request_id ?st) ''unknown'')
      (attr_or (st_shadow_rule ?st) []) (attr_or (st_client_id ?st) ''anonymous'') (url_path request) (attr_or (st_shadow_reason ?st) []))"
    by (rule keeps_sim [OF redis_server.sim_log_shadow_event [OF R] safe_log])
  then obtain x c where "log_shadow_event (e_redis E) (rd_shadow_s rd) (attr_or (st_request_id ?st) ''unknown'')
      (attr_or (st_shadow_rule ?st) []) (attr_or (st_client_id ?st) ''anonymous'') (url_path request) (attr_or (st_shadow_reason ?st) []) a =
      (Inr x, c)" using a by (rule safe_returns)
  then show ?thesis
    using run b by (auto simp: shadow_mode_dispatch_def Let_def bind_def on_redis_eq get_state_run ret_def with_store_twice)
qed

lemma abuse_throttles:
  assumes "abuse_verdict (e_redis E) (e_settings E) (rd_timing_ms rd) (attr_or (st_client_ip (gw_state g)) ''unknown'')
      (attr_or (st_client_id (gw_state g)) ''anonymous'') (store (gw_node g)) = (Inr ((THROTTLED, w), False), a)"
  shows "abuse_detector_dispatch E rd next g =
    bind next (\<lambda>r. ret (set_header ''Retry-After'' (show_int throttle_delay_seconds) r))
      (with_store (e_elapse E (throttle_delay_seconds * 1000) a) (g\<lparr>gw_metrics := gw_metrics g @ [AbuseDetections ''throttled'' (reason_type w)]\<rparr>))"
proof -
  have "apply_throttle (sleep_on E) a = (Inr (), e_elapse E (throttle_delay_seconds * 1000) a)"
    by (simp add: apply_throttle_def sleep_on_def modify_def)
  then show ?thesis
    using assms
    by (simp add: abuse_detector_dispatch_def Let_def bind_def [of get_state] bind_def [of "on_redis m" for m] bind_def [of "observe m" for m]
        get_state_run on_redis_eq enforce_def observe_run) (simp add: with_store_def)
qed

text \<open>The verdict on a healthy server is the policy's, and so is what the limiter says.\<close>

lemma stamps_of_samples: "samples_at ks c ts d \<Longrightarrow> stamps_of ks c = ts"
  by (auto simp: samples_at_def stamps_of_def zset_at_def stamped_def o_def split: if_splits)

lemma verdict_passes:
  assumes R: "redis_server R view" and S: "limits_ok S" and ok: "server_ok S (view s)"
  obtains v w a where "abuse_verdict R S now ip c s = (Inr ((v, w), shadow_flag S (view s)), a)"
    and "v = client_verdict S (view s) now ip c" and "server_ok S (view a)" and "know (view a) = know (view s)"
    and "\<And>k. k \<noteq> request_times_key c \<Longrightarrow> k \<noteq> block_key ip \<Longrightarrow> entry (view a) k = entry (view s) k"
proof -
  let ?ks = "view s"
  have T: "thresholds_ok S" using S by (simp add: limits_ok_def)
  obtain ts d where ts: "samples_at ?ks c ts d" "sorted_wrt (<) ts" by (rule stamps_ready [OF ok])
  obtain ks' where run: "abuse_verdict ks_redis S now ip c ?ks =
      (Inr (verdict S ?ks ip c (last_n (nat (scraping_sample_size S)) (stamp_in now ts)), shadow_flag S ?ks), ks')"
    and same: "know ks' = know ?ks" "\<And>k. k \<noteq> request_times_key c \<Longrightarrow> k \<noteq> block_key ip \<Longrightarrow> entry ks' k = entry ?ks k"
    by (rule verdict_insert [OF T counter_ready(1) [OF ok T] counter_ready(1) [OF ok T] ts(1) zinsert_sorted flag_ready [OF ok]]) blast
  from simulates_run [OF redis_server.sim_abuse_verdict [OF R] run]
  obtain a where a: "abuse_verdict R S now ip c s =
      (Inr (verdict S ?ks ip c (last_n (nat (scraping_sample_size S)) (stamp_in now ts)), shadow_flag S ?ks), a)" "view a = ks'"
    by blast
  have "server_ok S ks'" by (rule safeD [OF safe_verdict [OF S] run ok])
  then show thesis
    using a same stamps_of_samples [OF ts(1)]
    by (intro that [of "fst (verdict S ?ks ip c (last_n (nat (scraping_sample_size S)) (stamp_in now ts)))"
        "snd (verdict S ?ks ip c (last_n (nat (scraping_sample_size S)) (stamp_in now ts)))" a]) (simp_all add: client_verdict_def)
qed

lemma limiter_passes:
  assumes R: "redis_server R view" and S: "limits_ok S" and ok: "server_ok S (view s)"
  obtains a where "check_rate_limit R now c (rate_limit_requests S) (rate_limit_window_seconds S) s =
      (Inr (if quota_used S (view s) now c < rate_limit_requests S
        then (True, rate_limit_requests S - quota_used S (view s) now c - 1) else (False, 0)), a)"
    and "server_ok S (view a)" and "know (view a) = know (view s)"
    and "\<And>k. k \<noteq> rate_key c \<Longrightarrow> entry (view a) k = entry (view s) k"
proof -
  let ?ks = "view s" and ?W = "rate_limit_window_seconds S" and ?l = "rate_limit_requests S"
  have W: "0 \<le> ?W" using S by (simp add: limits_ok_def)
  let ?ans = "if quota_used S ?ks now c < ?l then (True, ?l - quota_used S ?ks now c - 1) else (False, 0)"
  obtain ks' where run: "check_rate_limit ks_redis now c ?l ?W ?ks = (Inr ?ans, ks')"
    and same: "know ks' = know ?ks" "\<And>k. k \<noteq> rate_key c \<Longrightarrow> entry ks' k = entry ?ks k"
  proof (cases "quota_used S ?ks now c < ?l")
    case True
    then have "int (length (unexpired now ?W (zset_at ?ks (rate_key c)))) < ?l" by (simp add: quota_used_def)
    then show thesis
      by (rule script_accept [OF rate_ready(1) [OF ok] W])
        (rule that, use True script_answer in \<open>force simp: quota_used_def\<close>, blast+)
  next
    case False
    then have "\<not> int (length (unexpired now ?W (zset_at ?ks (rate_key c)))) < ?l" by (simp add: quota_used_def)
    then show thesis
      by (rule script_reject [OF rate_ready(1) [OF ok]])
        (rule that, use False script_answer in force, blast+)
  qed
  from simulates_run [OF redis_server.sim_check_rate_limit [OF R] run]
  obtain a where "check_rate_limit R now c ?l ?W s = (Inr ?ans, a)" "view a = ks'" by blast
  then show thesis using same safeD [OF safe_limiter [OF S] run ok] by (intro that [of a]) auto
qed

section \<open>What a request meets\<close>

definition same_rest :: "('r, 'b, 'd) gateway \<Rightarrow> ('r, 'b, 'd) gateway \<Rightarrow> bool" where
  "same_rest g h \<longleftrightarrow> gw_users h = gw_users g \<and> bloom (gw_node h) = bloom (gw_node g)"

text \<open>
  The state a handler gets: the tags of the request, the users and the filters untouched, and on the
  server only the client's two logs and a new block can have changed, besides the delay.
\<close>

definition passed_on ::
  "('r \<Rightarrow> keyspace) \<Rightarrow> string \<Rightarrow> string \<Rightarrow> string \<Rightarrow> bool \<Rightarrow> ('r, 'b, 'd) gateway \<Rightarrow> ('r, 'b, 'd) gateway \<Rightarrow> bool" where
  "passed_on view rid c ip slowed g h \<longleftrightarrow> same_rest g h \<and>
     st_request_id (gw_state h) = Some rid \<and> st_client_id (gw_state h) = Some c \<and>
     (\<forall>k. k \<notin> {rate_key c, request_times_key c, block_key ip} \<longrightarrow>
        entry (view (store (gw_node h))) k =
        entry (ks_elapse (if slowed then throttle_delay_seconds * 1000 else 0) (view (store (gw_node g)))) k)"

text \<open>A result of the chain and the result of the handler it comes from.\<close>

fun comes_from ::
  "(seen_answer \<Rightarrow> seen_answer) \<Rightarrow> (exn + response) \<times> ('r, 'b, 'd) gateway \<Rightarrow> (exn + response) \<times> ('r, 'b, 'd) gateway \<Rightarrow> bool" where
  "comes_from deco (Inl e, m) (q, h) \<longleftrightarrow> same_rest m h \<and> q = Inl e"
| "comes_from deco (Inr p, m) (q, h) \<longleftrightarrow> same_rest m h \<and> (\<exists>r. q = Inr r \<and> answer_view r = deco (answer_view p))"

definition meets ::
  "settings \<Rightarrow> ('r \<Rightarrow> keyspace) \<Rightarrow> string \<Rightarrow> string \<Rightarrow> ('r, 'b, 'd) app \<Rightarrow> ('r, 'b, 'd) gateway \<Rightarrow> outcome \<Rightarrow>
   (exn + response) \<times> ('r, 'b, 'd) gateway \<Rightarrow> bool" where
  "meets S view rid ip handler g out result =
     (case out of
        Admitted c slowed left \<Rightarrow>
          (\<exists>h. passed_on view rid c ip slowed g h \<and> comes_from (decorated slowed left) (handler h) result)
      | _ \<Rightarrow> same_rest g (snd result) \<and> (\<exists>r. fst result = Inr r \<and> Some (answer_view r) = refusal S out))"

lemma same_rest_trans: "same_rest g h \<Longrightarrow> same_rest h k \<Longrightarrow> same_rest g k"
  by (simp add: same_rest_def)

lemma same_rest_store [simp]: "same_rest (with_store a g) h = same_rest g h" "same_rest g (with_store a h) = same_rest g h"
  by (simp_all add: same_rest_def)

lemma show_waits [simp]: "show_int throttle_delay_seconds = ''2''" "show_int soft_block_ttl = ''300''"
  by code_simp+

text \<open>The shadow middleware hands the handler's answer through.\<close>

lemma shadow_comes_from:
  assumes R: "redis_server (e_redis E) view" and K: "safe X (\<lambda>g. server_ok (e_settings E) (view (store (gw_node g)))) handler"
    and ok: "server_ok (e_settings E) (view (store (gw_node k)))"
  shows "comes_from (decorated False None) (handler k) (shadow_mode_dispatch E rd request handler k)"
proof -
  obtain q m where run: "handler k = (q, m)" by fastforce
  show ?thesis
  proof (cases q)
    case (Inl e)
    then show ?thesis by (simp add: run shadow_mode_dispatch_def bind_def same_rest_def)
  next
    case (Inr p)
    then have run': "handler k = (Inr p, m)" by (simp add: run)
    obtain a where "shadow_mode_dispatch E rd request handler k = (Inr p, with_store a m)"
      using shadow_passes [where view = view and g = k and h = m and ?next = handler, OF R run' safeD [OF K run' ok]] by blast
    then show ?thesis by (cases "answer_view p") (simp add: run' same_rest_def)
  qed
qed

text \<open>A header set on the way back.\<close>

lemma comes_from_header:
  assumes "comes_from d x (m k)" and "\<And>r. answer_view (set_header n v r) = d' (answer_view r)"
  shows "comes_from (\<lambda>v. d' (d v)) x (bind m (\<lambda>r. ret (set_header n v r)) k)"
proof -
  obtain q h where "m k = (q, h)" by fastforce
  then show ?thesis
    using assms by (cases "(d, x, m k)" rule: comes_from.cases) (auto simp: bind_def ret_def)
qed

lemma decorated_twice [simp]:
  "decorated True None (decorated False None v) = decorated True None v"
  "decorated False (Some n) (decorated s None v) = decorated s (Some n) v"
  by (cases v; simp)+

fun with_left :: "int \<Rightarrow> outcome \<Rightarrow> outcome" where
  "with_left n (SoftBlocked left) = SoftBlocked (Some n)"
| "with_left n (Admitted c slowed left) = Admitted c slowed (Some n)"
| "with_left n out = out"

lemma behind_left: "behind_policy S ks now ip c (Some n) = with_left n (behind_policy S ks now ip c None)"
  by (simp add: behind_policy_def Let_def)

lemma elapse_frame:
  "know ks' = know ks \<Longrightarrow> entry ks' k = entry ks k \<Longrightarrow> 0 \<le> t \<Longrightarrow> entry (ks_elapse t ks') k = entry (ks_elapse t ks) k"
  by (simp add: entry_elapse split: option.splits)

lemma behind_meets:
  fixes g :: "('r, 'b, 'd) gateway"
  assumes H: "services_healthy E view rows" and ok: "server_ok (e_settings E) (view (store (gw_node g)))"
    and st: "st_client_id (gw_state g) = Some c" "st_request_id (gw_state g) = Some rid" "st_client_ip (gw_state g) = Some ip"
  shows "meets (e_settings E) view rid ip (handle_exceptions (route E rd request)) g
    (behind_policy (e_settings E) (view (store (gw_node g))) (rd_timing_ms rd) ip c None)
    (abuse_detector_dispatch E rd (shadow_mode_dispatch E rd request (handle_exceptions (route E rd request))) g)"
proof -
  let ?S = "e_settings E" and ?ks = "view (store (gw_node g))" and ?handler = "handle_exceptions (route E rd request)"
  let ?next = "shadow_mode_dispatch E rd request ?handler"
  have T: "timed_redis (e_redis E) view (e_elapse E)" and S: "limits_ok ?S" using H by (simp_all add: services_healthy_def)
  then have R: "redis_server (e_redis E) view" by (simp add: timed_redis_def)
  obtain v w a where run: "abuse_verdict (e_redis E) ?S (rd_timing_ms rd) ip c (store (gw_node g)) = (Inr ((v, w), shadow_flag ?S ?ks), a)"
    and v: "v = client_verdict ?S ?ks (rd_timing_ms rd) ip c" and a: "server_ok ?S (view a)" "know (view a) = know ?ks"
    and same: "\<And>k. k \<noteq> request_times_key c \<Longrightarrow> k \<noteq> block_key ip \<Longrightarrow> entry (view a) k = entry ?ks k"
    by (rule verdict_passes [OF R S ok]) blast
  have run': "abuse_verdict (e_redis E) ?S (rd_timing_ms rd) (attr_or (st_client_ip (gw_state g)) ''unknown'')
      (attr_or (st_client_id (gw_state g)) ''anonymous'') (store (gw_node g)) = (Inr ((v, w), shadow_flag ?S ?ks), a)"
    using run st by simp
  have go: "comes_from (decorated False None) (?handler k) (?next k)" if "server_ok ?S (view (store (gw_node k)))" for k
    by (rule shadow_comes_from [OF R healthy_handler [OF H] that])
  have "v \<noteq> HARD_BLOCK" unfolding v client_verdict_def verdict_def using decision_no_hard_block by auto
  then consider (on) "v = ALLOWED" | (shadow) "shadow_flag ?S ?ks" "v \<noteq> ALLOWED"
    | (block) "\<not> shadow_flag ?S ?ks" "v = SOFT_BLOCK" | (slow) "\<not> shadow_flag ?S ?ks" "v = THROTTLED"
    by (cases v) auto
  then show ?thesis
  proof cases
    case on
    have "passed_on view rid c ip False g (with_store a g)" using st same by (simp add: passed_on_def same_rest_def)
    then show ?thesis
      using on v a(1) go [of "with_store a g"] abuse_allows [OF run' [unfolded on]] by (auto simp: meets_def behind_policy_def)
  next
    case shadow
    let ?k = "(with_store a g)\<lparr>gw_metrics := gw_metrics g @ [AbuseDetections (state_value v) (reason_type w)],
      gw_state := (gw_state g)\<lparr>st_shadow_rule := Some (''abuse_detector:'' @ state_value v), st_shadow_reason := Some w\<rparr>\<rparr>"
    have "passed_on view rid c ip False g ?k" using st same by (simp add: passed_on_def same_rest_def)
    moreover have "abuse_detector_dispatch E rd ?next g = ?next ?k"
      using run' shadow by (subst abuse_shadowed [where v = v and w = w and a = a]) auto
    ultimately show ?thesis
      using shadow a(1) go [of ?k] by (auto simp: meets_def behind_policy_def Let_def)
  next
    case block
    then have "abuse_detector_dispatch E rd ?next g =
        (Inr (json_response 429 (detail ''Too many requests - temporary block applied'') [(''Retry-After'', show_int soft_block_ttl)]),
         (with_store a g)\<lparr>gw_metrics := gw_metrics g @ [AbuseDetections ''soft_block'' (reason_type w)]\<rparr>)"
      using run' by (intro abuse_soft_blocks) simp
    then show ?thesis using block v by (simp add: meets_def behind_policy_def same_rest_def)
  next
    case slow
    let ?k = "with_store (e_elapse E (throttle_delay_seconds * 1000) a) (g\<lparr>gw_metrics := gw_metrics g @ [AbuseDetections ''throttled'' (reason_type w)]\<rparr>)"
    have view: "view (e_elapse E (throttle_delay_seconds * 1000) a) = ks_elapse (throttle_delay_seconds * 1000) (view a)"
      by (rule timed_redis.elapse_law [OF T]) (simp add: throttle_delay_seconds_def)
    then have ok: "server_ok ?S (view (e_elapse E (throttle_delay_seconds * 1000) a))"
      using a(1) by (simp add: throttle_delay_seconds_def server_ok_elapse)
    have "passed_on view rid c ip True g ?k"
      using st same unfolding passed_on_def with_store_sel view
      by (simp add: same_rest_def elapse_frame [OF a(2)] throttle_delay_seconds_def)
    moreover have "comes_from (\<lambda>v. decorated True None (decorated False None v)) (?handler ?k)
        (bind ?next (\<lambda>r. ret (set_header ''Retry-After'' (show_int throttle_delay_seconds) r)) ?k)"
      by (rule comes_from_header [OF go]) (use ok in simp_all)
    moreover have "abuse_detector_dispatch E rd ?next g =
        bind ?next (\<lambda>r. ret (set_header ''Retry-After'' (show_int throttle_delay_seconds) r)) ?k"
      using run' slow by (subst abuse_throttles [where w = w and a = a]) auto
    ultimately show ?thesis
      using slow v by (auto simp: meets_def behind_policy_def)
  qed
qed

section \<open>The whole chain\<close>

lemma limiter_keys_differ [simp]:
  "failed_auth_key x \<noteq> rate_key c" "block_key x \<noteq> rate_key c" "request_times_key x \<noteq> rate_key c" "flag_key \<noteq> rate_key c"
  by (simp_all add: flag_key_def failed_auth_key_def request_times_key_def block_key_def rate_key_def)

lemma policy_frame:
  assumes "\<And>k. k \<noteq> rate_key c \<Longrightarrow> entry ks' k = entry ks k"
  shows "behind_policy S ks' now ip c left = behind_policy S ks now ip c left"
  using assms
  by (simp add: behind_policy_def client_verdict_def verdict_def blocked_def failures_def string_value_def stamps_of_def zset_at_def shadow_flag_def)

text \<open>What was met behind the limiter, seen from before it.\<close>

lemma behind_outcomes:
  obtains "behind_policy S ks now ip c None = Admitted c False None" | "behind_policy S ks now ip c None = Admitted c True None"
    | "behind_policy S ks now ip c None = SoftBlocked None"
  by (cases "shadow_flag S ks \<or> client_verdict S ks now ip c = ALLOWED"; cases "client_verdict S ks now ip c = SOFT_BLOCK")
    (simp_all add: behind_policy_def Let_def)

lemma passed_on_store:
  assumes "passed_on view rid c ip slowed (with_store a g) h"
    and "know (view a) = know (view (store (gw_node g)))" "\<And>k. k \<noteq> rate_key c \<Longrightarrow> entry (view a) k = entry (view (store (gw_node g))) k"
  shows "passed_on view rid c ip slowed g h"
  using assms by (auto simp: passed_on_def elapse_frame [OF assms(2)] throttle_delay_seconds_def)

lemma meets_left:
  assumes met: "meets S view rid ip handler (with_store a g) (behind_policy S ks now ip c None) (m (with_store a g))"
    and same: "know (view a) = know (view (store (gw_node g)))" "\<And>k. k \<noteq> rate_key c \<Longrightarrow> entry (view a) k = entry (view (store (gw_node g))) k"
  shows "meets S view rid ip handler g (behind_policy S ks now ip c (Some n))
    (bind m (\<lambda>r. ret (set_header ''X-RateLimit-Remaining'' (show_int n) r)) (with_store a g))"
proof -
  let ?m = "bind m (\<lambda>r. ret (set_header ''X-RateLimit-Remaining'' (show_int n) r)) (with_store a g)"
  have on: "meets S view rid ip handler g (Admitted c slowed (Some n)) ?m"
    if out: "behind_policy S ks now ip c None = Admitted c slowed None" for slowed
  proof -
    obtain h where h: "passed_on view rid c ip slowed (with_store a g) h" "comes_from (decorated slowed None) (handler h) (m (with_store a g))"
      using met unfolding out by (auto simp: meets_def)
    have "comes_from (\<lambda>v. decorated False (Some n) (decorated slowed None v)) (handler h) ?m"
      by (rule comes_from_header [where m = m and k = "with_store a g", OF h(2)]) simp
    then show ?thesis using passed_on_store [OF h(1) same] by (auto simp: meets_def)
  qed
  show ?thesis
  proof (cases rule: behind_outcomes [of S ks now ip c])
    case 3
    obtain q h where "m (with_store a g) = (q, h)" by fastforce
    then show ?thesis using met unfolding behind_left 3 by (cases q) (auto simp: meets_def bind_def ret_def)
  qed (use on in \<open>auto simp: behind_left\<close>)
qed

lemma inner_meets:
  fixes g :: "('r, 'b, 'd) gateway"
  assumes H: "services_healthy E view rows" and ok: "server_ok (e_settings E) (view (store (gw_node g)))"
    and st: "st_client_id (gw_state g) = Some c" "st_request_id (gw_state g) = Some rid"
  shows "meets (e_settings E) view rid (attr_or (rq_client request) ''unknown'') (handle_exceptions (route E rd request)) g
    (inner_policy E (view (store (gw_node g))) (bloom (gw_node g)) rd request c) (inner_chain E rd request g)"
proof (cases "unlisted E request (bloom (gw_node g))")
  case False
  then show ?thesis
    using bloom_listed [OF False, of "rate_limit_dispatch E rd request (abuse_detector_dispatch E rd
        (shadow_mode_dispatch E rd request (handle_exceptions (route E rd request))))"]
    by (auto simp: inner_chain_def inner_policy_def Let_def unlisted_def same_rest_def meets_def)
next
  case True
  let ?S = "e_settings E" and ?ks = "view (store (gw_node g))" and ?ip = "attr_or (rq_client request) ''unknown''"
  let ?handler = "handle_exceptions (route E rd request)" and ?used = "quota_used (e_settings E) (view (store (gw_node g))) (rd_rate_ms rd) c"
  let ?rest = "abuse_detector_dispatch E rd (shadow_mode_dispatch E rd request ?handler)"
  let ?g = "g\<lparr>gw_state := seen request (gw_state g)\<rparr>"
  have R: "redis_server (e_redis E) view" and S: "limits_ok ?S" using H by (simp_all add: services_healthy_def timed_redis_def)
  have s: "st_client_id (gw_state ?g) = Some c" "st_request_id (gw_state ?g) = Some rid" "st_client_ip (gw_state ?g) = Some ?ip"
    using st by (simp_all add: seen_def)
  have un: "\<not> might_contain_ip (e_bloom E) (bloom (gw_node g)) ?ip"
    "\<not> (header_get request ''User-Agent'' [] \<noteq> [] \<and> might_contain_agent (e_bloom E) (bloom (gw_node g)) (header_get request ''User-Agent'' []))"
    using True by (auto simp: unlisted_def)
  have inner: "inner_chain E rd request g = rate_limit_dispatch E rd request ?rest ?g"
    by (simp add: inner_chain_def bloom_passes [OF True])
  have unseen: "meets ?S view rid ?ip ?handler ?g out result \<Longrightarrow> meets ?S view rid ?ip ?handler g out result" for out result
    by (cases out) (auto simp: meets_def passed_on_def same_rest_def)
  show ?thesis
  proof (cases "url_path request \<in> set excluded_paths")
    case True
    have "meets ?S view rid ?ip ?handler ?g (behind_policy ?S ?ks (rd_timing_ms rd) ?ip c None) (?rest ?g)"
      using behind_meets [OF H _ s, of rd request] ok by simp
    then show ?thesis
      using True un by (intro unseen) (auto simp: inner inner_policy_def Let_def rate_limit_dispatch_def)
  next
    case path: False
    obtain a where chk: "check_rate_limit (e_redis E) (rd_rate_ms rd) c (rate_limit_requests ?S) (rate_limit_window_seconds ?S) (store (gw_node g)) =
        (Inr (if ?used < rate_limit_requests ?S then (True, rate_limit_requests ?S - ?used - 1) else (False, 0)), a)"
      and a: "server_ok ?S (view a)" "know (view a) = know ?ks" and same: "\<And>k. k \<noteq> rate_key c \<Longrightarrow> entry (view a) k = entry ?ks k"
      by (rule limiter_passes [OF R S ok]) blast
    show ?thesis
    proof (cases "?used < rate_limit_requests ?S")
      case False
      then have "inner_chain E rd request g = (Inr (json_response 429 (detail ''Rate limit exceeded - please retry after the indicated period'')
          [(''Retry-After'', show_int (rate_limit_window_seconds ?S))]),
        (with_store a ?g)\<lparr>gw_metrics := gw_metrics ?g @ [RateLimitRejections c]\<rparr>)"
        unfolding inner using rate_rejects [OF path, of E rd ?g 0 a ?rest] chk s by simp
      then show ?thesis
        using False un path by (auto simp: same_rest_def inner_policy_def Let_def meets_def)
    next
      case True
      let ?left = "rate_limit_requests ?S - ?used - 1"
      have frame: "behind_policy ?S (view a) (rd_timing_ms rd) ?ip c None = behind_policy ?S ?ks (rd_timing_ms rd) ?ip c None"
        by (rule policy_frame) (rule same)
      have "meets ?S view rid ?ip ?handler (with_store a ?g) (behind_policy ?S ?ks (rd_timing_ms rd) ?ip c None) (?rest (with_store a ?g))"
        using behind_meets [OF H, of "with_store a ?g" c rid ?ip rd request] a s by (simp add: frame)
      then have "meets ?S view rid ?ip ?handler ?g (behind_policy ?S ?ks (rd_timing_ms rd) ?ip c (Some ?left))
          (bind ?rest (\<lambda>r. ret (set_header ''X-RateLimit-Remaining'' (show_int ?left) r)) (with_store a ?g))"
        by (rule meets_left) (use a same in simp_all)
      moreover have "inner_chain E rd request g =
          bind ?rest (\<lambda>r. ret (set_header ''X-RateLimit-Remaining'' (show_int ?left) r)) (with_store a ?g)"
        unfolding inner using rate_passes [OF path, of E rd ?g ?left a ?rest] chk s True by simp
      ultimately show ?thesis
        using True un path by (intro unseen) (auto simp: inner_policy_def Let_def)
    qed
  qed
qed

lemma comes_from_trans: "comes_from d x (q, h) \<Longrightarrow> same_rest h k \<Longrightarrow> comes_from d x (q, k)"
  by (cases x; cases "fst x") (auto intro: same_rest_trans)

lemma meets_trans: "meets S view rid ip handler g out (q, h) \<Longrightarrow> same_rest h k \<Longrightarrow> meets S view rid ip handler g out (q, k)"
  by (cases out) (auto simp: meets_def intro: same_rest_trans comes_from_trans)

lemma request_meets:
  fixes g :: "('r, 'b, 'd) gateway"
  assumes H: "services_healthy E view rows" and ok: "server_ok (e_settings E) (view (store (gw_node g)))"
    and run: "handle_request E rd request g = (r, g')"
  obtains q where "meets (e_settings E) view (rd_uuid rd) (attr_or (rq_client request) ''unknown'') (handle_exceptions (route E rd request)) g
      (policy E (view (store (gw_node g))) (bloom (gw_node g)) rd request) (q, g')"
    and "case q of Inl e \<Rightarrow> r = internal_server_error | Inr p \<Rightarrow> answer_view r = answer_view p"
proof -
  let ?g = "g\<lparr>gw_state := fresh_state\<lparr>st_request_id := Some (rd_uuid rd)\<rparr>\<rparr>" and ?out = "policy E (view (store (gw_node g))) (bloom (gw_node g)) rd request"
  let ?meets = "meets (e_settings E) view (rd_uuid rd) (attr_or (rq_client request) ''unknown'') (handle_exceptions (route E rd request))"
  have J: "jwt_contract (e_jwt E)" using H by (simp add: services_healthy_def)
  obtain q h where auth: "auth_dispatch E rd request (inner_chain E rd request) ?g = (q, h)" by fastforce
  have "?meets g ?out (q, h)"
  proof (cases "auth_client E rd request")
    case None
    then show ?thesis using auth auth_none [OF J None] by (auto simp: policy_def meets_def same_rest_def)
  next
    case (Some c)
    let ?h = "?g\<lparr>gw_state := (gw_state ?g)\<lparr>st_client_id := Some c\<rparr>\<rparr>"
    have "inner_chain E rd request ?h = (q, h)"
      using auth auth_run [OF J, where rd = rd and request = request and call_next = "inner_chain E rd request" and g = ?g] Some by simp
    then have "?meets ?h ?out (q, h)"
      using inner_meets [OF H, of ?h c "rd_uuid rd" request rd] ok Some by (simp add: policy_def)
    then show ?thesis by (cases ?out) (auto simp: meets_def passed_on_def same_rest_def)
  qed
  moreover have "same_rest h g'" and "case q of Inl e \<Rightarrow> r = internal_server_error | Inr p \<Rightarrow> answer_view r = answer_view p"
    using run auth by (auto simp: handle_request_inner same_rest_def split: sum.splits)
  ultimately show thesis by (rule that [OF meets_trans])
qed

text \<open>For the proxied service the answer is a function of the policy.\<close>

definition upstream_body :: "string \<Rightarrow> string \<Rightarrow> json" where
  "upstream_body c request_id =
     JObj [(''message'', JStr ''Request reached upstream service''), (''client_id'', JStr c),
           (''request_id'', JStr request_id)]"

lemma proxy_run:
  "rq_endpoint request = Proxy \<Longrightarrow> st_client_id (gw_state g) = Some c \<Longrightarrow> st_request_id (gw_state g) = Some rid \<Longrightarrow>
   handle_exceptions (route E rd request) g = (Inr (json_response 200 (upstream_body c rid) []), g)"
  by (simp add: handle_exceptions_def try_except_def route_def proxy_def bind_def get_state_run ret_def upstream_body_def)

lemma proxy_follows_policy:
  assumes "services_healthy E view rows" and "server_ok (e_settings E) (view (store (gw_node g)))"
    and proxy: "rq_endpoint request = Proxy" and run: "handle_request E rd request g = (r, g')"
  shows "answer_view r = (case policy E (view (store (gw_node g))) (bloom (gw_node g)) rd request of
      Admitted c slowed left \<Rightarrow> (200, upstream_body c (rd_uuid rd), if slowed then Some ''2'' else None, map_option show_int left)
    | out \<Rightarrow> the (refusal (e_settings E) out))" and "same_rest g g'"
proof -
  let ?out = "policy E (view (store (gw_node g))) (bloom (gw_node g)) rd request"
  obtain q where q: "meets (e_settings E) view (rd_uuid rd) (attr_or (rq_client request) ''unknown'') (handle_exceptions (route E rd request)) g ?out (q, g')"
    and r: "case q of Inl e \<Rightarrow> r = internal_server_error | Inr p \<Rightarrow> answer_view r = answer_view p"
    by (rule request_meets [OF assms(1,2) run])
  have *: "answer_view r = (200, upstream_body c (rd_uuid rd), if slowed then Some ''2'' else None, map_option show_int left) \<and> same_rest g g'"
    if out: "?out = Admitted c slowed left" for c slowed left
  proof -
    obtain h where h: "passed_on view (rd_uuid rd) c (attr_or (rq_client request) ''unknown'') slowed g h"
      "comes_from (decorated slowed left) (handle_exceptions (route E rd request) h) (q, g')"
      using q unfolding out by (auto simp: meets_def)
    then show ?thesis
      using r proxy_run [OF proxy, of h c "rd_uuid rd" E rd] unfolding passed_on_def
      by (auto simp: same_rest_def split: option.splits)
  qed
  have "answer_view r = the (refusal (e_settings E) ?out) \<and> same_rest g g'" if "\<And>c slowed left. ?out \<noteq> Admitted c slowed left"
    using q r that by (cases ?out) (auto simp: meets_def dest: sym)
  then show "answer_view r = (case ?out of
      Admitted c slowed left \<Rightarrow> (200, upstream_body c (rd_uuid rd), if slowed then Some ''2'' else None, map_option show_int left)
    | out \<Rightarrow> the (refusal (e_settings E) out))" "same_rest g g'"
    using * by (cases ?out; force)+
qed

section \<open>Properties\<close>

text \<open>
  C3. The chain is the policy: on healthy services and a server that fits the schema, every request
  meets what the policy says of its token, the filters of the process and the entries of the server.
  It is refused - 401 without a token, 403 for a listed address or agent, 429 over the quota or for a
  soft-blocked address - and its handler does not run; or the handler runs, on a state with the
  tags of the request in which only the client's two logs, a new block of its address and the delay
  of a throttled request can differ, and its answer goes back with what is left of the quota and
  the delay as headers, and only an exception without a response becomes the server's 500.
\<close>

theorem requests_follow_policy:
  assumes H: "services_healthy E view rows" and ok: "server_ok (e_settings E) (view (store (gw_node g)))"
    and run: "handle_request E rd request g = (r, g')"
  shows "case policy E (view (store (gw_node g))) (bloom (gw_node g)) rd request of
      Admitted c slowed left \<Rightarrow>
        \<exists>h. passed_on view (rd_uuid rd) c (attr_or (rq_client request) ''unknown'') slowed g h \<and>
          (case handle_exceptions (route E rd request) h of
             (Inr p, m) \<Rightarrow> answer_view r = decorated slowed left (answer_view p) \<and> same_rest m g'
           | (Inl e, m) \<Rightarrow> r = internal_server_error \<and> same_rest m g')
    | out \<Rightarrow> Some (answer_view r) = refusal (e_settings E) out \<and> same_rest g g'"
proof -
  let ?out = "policy E (view (store (gw_node g))) (bloom (gw_node g)) rd request"
  let ?handler = "handle_exceptions (route E rd request)"
  obtain q where q: "meets (e_settings E) view (rd_uuid rd) (attr_or (rq_client request) ''unknown'') ?handler g ?out (q, g')"
    and r: "case q of Inl e \<Rightarrow> r = internal_server_error | Inr p \<Rightarrow> answer_view r = answer_view p"
    by (rule request_meets [OF H ok run])
  have "case x of (Inr p, m) \<Rightarrow> answer_view r = decorated slowed left (answer_view p) \<and> same_rest m g'
      | (Inl e, m) \<Rightarrow> r = internal_server_error \<and> same_rest m g'"
    if "comes_from (decorated slowed left) x (q, g')" for x slowed left
    using that r by (cases x; cases "fst x") auto
  then show ?thesis using q r by (cases ?out) (auto simp: meets_def)
qed

lemma demo_client: "auth_client demo_env demo_readings (admin_request Proxy ip) = Some ''root''"
proof -
  have h: "header_get (admin_request Proxy ip) ''Authorization'' [] = ''Bearer '' @ demo_token ''root'' ''admin''"
    by (simp add: admin_request_def demo_header)
  have "url_path (admin_request Proxy ip) \<notin> set public_paths" by (simp add: url_path_def public_paths_def)
  then show ?thesis
    using bearer_item [OF h demo_token_ok(2)] by (simp add: auth_client_def demo_token_ok)
qed

lemma demo_policy:
  "policy demo_env (empty_keyspace 0) (bloom (gw_node demo_gateway)) demo_readings (admin_request Proxy ''1.1.1.1'') =
     Admitted ''root'' False (Some 99)"
proof -
  have "\<not> might_contain_ip (textbook char_sums) (bloom (gw_node demo_gateway)) x" for x
    using tb.new_law by (simp add: demo_gateway_def bloom_filter_service_def new_filter_def might_contain_ip_def)
  moreover have "header_get (admin_request Proxy ''1.1.1.1'') ''User-Agent'' [] = []" by (simp add: admin_request_def demo_header(2))
  ultimately show ?thesis
    by (simp add: policy_def demo_client inner_policy_def behind_policy_def Let_def quota_used_def zset_at_def unexpired_def demo_settings_def
        shadow_flag_def string_value_def url_path_def excluded_paths_def)
qed

theorem requests_follow_policy_witness:
  "answer_view (fst (handle_request demo_env demo_readings (admin_request Proxy ''1.1.1.1'') demo_gateway)) =
     (200, upstream_body ''root'' ''id'', None, Some ''99'')"
proof -
  let ?rq = "admin_request Proxy ''1.1.1.1''"
  obtain r g' where run: "handle_request demo_env demo_readings ?rq demo_gateway = (r, g')" by fastforce
  obtain h where "passed_on (\<lambda>ks. ks) ''id'' ''root'' ''1.1.1.1'' False demo_gateway h"
    and h: "case handle_exceptions (route demo_env demo_readings ?rq) h of
       (Inr p, m) \<Rightarrow> answer_view r = decorated False (Some 99) (answer_view p) \<and> same_rest m g'
     | (Inl e, m) \<Rightarrow> r = internal_server_error \<and> same_rest m g'"
    using requests_follow_policy [OF demo_healthy _ run] by (auto simp: demo_policy server_ok_empty)
  then have "handle_exceptions (route demo_env demo_readings ?rq) h = (Inr (json_response 200 (upstream_body ''root'' ''id'') []), h)"
    by (intro proxy_run) (simp_all add: passed_on_def)
  moreover have "show_int 99 = ''99''" by code_simp
  ultimately show ?thesis using h by (simp add: run)
qed

end
