(* ===== verification/Registrations.thy ===== *)
theory Registrations
  imports Policy
begin

text \<open>
  Registrations through the whole gateway, over any sequence of requests: which rows the users table
  gets, with which contents, and what each registration is answered. It joins the handler's branches
  (Accounts) with what the middleware makes of its answer (Policy).
\<close>

section \<open>What a sequence of answers says about the table\<close>

text \<open>The row that a registration answered 201 has written, every column given by the request and the readings.\<close>

fun created :: "('r, 'b, 'd) env \<Rightarrow> (readings \<times> request) \<times> response \<Rightarrow> user option" where
  "created E ((rd, request), r) =
     (case rq_endpoint request of
        Register n m p \<Rightarrow>
          (case bcrypt_hashpw (e_bcrypt E) p (rd_salt rd) of
             Inl e \<Rightarrow> None
           | Inr h \<Rightarrow>
               (if status_code r = 201
                then Some \<lparr>u_id = rd_user_id rd, u_username = n, u_email = m, u_hashed_password = h,
                  u_is_active = True, u_role = ''user'', u_created_at = rd_created_us rd\<rparr>
                else None))
      | _ \<Rightarrow> None)"

text \<open>The status of a registration that reaches its handler while the table holds \<open>us\<close>.\<close>

definition registration_code :: "('r, 'b, 'd) env \<Rightarrow> user list \<Rightarrow> readings \<Rightarrow> string \<Rightarrow> string \<Rightarrow> string \<Rightarrow> int" where
  "registration_code E us rd n m p =
     (case bcrypt_hashpw (e_bcrypt E) p (rd_salt rd) of
        Inl e \<Rightarrow> 500
      | Inr h \<Rightarrow>
          if n \<in> u_username ` set us then 409
          else if \<not> fits_columns (new_user rd n m h) \<or> rd_user_id rd \<in> u_id ` set us \<or> m \<in> u_email ` set us then 500
          else 201)"

fun answered :: "('r, 'b, 'd) env \<Rightarrow> user list \<Rightarrow> (readings \<times> request) \<times> response \<Rightarrow> bool" where
  "answered E us ((rd, request), r) =
     (case rq_endpoint request of
        Register n m p \<Rightarrow> status_code r \<in> {403, 429, registration_code E us rd n m p}
      | _ \<Rightarrow> True)"

lemma created_status: "status_code r \<noteq> 201 \<Longrightarrow> created E ((rd, request), r) = None"
  by (auto split: endpoint.splits sum.splits)

lemma created_other: "\<nexists>n m p. rq_endpoint request = Register n m p \<Longrightarrow> created E ((rd, request), r) = None"
  by (auto split: endpoint.splits)

section \<open>One request\<close>

text \<open>A handler other than the registration's leaves the table.\<close>

lemma other_handler:
  fixes E :: "('r, 'b, 'd) env"
  assumes D: "user_table (e_users E) rows" and other: "\<nexists>n m p. rq_endpoint request = Register n m p"
    and run: "handle_exceptions (route E rd request) g = (q, m)"
  shows "rows (gw_users m) = rows (gw_users g)"
proof -
  let ?P = "\<lambda>h :: ('r, 'b, 'd) gateway. rows (gw_users h) = rows (gw_users g)"
  have zoom: "keeps ?P (on_users f)" if "keeps (\<lambda>d. rows d = rows (gw_users g)) f" for f :: "('d, 'x) io"
    unfolding on_users_def by (rule keeps_zoom [where P' = "\<lambda>d. rows d = rows (gw_users g)"]) (use that in auto)
  have find: "keeps (\<lambda>d. rows d = rows (gw_users g)) (db_find (e_users E) n)" for n
    by (rule keeps_sim [OF user_table.find_law [OF D]]) (simp add: tbl_find_def keeps_gets)
  have obs: "keeps ?P (observe m)" for m by (rule keepsI) (auto simp: observe_run)
  have node: "keeps ?P (on_node m)" for m :: "(('r, 'b) node, 'x) io"
    by (rule keepsI) (auto simp: on_node_def zoom_def split: prod.splits)
  then have redis: "keeps ?P (on_redis m)" for m :: "('r, 'x) io" by (simp add: on_redis_def)
  have "keeps ?P (route E rd request)"
    using other by (intro route_keeps login_keeps obs redis node zoom find) auto
  then have "keeps ?P (handle_exceptions (route E rd request))"
    by (rule handle_exceptions_keeps) simp
  then show ?thesis using run by (blast dest: keepsD)
qed

text \<open>The registration's handler: its status, and the row of a 201.\<close>

lemma register_handler:
  assumes D: "user_table (e_users E) rows" and B: "bcrypt_contract (e_bcrypt E)"
    and ep: "rq_endpoint request = Register n m p" and run: "handle_exceptions (route E rd request) g = (q, k)"
  shows "case q of
      Inl e \<Rightarrow> registration_code E (rows (gw_users g)) rd n m p = 500 \<and> rows (gw_users k) = rows (gw_users g)
    | Inr a \<Rightarrow> status_code a = registration_code E (rows (gw_users g)) rd n m p \<and>
        rows (gw_users k) = rows (gw_users g) @ (case created E ((rd, request), a) of None \<Rightarrow> [] | Some u \<Rightarrow> [u])"
proof -
  obtain r g' where r: "register E rd n m p g = (r, g')" by fastforce
  have handler: "handle_exceptions (route E rd request) g =
      (case r of Inr a \<Rightarrow> (Inr a, g') | Inl e \<Rightarrow> (case exception_response e of Some a \<Rightarrow> (Inr a, g') | None \<Rightarrow> (Inl e, g')))"
    by (simp add: handle_exceptions_def try_except_def route_def ep r ret_def raise_exn_def split: sum.splits option.splits)
  show ?thesis
  proof (cases "bcrypt_hashpw (e_bcrypt E) p (rd_salt rd)")
    case (Inl e)
    then have "e = ValueError" by (rule bcrypt_contract.raise_law(1) [OF B])
    then show ?thesis
      using register_run [OF D, of rd n m p g] run Inl unfolding handler r by (auto simp: registration_code_def)
  next
    case (Inr h)
    then show ?thesis
      using register_run [OF D, of rd n m p g] run unfolding handler r
      by (auto simp: registration_code_def Let_def json_response_def ep new_user_def split: if_splits)
  qed
qed

text \<open>The path of the registration is public, so it is never refused for want of a token.\<close>

lemma register_authenticated:
  assumes "rq_endpoint request = Register n m p"
  shows "policy E ks b rd request \<noteq> Unauthenticated x"
proof -
  have "url_path request \<in> set public_paths" using assms by (simp add: url_path_def public_paths_def)
  then show ?thesis by (simp add: policy_def auth_client_def inner_policy_def behind_policy_def Let_def)
qed

text \<open>
  Through the middleware: a refusal reaches no handler and has another status than 201, an admitted
  request keeps its handler's status.
\<close>

lemma registration_step:
  assumes H: "services_healthy E view rows" and ok: "server_ok (e_settings E) (view (store (gw_node g)))"
    and run: "handle_request E rd request g = (r, g')"
  shows "rows (gw_users g') = rows (gw_users g) @ (case created E ((rd, request), r) of None \<Rightarrow> [] | Some u \<Rightarrow> [u])"
    and "answered E (rows (gw_users g)) ((rd, request), r)"
proof -
  let ?out = "policy E (view (store (gw_node g))) (bloom (gw_node g)) rd request"
  have D: "user_table (e_users E) rows" and B: "bcrypt_contract (e_bcrypt E)" using H by (simp_all add: services_healthy_def)
  obtain q where q: "meets (e_settings E) view (rd_uuid rd) (attr_or (rq_client request) ''unknown'')
      (handle_exceptions (route E rd request)) g ?out (q, g')"
    and r: "case q of Inl e \<Rightarrow> r = internal_server_error | Inr p \<Rightarrow> answer_view r = answer_view p"
    by (rule request_meets [OF H ok run])
  have refused: "rows (gw_users g') = rows (gw_users g) @ (case created E ((rd, request), r) of None \<Rightarrow> [] | Some u \<Rightarrow> [u]) \<and>
      answered E us ((rd, request), r)"
    if "gw_users g' = gw_users g" and "status_code r = 403 \<or> status_code r = 429" for us
  proof -
    have "created E ((rd, request), r) = None" by (rule created_status) (use that(2) in auto)
    moreover have "answered E us ((rd, request), r)" using that(2) by (auto split: endpoint.split)
    ultimately show ?thesis using that(1) by simp
  qed
  have "rows (gw_users g') = rows (gw_users g) @ (case created E ((rd, request), r) of None \<Rightarrow> [] | Some u \<Rightarrow> [u]) \<and>
      answered E (rows (gw_users g)) ((rd, request), r)"
  proof (cases ?out)
    case (Admitted c slowed left)
    obtain h where "passed_on view (rd_uuid rd) c (attr_or (rq_client request) ''unknown'') slowed g h"
      and from_handler: "comes_from (decorated slowed left) (handle_exceptions (route E rd request) h) (q, g')"
      using q unfolding Admitted by (auto simp: meets_def)
    then have h: "rows (gw_users h) = rows (gw_users g)" by (simp add: passed_on_def same_rest_def)
    obtain x k where x: "handle_exceptions (route E rd request) h = (x, k)" by fastforce
    have k: "rows (gw_users g') = rows (gw_users k)"
      using from_handler unfolding x by (cases x) (auto simp: same_rest_def)
    have code: "status_code r = (case x of Inl e \<Rightarrow> 500 | Inr a \<Rightarrow> status_code a)"
      using from_handler r unfolding x by (cases x) (auto simp: answer_view_def internal_server_error_def)
    show ?thesis
    proof (cases "\<exists>n m p. rq_endpoint request = Register n m p")
      case True
      then obtain n m p where ep: "rq_endpoint request = Register n m p" by blast
      have "created E ((rd, request), r) = created E ((rd, request), a)" if "x = Inr a" for a
        using code that by (simp add: ep split: sum.split)
      then show ?thesis
        using register_handler [OF D B ep x] code h k by (cases x) (auto simp: ep split: sum.splits)
    next
      case False
      then show ?thesis
        using other_handler [OF D False x] h k created_other [OF False] by (auto split: endpoint.splits)
    qed
  next
    case (Unauthenticated x)
    then have other: "\<nexists>n m p. rq_endpoint request = Register n m p" using register_authenticated by metis
    then have "answered E us ((rd, request), r)" for us by (simp split: endpoint.split)
    moreover have "created E ((rd, request), r) = None" by (rule created_other [OF other])
    moreover have "gw_users g' = gw_users g" using q unfolding Unauthenticated by (simp add: meets_def same_rest_def)
    ultimately show ?thesis by (simp del: created.simps answered.simps)
  qed (rule refused; use q r in \<open>auto simp: meets_def same_rest_def answer_view_def\<close>)+
  then show "rows (gw_users g') = rows (gw_users g) @ (case created E ((rd, request), r) of None \<Rightarrow> [] | Some u \<Rightarrow> [u])"
    and "answered E (rows (gw_users g)) ((rd, request), r)" by blast+
qed

lemma request_server_ok:
  assumes H: "services_healthy E view rows" and ok: "server_ok (e_settings E) (view (store (gw_node g)))"
    and run: "handle_request E rd request g = (r, g')"
  shows "server_ok (e_settings E) (view (store (gw_node g')))"
  by (rule handle_keeps [OF safe_mono [OF healthy_request [OF H]] _ _ ok run]) simp_all

section \<open>Properties\<close>

text \<open>
  C22. The users table is the record of the registrations: on healthy services and a server that fits
  the schema, over any sequence of requests through the whole gateway, the table grows by exactly the
  registrations answered 201, in their order, each with the identifier, name, address, salted hash of
  the password and time of its own request, active and with the role \<open>user\<close>, and stays without a
  duplicate or overlong column. And a registration is answered 403 or 429 by the middleware or with
  the status its handler's tests give on the rows written so far: 409 for a name in the table, 500
  for another clash, an overlong column or a password that cannot be hashed, and 201 otherwise.
\<close>

theorem table_records_registrations:
  assumes H: "services_healthy E view rows" and "server_ok (e_settings E) (view (store (gw_node g)))"
    and "table_ok (rows (gw_users g))" and "handle_requests E rqs g = (rs, h)"
  shows "length rs = length rqs \<and> table_ok (rows (gw_users h)) \<and>
    rows (gw_users h) = rows (gw_users g) @ List.map_filter (created E) (zip rqs rs) \<and>
    (\<forall>i < length rqs. answered E (rows (gw_users g) @ List.map_filter (created E) (take i (zip rqs rs))) (zip rqs rs ! i))"
proof -
  have D: "user_table (e_users E) rows" using H by (simp add: services_healthy_def)
  have "length rs = length rqs \<and> rows (gw_users h) = rows (gw_users g) @ List.map_filter (created E) (zip rqs rs) \<and>
    (\<forall>i < length rqs. answered E (rows (gw_users g) @ List.map_filter (created E) (take i (zip rqs rs))) (zip rqs rs ! i))"
    using assms(2,4)
  proof (induction rqs arbitrary: g rs)
    case (Cons a rqs)
    obtain rd request where a: "a = (rd, request)" by fastforce
    obtain r g' where r: "handle_request E rd request g = (r, g')" by fastforce
    obtain rs' where rs: "handle_requests E rqs g' = (rs', h)" "rs = r # rs'"
      using Cons.prems(2) r a by (auto split: prod.splits)
    note step = registration_step [OF H Cons.prems(1) r]
    note IH = Cons.IH [OF request_server_ok [OF H Cons.prems(1) r] rs(1)]
    have row: "List.map_filter (created E) (((rd, request), r) # xs) =
        (case created E ((rd, request), r) of None \<Rightarrow> [] | Some u \<Rightarrow> [u]) @ List.map_filter (created E) xs" for xs
      by (simp add: List.map_filter_def split: option.splits)
    show ?case
    proof (intro conjI allI impI)
      show "length rs = length (a # rqs)" using IH rs(2) by simp
      show "rows (gw_users h) = rows (gw_users g) @ List.map_filter (created E) (zip (a # rqs) rs)"
        using IH step(1) by (simp add: a rs(2) split: option.splits del: created.simps)
      show "answered E (rows (gw_users g) @ List.map_filter (created E) (take i (zip (a # rqs) rs))) (zip (a # rqs) rs ! i)"
        if "i < length (a # rqs)" for i
        using IH step that
        by (cases i) (simp_all add: a rs(2) row del: List.map_filter_simps(2) nth_zip created.simps answered.simps)
    qed
  qed (simp add: List.map_filter_def)
  then show ?thesis using user_table_stays_well_formed [OF D assms(3,4)] by blast
qed

text \<open>A first registration meets no obstacle on the way to its handler.\<close>

lemma demo_register_policy:
  "policy demo_env (empty_keyspace 0) (bloom (gw_node demo_gateway)) demo_readings
     (demo_request (Register n m p) ''1.1.1.1'' []) = Admitted ''anonymous'' False None"
proof -
  let ?rq = "demo_request (Register n m p) ''1.1.1.1'' []"
  have "\<not> might_contain_ip (textbook char_sums) (bloom (gw_node demo_gateway)) x" for x
    using tb.new_law by (simp add: demo_gateway_def bloom_filter_service_def new_filter_def might_contain_ip_def)
  moreover have "header_get ?rq ''User-Agent'' [] = []" by (simp add: header_get_def)
  moreover have "url_path ?rq \<in> set public_paths" "url_path ?rq \<in> set excluded_paths"
    by (simp_all add: url_path_def public_paths_def excluded_paths_def)
  ultimately show ?thesis
    by (simp add: policy_def auth_client_def inner_policy_def behind_policy_def Let_def demo_settings_def
        shadow_flag_def string_value_def)
qed

definition demo_register :: request where
  "demo_register = demo_request (Register ''ann'' ''a@x'' ''pw'') ''1.1.1.1'' []"

definition demo_user :: user where
  "demo_user = \<lparr>u_id = ''u1'', u_username = ''ann'', u_email = ''a@x'', u_hashed_password = ''$2b$pw'',
     u_is_active = True, u_role = ''user'', u_created_at = 0\<rparr>"

lemma demo_registered:
  assumes "handle_request demo_env demo_readings demo_register demo_gateway = (r, g')"
  shows "status_code r = 201"
proof -
  have rq: "rq_endpoint demo_register = Register ''ann'' ''a@x'' ''pw''" by (simp add: demo_register_def)
  obtain q where "meets demo_settings (\<lambda>ks. ks) ''id'' ''1.1.1.1'' (handle_exceptions (route demo_env demo_readings demo_register))
      demo_gateway (Admitted ''anonymous'' False None) (q, g')"
    and r: "case q of Inl e \<Rightarrow> r = internal_server_error | Inr p \<Rightarrow> answer_view r = answer_view p"
    by (rule request_meets [OF demo_healthy _ assms])
      (simp_all add: demo_register_def demo_register_policy server_ok_empty)
  then obtain h where h: "gw_users h = []" "comes_from (decorated False None)
      (handle_exceptions (route demo_env demo_readings demo_register) h) (q, g')"
    by (auto simp: meets_def passed_on_def same_rest_def demo_gateway_def)
  obtain x k where x: "handle_exceptions (route demo_env demo_readings demo_register) h = (x, k)" by fastforce
  have "registration_code demo_env [] demo_readings ''ann'' ''a@x'' ''pw'' = 201"
    by (simp add: registration_code_def ref_bcrypt_def utf8_length_def fits_columns_def demo_readings_def)
  then show ?thesis
    using register_handler [where E = demo_env and rows = "\<lambda>us. us", OF _ _ rq x] r h unfolding x
    by (cases x) (auto simp: user_table_list bcrypt_contract_ref answer_view_def)
qed

theorem table_records_registrations_witness:
  "gw_users (snd (handle_requests demo_env [(demo_readings, demo_register)] demo_gateway)) = [demo_user]"
proof -
  obtain r g' where r: "handle_request demo_env demo_readings demo_register demo_gateway = (r, g')" by fastforce
  then have "handle_requests demo_env [(demo_readings, demo_register)] demo_gateway = ([r], g')" by simp
  from table_records_registrations [OF demo_healthy _ _ this]
  have "gw_users g' = List.map_filter (created demo_env) [((demo_readings, demo_register), r)]"
    by (simp add: server_ok_empty table_ok_def demo_gateway_def)
  then show ?thesis
    using r demo_registered [OF r]
    by (simp add: demo_register_def demo_user_def ref_bcrypt_def utf8_length_def demo_readings_def List.map_filter_def)
qed

end
