(* ===== verification/Database.thy ===== *)
theory Database
  imports Deployment
begin

text \<open>
  app/core/database.py: the options of the engine, and the sessions it hands out, as the code opens,
  uses and closes them. SQLAlchemy is a parameter, a record of the session calls, with their
  documented behaviour as the locale \<open>user_sessions\<close>: a session takes a connection of the pool with
  its first statement and gives it back at commit, rollback and close. The session blocks of
  app/routers/auth.py and \<open>get_db\<close> of app/dependencies.py are written over it and proved to do what
  the two transactions \<open>db_find\<close> and \<open>db_add\<close> of the theory Http stand for.
\<close>

section \<open>The engine\<close>

record engine_config =
  en_url :: string
  en_echo :: bool
  en_pool_pre_ping :: bool
  en_pool_size :: int
  en_max_overflow :: int
  en_pool_timeout :: int
  en_pool_recycle :: int
  en_server_settings :: "(string \<times> string) list"

definition engine_options :: "settings \<Rightarrow> engine_config" where
  "engine_options S =
     \<lparr>en_url = database_url S, en_echo = (app_env S = ''development''), en_pool_pre_ping = True,
      en_pool_size = 10, en_max_overflow = 10, en_pool_timeout = 30, en_pool_recycle = 1800,
      en_server_settings = [(''statement_timeout'', ''5000'')]\<rparr>"

definition connection_limit :: "settings \<Rightarrow> int" where
  "connection_limit S = en_pool_size (engine_options S) + en_max_overflow (engine_options S)"

text \<open>
  The numbers SQLAlchemy's \<open>QueuePool\<close> reports: its overflow starts at minus the size and counts the
  connections that are open beyond it.
\<close>

definition queue_pool :: "engine_config \<Rightarrow> pool \<Rightarrow> bool" where
  "queue_pool en p \<longleftrightarrow> pool_size p = en_pool_size en \<and> 0 \<le> checkedin p \<and> checkedin p \<le> pool_size p \<and>
     - pool_size p \<le> pool_overflow p \<and> pool_overflow p \<le> en_max_overflow en \<and>
     0 \<le> checkedout p \<and> checkedout p = pool_size p - checkedin p + pool_overflow p"

text \<open>
  What /health reports and the gauges show stays within the limit of the engine; the overflow is
  negative as long as fewer connections than the pool's size are open.
\<close>

lemma pool_report:
  assumes "queue_pool (engine_options S) p"
  shows "0 \<le> checkedout p" "checkedout p + checkedin p \<le> connection_limit S" "pool_size p = 10"
    and "pool_overflow p < 0 \<longleftrightarrow> checkedout p + checkedin p < 10"
    and "record_pool_stats p g = (Inr (), g\<lparr>gw_metrics := gw_metrics g @
          [DbPoolCheckedout (checkedout p), DbPoolOverflow (checkedout p + checkedin p - 10)]\<rparr>)"
  using assms
  by (auto simp: queue_pool_def engine_options_def connection_limit_def record_pool_stats_def bind_def observe_run)

section \<open>Sessions\<close>

record 's session_api =
  s_select :: "string \<Rightarrow> ('s, user option) io"
  s_add :: "user \<Rightarrow> ('s, unit) io"
  s_commit :: "('s, unit) io"
  s_refresh :: "user \<Rightarrow> ('s, unit) io"
  s_rollback :: "('s, unit) io"
  s_close :: "('s, unit) io"

text \<open>
  What a session does: the committed rows, the rows this session has added and those it has
  flushed, whether it holds a connection, and how many the others hold.
\<close>

record session_view =
  sv_rows :: "user list"
  sv_flushed :: "user list"
  sv_added :: "user list"
  sv_mine :: bool
  sv_others :: int

definition sv_reset :: "session_view \<Rightarrow> session_view" where
  "sv_reset v = v\<lparr>sv_flushed := [], sv_added := [], sv_mine := False\<rparr>"

definition sv_connect :: "int \<Rightarrow> (session_view, unit) io" where
  "sv_connect L = (\<lambda>v. if sv_mine v then (Inr (), v)
     else if sv_others v < L then (Inr (), v\<lparr>sv_mine := True\<rparr>) else (Inl (OtherError ''TimeoutError''), v))"

fun add_rows :: "user list \<Rightarrow> (user list, unit) io" where
  "add_rows [] = ret ()"
| "add_rows (u # us) = bind (tbl_add u) (\<lambda>_. add_rows us)"

text \<open>A flush that fails rolls the transaction back.\<close>

definition sv_flush :: "(session_view, unit) io" where
  "sv_flush = (\<lambda>v. case add_rows (sv_added v) (sv_rows v @ sv_flushed v) of
     (Inl e, us) \<Rightarrow> (Inl e, v\<lparr>sv_flushed := [], sv_added := []\<rparr>)
   | (Inr _, us) \<Rightarrow> (Inr (), v\<lparr>sv_flushed := drop (length (sv_rows v)) us, sv_added := []\<rparr>))"

definition sv_select :: "int \<Rightarrow> string \<Rightarrow> (session_view, user option) io" where
  "sv_select L name =
     bind (sv_connect L) (\<lambda>_. bind sv_flush (\<lambda>_.
     gets (\<lambda>v. find (\<lambda>u. u_username u = name) (sv_rows v @ sv_flushed v))))"

definition sv_add :: "user \<Rightarrow> (session_view, unit) io" where
  "sv_add u = modify (\<lambda>v. v\<lparr>sv_added := sv_added v @ [u]\<rparr>)"

definition sv_commit :: "int \<Rightarrow> (session_view, unit) io" where
  "sv_commit L =
     bind (sv_connect L) (\<lambda>_. bind sv_flush (\<lambda>_.
     modify (\<lambda>v. sv_reset (v\<lparr>sv_rows := sv_rows v @ sv_flushed v\<rparr>))))"

definition sv_refresh :: "int \<Rightarrow> user \<Rightarrow> (session_view, unit) io" where
  "sv_refresh L u =
     bind (sv_connect L) (\<lambda>_.
     bind (gets (\<lambda>v. u_id u \<in> u_id ` set (sv_rows v @ sv_flushed v))) (\<lambda>there.
     if there then ret () else raise_exn (OtherError ''InvalidRequestError'')))"

definition sv_api :: "int \<Rightarrow> session_view session_api" where
  "sv_api L = \<lparr>s_select = sv_select L, s_add = sv_add, s_commit = sv_commit L, s_refresh = sv_refresh L,
     s_rollback = modify sv_reset, s_close = modify sv_reset\<rparr>"

lemma sv_api_sel [simp]:
  "s_select (sv_api L) = sv_select L" "s_add (sv_api L) = sv_add" "s_commit (sv_api L) = sv_commit L"
  "s_refresh (sv_api L) = sv_refresh L" "s_rollback (sv_api L) = modify sv_reset" "s_close (sv_api L) = modify sv_reset"
  by (simp_all add: sv_api_def)

section \<open>The session blocks of the code\<close>

text \<open>\<open>async with AsyncSessionFactory() as db\<close>: however the block ends, the session is closed.\<close>

definition async_with :: "'s session_api \<Rightarrow> ('s, 'x) io \<Rightarrow> ('s, 'x) io" where
  "async_with A body = (\<lambda>s. case body s of (r, s') \<Rightarrow>
     (case s_close A s' of (Inl e, s'') \<Rightarrow> (Inl e, s'') | (Inr _, s'') \<Rightarrow> (r, s'')))"

definition get_db :: "'s session_api \<Rightarrow> ('s, 'x) io \<Rightarrow> ('s, 'x) io" where
  "get_db A handler =
     async_with A (try_except handler (\<lambda>exc. bind (s_rollback A) (\<lambda>_. raise_exn exc)))"

text \<open>The block of login, and that of register after the hash.\<close>

definition login_block :: "'s session_api \<Rightarrow> string \<Rightarrow> ('s, user option) io" where
  "login_block A username = async_with A (s_select A username)"

definition register_block :: "'s session_api \<Rightarrow> user \<Rightarrow> ('s, user) io" where
  "register_block A user =
     async_with A
       (bind (s_select A (u_username user)) (\<lambda>result.
        if result \<noteq> None then raise_exn (HTTPException PlainHTTP 409 ''Username already exists'' [])
        else
          bind (s_add A user) (\<lambda>_.
          bind (s_commit A) (\<lambda>_.
          bind (s_refresh A user) (\<lambda>_.
          ret user)))))"

text \<open>What \<open>Routers.register\<close> makes of it: the two transactions, one after the other.\<close>

definition two_transactions :: "'d user_db \<Rightarrow> user \<Rightarrow> ('d, user) io" where
  "two_transactions D user =
     bind (db_find D (u_username user)) (\<lambda>result.
     case result of
       Some u \<Rightarrow> raise_exn (HTTPException PlainHTTP 409 ''Username already exists'' [])
     | None \<Rightarrow> bind (db_add D user) (\<lambda>_. ret user))"

lemma register_is_two_transactions:
  "register E rd username email password =
     bind (lift_result (hash_password (e_bcrypt E) (rd_salt rd) password)) (\<lambda>hashed_pw.
     bind (on_users (two_transactions (e_users E) (new_user rd username email hashed_pw))) (\<lambda>user.
     ret (json_response 201 (user_response user) [])))"
  by (rule ext)
    (auto simp: register_def two_transactions_def Let_def bind_def on_users_def zoom_def lift_result_def raise_exn_def ret_def
      split: prod.splits sum.splits option.splits)

section \<open>The contract\<close>

locale user_sessions =
  fixes A :: "'s session_api" and view :: "'s \<Rightarrow> session_view" and L :: int
  assumes select_law: "simulates view (s_select A name) (s_select (sv_api L) name)"
    and add_law: "simulates view (s_add A u) (s_add (sv_api L) u)"
    and commit_law: "simulates view (s_commit A) (s_commit (sv_api L))"
    and refresh_law: "simulates view (s_refresh A u) (s_refresh (sv_api L) u)"
    and rollback_law: "simulates view (s_rollback A) (s_rollback (sv_api L))"
    and close_law: "simulates view (s_close A) (s_close (sv_api L))"
begin

lemma sim_async_with:
  "simulates view m n \<Longrightarrow> simulates view (async_with A m) (async_with (sv_api L) n)"
  unfolding simulates_def [of _ "async_with A m"]
proof
  fix s assume m: "simulates view m n"
  obtain r t where 1: "m s = (r, t)" by fastforce
  obtain q u where 2: "s_close A t = (q, u)" by fastforce
  show "async_with (sv_api L) n (view s) = map_prod id view (async_with A m s)"
    using simulatesD [OF m 1] simulatesD [OF close_law 2] by (cases q) (simp_all add: async_with_def 1 2)
qed

lemma sim_login_block: "simulates view (login_block A n) (login_block (sv_api L) n)"
  unfolding login_block_def by (intro sim_async_with select_law)

lemma sim_register_block: "simulates view (register_block A u) (register_block (sv_api L) u)"
  unfolding register_block_def
  by (intro sim_async_with sim_bind sim_if sim_raise sim_ret select_law add_law commit_law refresh_law)

lemma sim_get_db: "simulates view m n \<Longrightarrow> simulates view (get_db A m) (get_db (sv_api L) n)"
  unfolding get_db_def by (intro sim_async_with sim_try sim_bind sim_raise rollback_law)

end

interpretation sv: user_sessions "sv_api L" "\<lambda>v. v" L
  by unfold_locales (rule sim_id)+

section \<open>The blocks on the view\<close>

definition idle :: "session_view \<Rightarrow> bool" where
  "idle v \<longleftrightarrow> sv_flushed v = [] \<and> sv_added v = [] \<and> \<not> sv_mine v"

lemma closed_view:
  "async_with (sv_api L) m v = (fst (m v), sv_reset (snd (m v)))"
  by (simp add: async_with_def modify_def split: prod.splits)

lemma idle_reset [simp]: "idle (sv_reset v)" "sv_rows (sv_reset v) = sv_rows v" "sv_others (sv_reset v) = sv_others v"
  by (simp_all add: idle_def sv_reset_def)

lemma idle_reset_id: "idle v \<Longrightarrow> sv_reset v = v"
  by (cases v) (simp add: idle_def sv_reset_def)

text \<open>A free connection, or none: then the first statement raises and nothing has changed.\<close>

lemma select_run:
  assumes "idle v"
  shows "sv_select L n v = (if sv_others v < L
    then (Inr (find (\<lambda>u. u_username u = n) (sv_rows v)), v\<lparr>sv_mine := True\<rparr>)
    else (Inl (OtherError ''TimeoutError''), v))"
  using assms by (simp add: idle_def sv_select_def sv_connect_def sv_flush_def bind_def gets_def ret_def)

lemma login_block_run:
  assumes "idle v"
  shows "login_block (sv_api L) n v = (if sv_others v < L
    then Inr (find (\<lambda>u. u_username u = n) (sv_rows v)) else Inl (OtherError ''TimeoutError''), v)"
proof -
  have "sv_reset (v\<lparr>sv_mine := True\<rparr>) = v" using assms by (cases v) (simp add: idle_def sv_reset_def)
  then show ?thesis by (simp add: login_block_def closed_view select_run [OF assms] idle_reset_id [OF assms])
qed

text \<open>The insert: flush, commit, and a second connection for the refresh, which finds the row.\<close>

lemma insert_run:
  assumes "idle v" and "sv_others v < L"
  shows "bind (sv_add u) (\<lambda>_. bind (sv_commit L) (\<lambda>_. bind (sv_refresh L u) (\<lambda>_. ret u))) (v\<lparr>sv_mine := True\<rparr>) =
    (case tbl_add u (sv_rows v) of
       (Inl e, us) \<Rightarrow> (Inl e, v\<lparr>sv_mine := True\<rparr>)
     | (Inr _, us) \<Rightarrow> (Inr u, v\<lparr>sv_rows := us, sv_mine := True\<rparr>))"
proof -
  obtain r us where t: "tbl_add u (sv_rows v) = (r, us)" by fastforce
  have v: "sv_flushed v = []" "sv_added v = []" "\<not> sv_mine v" using assms(1) by (simp_all add: idle_def)
  show ?thesis
  proof (cases r)
    case (Inl e)
    then show ?thesis
      using t v by (cases v) (simp add: sv_add_def sv_commit_def sv_connect_def sv_flush_def bind_def modify_def)
  next
    case (Inr x)
    then have "us = sv_rows v @ [u]" using t by (auto simp: tbl_add_def split: if_splits)
    then show ?thesis
      using t v assms(2) Inr
      by (cases v) (simp add: sv_add_def sv_commit_def sv_connect_def sv_flush_def sv_refresh_def sv_reset_def bind_def modify_def gets_def ret_def)
  qed
qed

lemma register_block_run:
  assumes "idle v"
  shows "register_block (sv_api L) u v =
    (if sv_others v < L
     then (fst (two_transactions list_users u (sv_rows v)), v\<lparr>sv_rows := snd (two_transactions list_users u (sv_rows v))\<rparr>)
     else (Inl (OtherError ''TimeoutError''), v))"
proof -
  have restored: "sv_reset (v\<lparr>sv_rows := us, sv_mine := True\<rparr>) = v\<lparr>sv_rows := us\<rparr>" "sv_reset (v\<lparr>sv_mine := True\<rparr>) = v" for us
    using assms by (cases v; simp add: idle_def sv_reset_def)+
  let ?found = "find (\<lambda>w. u_username w = u_username u) (sv_rows v)"
  let ?insert = "bind (sv_add u) (\<lambda>_. bind (sv_commit L) (\<lambda>_. bind (sv_refresh L u) (\<lambda>_. ret u)))"
  obtain q us where t: "tbl_add u (sv_rows v) = (q, us)" by fastforce
  then have kept: "q = Inl e \<Longrightarrow> us = sv_rows v" for e by (auto simp: tbl_add_def split: if_splits)
  have spec: "two_transactions list_users u (sv_rows v) = (case ?found of
      Some w \<Rightarrow> (Inl (HTTPException PlainHTTP 409 ''Username already exists'' []), sv_rows v)
    | None \<Rightarrow> (case q of Inl e \<Rightarrow> (Inl e, us) | Inr _ \<Rightarrow> (Inr u, us)))"
    using t by (simp add: two_transactions_def list_users_def tbl_find_def bind_def gets_def raise_exn_def ret_def split: option.splits sum.splits)
  have block: "register_block (sv_api L) u v = (let (r, w) =
      (if sv_others v < L then if ?found \<noteq> None then (Inl (HTTPException PlainHTTP 409 ''Username already exists'' []), v\<lparr>sv_mine := True\<rparr>)
         else ?insert (v\<lparr>sv_mine := True\<rparr>)
       else (Inl (OtherError ''TimeoutError''), v)) in (r, sv_reset w))"
    by (simp add: register_block_def closed_view bind_def [of "sv_select L n" for n] select_run [OF assms] raise_exn_def split: prod.splits)
  show ?thesis
  proof (cases "sv_others v < L")
    case True
    then show ?thesis
      unfolding block spec using insert_run [OF assms True, of u] t kept
      by (cases q) (auto simp: restored split: option.splits)
  qed (simp add: block idle_reset_id [OF assms])
qed

text \<open>A handler that raises has its session rolled back and closed, and the exception goes on.\<close>

lemma get_db_raises:
  assumes "user_sessions A view L" and "handler s = (Inl e, t)" and "get_db A handler s = (r, s')"
  shows "r = Inl e" and "view s' = sv_reset (view t)"
proof -
  obtain t1 where "s_rollback A t = (Inr (), t1)" "view t1 = sv_reset (view t)"
    using simulates_run [OF user_sessions.rollback_law [OF assms(1)], of t "Inr ()"] by (auto simp: modify_def)
  moreover obtain t2 where "s_close A t1 = (Inr (), t2)" "view t2 = sv_reset (view t1)"
    using simulates_run [OF user_sessions.close_law [OF assms(1)], of t1 "Inr ()"] by (auto simp: modify_def)
  ultimately have "get_db A handler s = (Inl e, t2)" "view t2 = sv_reset (view t)"
    by (simp_all add: get_db_def async_with_def try_except_def assms(2) bind_def raise_exn_def) (simp add: sv_reset_def)
  then show "r = Inl e" "view s' = sv_reset (view t)" using assms(3) by auto
qed

section \<open>Properties\<close>

text \<open>
  C25. The session blocks of login and register are the transactions of the model: on any
  sessions that meet the contract, opened while fewer than twenty connections are in use, the
  look-up returns the row of that name and the block of register does and answers exactly what the
  look-up and the insert, one after the other, do on the rows. With every connection in use both
  raise the pool's timeout and write nothing. However they end, the session gives its connection
  back and leaves nothing pending.
\<close>

theorem session_blocks_are_the_transactions:
  assumes A: "user_sessions A view (connection_limit S)" and idle: "idle (view s)"
    and login: "login_block A name s = (found, s1)" and register: "register_block A user s = (r, s2)"
  shows "(if sv_others (view s) < 20
      then found = Inr (find (\<lambda>u. u_username u = name) (sv_rows (view s))) \<and>
           two_transactions list_users user (sv_rows (view s)) = (r, sv_rows (view s2))
      else found = Inl (OtherError ''TimeoutError'') \<and> r = Inl (OtherError ''TimeoutError'') \<and>
           sv_rows (view s2) = sv_rows (view s)) \<and>
    view s1 = view s \<and> idle (view s2) \<and> sv_others (view s2) = sv_others (view s)"
proof -
  have L: "connection_limit S = 20" by (simp add: connection_limit_def engine_options_def)
  have l: "login_block (sv_api 20) name (view s) = (found, view s1)"
    using simulatesD [OF user_sessions.sim_login_block [OF A] login] L by simp
  have r: "register_block (sv_api 20) user (view s) = (r, view s2)"
    using simulatesD [OF user_sessions.sim_register_block [OF A] register] L by simp
  have s1: "found = fst (login_block (sv_api 20) name (view s))" "view s1 = snd (login_block (sv_api 20) name (view s))"
    and s2: "r = fst (register_block (sv_api 20) user (view s))" "view s2 = snd (register_block (sv_api 20) user (view s))"
    using l r by simp_all
  show ?thesis
    unfolding s1 s2 login_block_run [OF idle] register_block_run [OF idle] using idle by (simp add: idle_def)
qed

theorem session_blocks_are_the_transactions_witness:
  "\<exists>s2. register_block (sv_api 20) (new_user demo_readings ''ann'' ''a@x'' ''h'')
      \<lparr>sv_rows = [], sv_flushed = [], sv_added = [], sv_mine = False, sv_others = 19\<rparr> =
        (Inr (new_user demo_readings ''ann'' ''a@x'' ''h''), s2) \<and>
     sv_rows s2 = [new_user demo_readings ''ann'' ''a@x'' ''h''] \<and> idle s2"
proof -
  let ?s = "\<lparr>sv_rows = [], sv_flushed = [], sv_added = [], sv_mine = False, sv_others = 19\<rparr>"
  let ?u = "new_user demo_readings ''ann'' ''a@x'' ''h''"
  obtain r s2 where run: "register_block (sv_api 20) ?u ?s = (r, s2)" by fastforce
  obtain found s1 where login: "login_block (sv_api 20) ''ann'' ?s = (found, s1)" by fastforce
  have "connection_limit demo_settings = 20" by (simp add: connection_limit_def engine_options_def)
  then have A: "user_sessions (sv_api 20) (\<lambda>v. v) (connection_limit demo_settings)"
    using sv.user_sessions_axioms by simp
  have idle: "idle ?s" by (simp add: idle_def)
  have "two_transactions list_users ?u [] = (Inr ?u, [?u])"
    by (simp add: two_transactions_def list_users_def tbl_find_def tbl_add_def gets_def bind_def ret_def fits_columns_def)
  then show ?thesis
    using session_blocks_are_the_transactions [OF A idle login run] run by auto
qed

end
