(* ===== verification/LoginRace.thy ===== *)
theory LoginRace
  imports Accounts
begin

text \<open>
  Logins that run at the same time. The handler of \<open>/auth/login\<close> awaits Redis twice, first for the
  stuffing test, then, after the password check, to record the failure; other logins run in between.
  The step relation interleaves those two commands for a number of logins from one address, all with
  wrong passwords, with at most \<open>m\<close> of them between the two at a time.
\<close>

section \<open>The interleavings\<close>

datatype phase = Arrived | Verifying | Refused | Failed

record race =
  rc_server :: keyspace
  rc_logins :: "phase list"

definition in_phase :: "phase \<Rightarrow> race \<Rightarrow> nat" where
  "in_phase p s = length (filter (\<lambda>q. q = p) (rc_logins s))"

text \<open>The logins whose password was looked at.\<close>

definition guesses :: "race \<Rightarrow> nat" where
  "guesses s = in_phase Verifying s + in_phase Failed s"

definition race_start :: "keyspace \<Rightarrow> nat \<Rightarrow> race" where
  "race_start ks n = \<lparr>rc_server = ks, rc_logins = replicate n Arrived\<rparr>"

inductive login_step :: "settings \<Rightarrow> string \<Rightarrow> (nat \<Rightarrow> string) \<Rightarrow> nat \<Rightarrow> race \<Rightarrow> race \<Rightarrow> bool"
  for S :: settings and ip :: string and name :: "nat \<Rightarrow> string" and m :: nat where
  check_passes: "i < length (rc_logins s) \<Longrightarrow> rc_logins s ! i = Arrived \<Longrightarrow> in_phase Verifying s < m \<Longrightarrow>
    is_credential_stuffing ks_redis ip (name i) (auth_failure_ip_threshold S) (auth_failure_user_threshold S)
      (rc_server s) = (Inr (False, r), ks) \<Longrightarrow>
    login_step S ip name m s \<lparr>rc_server = ks, rc_logins = (rc_logins s)[i := Verifying]\<rparr>"
| check_refuses: "i < length (rc_logins s) \<Longrightarrow> rc_logins s ! i = Arrived \<Longrightarrow>
    is_credential_stuffing ks_redis ip (name i) (auth_failure_ip_threshold S) (auth_failure_user_threshold S)
      (rc_server s) = (Inr (True, r), ks) \<Longrightarrow>
    login_step S ip name m s \<lparr>rc_server = ks, rc_logins = (rc_logins s)[i := Refused]\<rparr>"
| failure_counts: "i < length (rc_logins s) \<Longrightarrow> rc_logins s ! i = Verifying \<Longrightarrow>
    record_auth_failure ks_redis ip (name i) (auth_failure_window_seconds S) (rc_server s) = (Inr (), ks) \<Longrightarrow>
    login_step S ip name m s \<lparr>rc_server = ks, rc_logins = (rc_logins s)[i := Failed]\<rparr>"

abbreviation race_reaches :: "settings \<Rightarrow> string \<Rightarrow> (nat \<Rightarrow> string) \<Rightarrow> nat \<Rightarrow> race \<Rightarrow> race \<Rightarrow> bool" where
  "race_reaches S ip name m \<equiv> (login_step S ip name m)\<^sup>*\<^sup>*"

section \<open>The invariant\<close>

lemma length_filter_update:
  "i < length xs \<Longrightarrow> xs ! i = q \<Longrightarrow> q \<noteq> p \<Longrightarrow>
   length (filter (\<lambda>x. x = p) (xs[i := p])) = Suc (length (filter (\<lambda>x. x = p) xs))"
  "i < length xs \<Longrightarrow> xs ! i = q \<Longrightarrow> q \<noteq> r \<Longrightarrow>
   Suc (length (filter (\<lambda>x. x = q) (xs[i := r]))) = length (filter (\<lambda>x. x = q) xs)"
  "i < length xs \<Longrightarrow> xs ! i \<noteq> p \<Longrightarrow> r \<noteq> p \<Longrightarrow>
   length (filter (\<lambda>x. x = p) (xs[i := r])) = length (filter (\<lambda>x. x = p) xs)"
  by (induction xs arbitrary: i) (auto simp: nth_Cons split: nat.splits)

definition race_inv :: "settings \<Rightarrow> string \<Rightarrow> nat \<Rightarrow> nat \<Rightarrow> race \<Rightarrow> bool" where
  "race_inv S ip n m s \<longleftrightarrow> length (rc_logins s) = n \<and>
     attempted (rc_server s) ip (int (in_phase Failed s)) 0 \<and>
     int (guesses s) \<le> auth_failure_ip_threshold S + int m - 1"

lemma attempted_counters:
  assumes "attempted ks ip k T"
  shows "counter_ok ks x" and "failures ks ip = k" and "failures ks x \<le> k"
  using assms by (simp_all add: attempted_def)

lemma race_inv_step:
  assumes inv: "race_inv S ip n m s" and step: "login_step S ip name m s t"
    and names: "\<And>i. name i \<noteq> ip" and w: "0 < auth_failure_window_seconds S" and n: "n < 2 ^ 60"
  shows "race_inv S ip n m t"
proof -
  have len: "length (rc_logins s) = n" and a: "attempted (rc_server s) ip (int (in_phase Failed s)) 0"
    and g: "int (guesses s) \<le> auth_failure_ip_threshold S + int m - 1"
    using inv by (simp_all add: race_inv_def)
  note stuffing = stuffing_run [OF attempted_counters(1) [OF a] attempted_counters(1) [OF a]]
  have "in_phase Failed s \<le> n" unfolding in_phase_def len [symmetric] by (rule length_filter_le)
  then have small: "int (in_phase Failed s) + 2 < 2 ^ 62" using n by simp
  from step show ?thesis
  proof cases
    case (check_passes i r ks)
    have ks: "ks = rc_server s" and below: "int (in_phase Failed s) < auth_failure_ip_threshold S"
      using check_passes(5) attempted_counters(2) [OF a] by (auto simp: stuffing stuffing_verdict_def split: if_splits)
    have "in_phase Failed t = in_phase Failed s" "in_phase Verifying t = Suc (in_phase Verifying s)"
      using check_passes(1-3) by (simp_all add: in_phase_def length_filter_update)
    then show ?thesis
      using check_passes(1,4) ks below a len by (simp add: race_inv_def guesses_def)
  next
    case (check_refuses i r ks)
    have "ks = rc_server s" using check_refuses(4) by (auto simp: stuffing)
    moreover have "in_phase Failed t = in_phase Failed s" "in_phase Verifying t = in_phase Verifying s"
      using check_refuses(1-3) by (simp_all add: in_phase_def length_filter_update)
    ultimately show ?thesis using check_refuses(1) a len g by (simp add: race_inv_def guesses_def)
  next
    case (failure_counts i ks)
    obtain ks' where "record_auth_failure ks_redis ip (name i) (auth_failure_window_seconds S) (rc_server s) = (Inr (), ks')"
      and "attempted ks' ip (int (in_phase Failed s) + 1) 0"
      by (rule attempted_fail [OF a w _ small names]) (use w in simp)
    moreover have "in_phase Failed t = Suc (in_phase Failed s)" "Suc (in_phase Verifying t) = in_phase Verifying s"
      using failure_counts(1-3) by (simp_all add: in_phase_def length_filter_update)
    ultimately show ?thesis using failure_counts(1,4) len g by (simp add: race_inv_def guesses_def add.commute)
  qed
qed

lemma race_inv_start:
  assumes "\<And>x. entry ks (failed_auth_key x) = None" and "0 < auth_failure_ip_threshold S"
  shows "race_inv S ip n m (race_start ks n)"
  using assms by (simp add: race_inv_def race_start_def in_phase_def guesses_def attempted_def counter_ok_def
      failures_def string_value_def)

lemma race_inv_reaches:
  assumes "race_reaches S ip name m s t" and "race_inv S ip n m s"
    and "\<And>i. name i \<noteq> ip" and "0 < auth_failure_window_seconds S" and "n < 2 ^ 60"
  shows "race_inv S ip n m t"
  using assms(1,2) by (induction rule: rtranclp_induct) (use race_inv_step assms(3-5) in blast)+

section \<open>All at once\<close>

text \<open>First every login passes the test, then every failure is recorded.\<close>

lemma all_pass:
  assumes "\<And>x. entry ks (failed_auth_key x) = None" and "0 < auth_failure_ip_threshold S"
    and "0 < auth_failure_user_threshold S" and "n \<le> m" and "k \<le> n"
  shows "race_reaches S ip name m (race_start ks n)
    \<lparr>rc_server = ks, rc_logins = replicate k Verifying @ replicate (n - k) Arrived\<rparr>"
  using assms(5)
proof (induction k)
  case (Suc k)
  let ?s = "\<lparr>rc_server = ks, rc_logins = replicate k Verifying @ replicate (n - k) Arrived\<rparr>"
  have c: "counter_ok ks x" "failures ks x = 0" for x
    using assms(1) by (simp_all add: counter_ok_def failures_def string_value_def)
  have u: "(replicate k Verifying @ replicate (n - k) Arrived)[k := Verifying] =
      replicate (Suc k) Verifying @ replicate (n - Suc k) Arrived"
    using Suc.prems by (intro replicate_step) simp
  have "login_step S ip name m ?s \<lparr>rc_server = ks, rc_logins = (rc_logins ?s)[k := Verifying]\<rparr>"
    by (rule check_passes [where r = "[]"])
      (use Suc.prems assms(2-4) in \<open>simp_all add: nth_append in_phase_def stuffing_run c stuffing_verdict_def\<close>)
  with Suc show ?case by (simp add: u)
qed (simp add: race_start_def)

lemma all_recorded:
  assumes names: "\<And>i. name i \<noteq> ip" and w: "0 < auth_failure_window_seconds S" and n: "n < 2 ^ 60"
    and "attempted ks ip 0 0" and "k \<le> n"
  shows "\<exists>ks'. race_reaches S ip name m \<lparr>rc_server = ks, rc_logins = replicate n Verifying\<rparr>
      \<lparr>rc_server = ks', rc_logins = replicate k Failed @ replicate (n - k) Verifying\<rparr> \<and> attempted ks' ip (int k) 0"
  using assms(5)
proof (induction k)
  case 0
  then show ?case using assms(4) by auto
next
  case (Suc k)
  then obtain ks1 where r: "race_reaches S ip name m \<lparr>rc_server = ks, rc_logins = replicate n Verifying\<rparr>
      \<lparr>rc_server = ks1, rc_logins = replicate k Failed @ replicate (n - k) Verifying\<rparr>" and a: "attempted ks1 ip (int k) 0"
    by auto
  let ?s = "\<lparr>rc_server = ks1, rc_logins = replicate k Failed @ replicate (n - k) Verifying\<rparr>"
  obtain ks2 where f: "record_auth_failure ks_redis ip (name k) (auth_failure_window_seconds S) ks1 = (Inr (), ks2)"
    and a2: "attempted ks2 ip (int k + 1) 0"
    by (rule attempted_fail [OF a w _ _ names]) (use w n Suc.prems in simp_all)
  have u: "(replicate k Failed @ replicate (n - k) Verifying)[k := Failed] =
      replicate (Suc k) Failed @ replicate (n - Suc k) Verifying"
    using Suc.prems by (intro replicate_step) simp
  have "login_step S ip name m ?s \<lparr>rc_server = ks2, rc_logins = (rc_logins ?s)[k := Failed]\<rparr>"
    by (rule failure_counts) (use Suc.prems f in \<open>simp_all add: nth_append\<close>)
  then have "race_reaches S ip name m \<lparr>rc_server = ks, rc_logins = replicate n Verifying\<rparr>
      \<lparr>rc_server = ks2, rc_logins = replicate (Suc k) Failed @ replicate (n - Suc k) Verifying\<rparr>"
    using r by (simp add: u)
  then show ?case using a2 by (auto simp: add.commute)
qed

section \<open>Properties\<close>

text \<open>
  C14. The test is not atomic with the count, so concurrency adds guesses: whatever the interleaving,
  logins of one address with wrong passwords look at no more passwords than the threshold plus the
  number of logins in flight, less one; and if all of them may be in flight, an interleaving exists
  in which every single one is tried, however many there are.
\<close>

theorem concurrent_guesses:
  assumes "\<forall>x. entry ks (failed_auth_key x) = None" and "0 < auth_failure_ip_threshold S"
    and "0 < auth_failure_user_threshold S" and "0 < auth_failure_window_seconds S"
    and "\<forall>i. name i \<noteq> ip" and "n < 2 ^ 60"
  shows "(\<forall>s. race_reaches S ip name m (race_start ks n) s \<longrightarrow>
            int (guesses s) \<le> auth_failure_ip_threshold S + int m - 1) \<and>
         (n \<le> m \<longrightarrow> (\<exists>s. race_reaches S ip name m (race_start ks n) s \<and> rc_logins s = replicate n Failed))"
proof (intro conjI allI impI)
  fix s assume "race_reaches S ip name m (race_start ks n) s"
  then have "race_inv S ip n m s"
    by (rule race_inv_reaches) (use assms race_inv_start in auto)
  then show "int (guesses s) \<le> auth_failure_ip_threshold S + int m - 1" by (simp add: race_inv_def)
next
  assume "n \<le> m"
  have "race_reaches S ip name m (race_start ks n) \<lparr>rc_server = ks, rc_logins = replicate n Verifying\<rparr>"
    using all_pass [of ks S n m n ip name] assms \<open>n \<le> m\<close> by simp
  moreover have "attempted ks ip 0 0"
    using assms(1) by (simp add: attempted_def counter_ok_def failures_def string_value_def)
  from all_recorded [of name ip S n ks n m] this
  obtain ks' where "race_reaches S ip name m \<lparr>rc_server = ks, rc_logins = replicate n Verifying\<rparr>
      \<lparr>rc_server = ks', rc_logins = replicate n Failed\<rparr>"
    using assms(4-6) by auto
  ultimately show "\<exists>s. race_reaches S ip name m (race_start ks n) s \<and> rc_logins s = replicate n Failed"
    by (intro exI [of _ "\<lparr>rc_server = ks', rc_logins = replicate n Failed\<rparr>"]) (auto intro: rtranclp_trans)
qed

theorem concurrent_guesses_witness:
  "\<exists>s. race_reaches (default_settings [] [] []) ''6.6.6.6'' (\<lambda>i. ''ann'') 50 (race_start (empty_keyspace 0) 50) s \<and>
     rc_logins s = replicate 50 Failed"
  using conjunct2 [OF concurrent_guesses [where ks = "empty_keyspace 0" and S = "default_settings [] [] []" and
      ip = "''6.6.6.6''" and name = "\<lambda>i. ''ann''" and n = 50 and m = 50]]
  by simp

end
