(* ===== verification/RegisterRace.thy ===== *)
theory RegisterRace
  imports Accounts
begin

text \<open>
  Registrations that run at the same time. The handler of \<open>/auth/register\<close> hashes the password, looks the
  user name up and inserts the row, two statements with an await before each; other registrations run
  in between. The step relation interleaves the lookups and the inserts of a list of forms, whose
  passwords are hashed.
\<close>

section \<open>The interleavings\<close>

record form =
  fm_readings :: readings
  fm_username :: string
  fm_email :: string
  fm_hashed :: string

definition form_user :: "form \<Rightarrow> user" where
  "form_user f = new_user (fm_readings f) (fm_username f) (fm_email f) (fm_hashed f)"

text \<open>\<open>Conflict\<close> is the answer 409, \<open>Created\<close> 201; a \<open>Broken\<close> one raises what no handler answers.\<close>

datatype attempt = Asking | Adding | Conflict | Created | Broken exn

record 'd desk =
  dk_users :: 'd
  dk_attempts :: "attempt list"

definition desk_start :: "'d \<Rightarrow> form list \<Rightarrow> 'd desk" where
  "desk_start d F = \<lparr>dk_users = d, dk_attempts = replicate (length F) Asking\<rparr>"

inductive register_step :: "'d user_db \<Rightarrow> form list \<Rightarrow> 'd desk \<Rightarrow> 'd desk \<Rightarrow> bool"
  for D :: "'d user_db" and F :: "form list" where
  finds_none: "i < length F \<Longrightarrow> dk_attempts s ! i = Asking \<Longrightarrow>
    db_find D (fm_username (F ! i)) (dk_users s) = (Inr None, d) \<Longrightarrow>
    register_step D F s \<lparr>dk_users = d, dk_attempts = (dk_attempts s)[i := Adding]\<rparr>"
| finds_user: "i < length F \<Longrightarrow> dk_attempts s ! i = Asking \<Longrightarrow>
    db_find D (fm_username (F ! i)) (dk_users s) = (Inr (Some u), d) \<Longrightarrow>
    register_step D F s \<lparr>dk_users = d, dk_attempts = (dk_attempts s)[i := Conflict]\<rparr>"
| adds: "i < length F \<Longrightarrow> dk_attempts s ! i = Adding \<Longrightarrow>
    db_add D (form_user (F ! i)) (dk_users s) = (Inr (), d) \<Longrightarrow>
    register_step D F s \<lparr>dk_users = d, dk_attempts = (dk_attempts s)[i := Created]\<rparr>"
| breaks: "i < length F \<Longrightarrow> dk_attempts s ! i = Adding \<Longrightarrow>
    db_add D (form_user (F ! i)) (dk_users s) = (Inl e, d) \<Longrightarrow>
    register_step D F s \<lparr>dk_users = d, dk_attempts = (dk_attempts s)[i := Broken e]\<rparr>"

inductive_cases register_stepE: "register_step D F s t"

abbreviation register_reaches :: "'d user_db \<Rightarrow> form list \<Rightarrow> 'd desk \<Rightarrow> 'd desk \<Rightarrow> bool" where
  "register_reaches D F \<equiv> (register_step D F)\<^sup>*\<^sup>*"

definition settled :: "'d desk \<Rightarrow> bool" where
  "settled s \<longleftrightarrow> Asking \<notin> set (dk_attempts s) \<and> Adding \<notin> set (dk_attempts s)"

lemma find_user_run:
  assumes "user_table D rows" and "db_find D n d = (r, d')"
  shows "r = Inr (find (\<lambda>u. u_username u = n) (rows d))" and "rows d' = rows d"
  using simulatesD [OF user_table.find_law [OF assms(1)] assms(2)] by (auto simp: tbl_find_def gets_def)

lemma add_user_run:
  "user_table D rows \<Longrightarrow> db_add D u d = (r, d') \<Longrightarrow> tbl_add u (rows d) = (r, rows d')"
  by (rule simulatesD [OF user_table.add_law])

lemma table_ok_add: "table_ok us \<Longrightarrow> tbl_add u us = (r, us') \<Longrightarrow> table_ok us'"
  by (force simp: table_ok_def tbl_add_def split: if_splits)

text \<open>The constraints hold the table together, whatever the forms and the interleaving.\<close>

lemma concurrent_table_ok:
  assumes D: "user_table D rows" and "register_reaches D F s t" and "table_ok (rows (dk_users s))"
  shows "table_ok (rows (dk_users t))"
  using assms(2,3)
proof (induction rule: rtranclp_induct)
  case (step t v)
  from step.hyps(2) show ?case
    by (rule register_stepE)
      (use step.IH [OF step.prems] find_user_run(2) [OF D] table_ok_add [OF _ add_user_run [OF D]] in auto)
qed simp

section \<open>Many registrations of one name\<close>

definition rivals :: "string \<Rightarrow> user list \<Rightarrow> form list \<Rightarrow> bool" where
  "rivals n us F \<longleftrightarrow> n \<notin> u_username ` set us \<and>
     (\<forall>f \<in> set F. fm_username f = n \<and> fits_columns (form_user f) \<and> fm_email f \<notin> u_email ` set us \<and>
        rd_user_id (fm_readings f) \<notin> u_id ` set us)"

lemma form_user_sel [simp]:
  "u_username (form_user f) = fm_username f" "u_email (form_user f) = fm_email f"
  "u_id (form_user f) = rd_user_id (fm_readings f)"
  by (simp_all add: form_user_def)

text \<open>Before the first insert the name is free; after it every other form meets it.\<close>

lemma rival_runs:
  assumes "rivals n us F" and "i < length F"
  shows "find (\<lambda>u. u_username u = fm_username (F ! i)) us = None"
    and "tbl_add (form_user (F ! i)) us = (Inr (), us @ [form_user (F ! i)])"
    and "j < length F \<Longrightarrow> find (\<lambda>u. u_username u = fm_username (F ! i)) (us @ [form_user (F ! j)]) = Some (form_user (F ! j))"
    and "j < length F \<Longrightarrow> tbl_add (form_user (F ! i)) (us @ [form_user (F ! j)]) = (Inl IntegrityError, us @ [form_user (F ! j)])"
proof -
  have F: "fm_username f = n" "fits_columns (form_user f)" "fm_email f \<notin> u_email ` set us"
      "rd_user_id (fm_readings f) \<notin> u_id ` set us" if "f \<in> set F" for f
    using assms(1) that by (auto simp: rivals_def)
  have n: "n \<notin> u_username ` set us" using assms(1) by (simp add: rivals_def)
  have i: "F ! i \<in> set F" using assms(2) by simp
  show none: "find (\<lambda>u. u_username u = fm_username (F ! i)) us = None"
    using n F(1) [OF i] by (force simp: find_None_iff)
  show "tbl_add (form_user (F ! i)) us = (Inr (), us @ [form_user (F ! i)])"
    using n F [OF i] by (auto simp: tbl_add_def intro: rev_image_eqI)
  show "find (\<lambda>u. u_username u = fm_username (F ! i)) (us @ [form_user (F ! j)]) = Some (form_user (F ! j))" if "j < length F"
    using none that F(1) [OF i] F(1) [of "F ! j"] by (simp add: find_append)
  show "tbl_add (form_user (F ! i)) (us @ [form_user (F ! j)]) = (Inl IntegrityError, us @ [form_user (F ! j)])" if "j < length F"
    using that F [OF i] F(1) [of "F ! j"] by (simp add: tbl_add_def)
qed

definition race_of_rivals :: "('d \<Rightarrow> user list) \<Rightarrow> user list \<Rightarrow> form list \<Rightarrow> 'd desk \<Rightarrow> bool" where
  "race_of_rivals rows us F s \<longleftrightarrow> length (dk_attempts s) = length F \<and>
     (rows (dk_users s) = us \<and> set (dk_attempts s) \<subseteq> {Asking, Adding} \<or>
      (\<exists>i < length F. dk_attempts s ! i = Created \<and> rows (dk_users s) = us @ [form_user (F ! i)] \<and>
         (\<forall>j < length F. j \<noteq> i \<longrightarrow> dk_attempts s ! j \<in> {Asking, Adding, Conflict, Broken IntegrityError})))"

lemma race_of_rivals_step:
  assumes D: "user_table D rows" and rivals: "rivals n us F" and inv: "race_of_rivals rows us F s"
    and step: "register_step D F s t"
  shows "race_of_rivals rows us F t"
proof -
  have len: "length (dk_attempts s) = length F" using inv by (simp add: race_of_rivals_def)
  note runs = rival_runs [OF rivals]
  from inv consider (free) "rows (dk_users s) = us" "set (dk_attempts s) \<subseteq> {Asking, Adding}"
    | (won) w where "w < length F" "dk_attempts s ! w = Created" "rows (dk_users s) = us @ [form_user (F ! w)]"
        "\<forall>j < length F. j \<noteq> w \<longrightarrow> dk_attempts s ! j \<in> {Asking, Adding, Conflict, Broken IntegrityError}"
    unfolding race_of_rivals_def by blast
  then show ?thesis
  proof cases
    case free
    have others: "\<forall>j < length F. dk_attempts s ! j \<in> {Asking, Adding}" using free(2) len by (metis nth_mem subsetD)
    from step show ?thesis
    proof cases
      case (finds_none i d)
      have "set ((dk_attempts s)[i := Adding]) \<subseteq> {Asking, Adding}"
        using free(2) set_update_subset_insert [of "dk_attempts s" i Adding] by auto
      then show ?thesis
        using finds_none(1) find_user_run(2) [OF D finds_none(4)] free(1) len by (simp add: race_of_rivals_def)
    next
      case (finds_user i u d)
      then show ?thesis using find_user_run(1) [OF D finds_user(4)] free(1) runs(1) [OF finds_user(2)] by simp
    next
      case (adds i d)
      have "rows d = us @ [form_user (F ! i)]"
        using add_user_run [OF D adds(4)] runs(2) [OF adds(2)] free(1) by simp
      then show ?thesis
        unfolding race_of_rivals_def using adds(1,2) others len
        by (intro conjI disjI2 exI [of _ i]) (auto simp: nth_list_update)
    next
      case (breaks i e d)
      then show ?thesis using add_user_run [OF D breaks(4)] runs(2) [OF breaks(2)] free(1) by simp
    qed
  next
    case won
    have go: "race_of_rivals rows us F \<lparr>dk_users = d, dk_attempts = (dk_attempts s)[i := a]\<rparr>"
      if "i < length F" "i \<noteq> w" "rows d = rows (dk_users s)" "a \<in> {Asking, Adding, Conflict, Broken IntegrityError}" for i d a
      unfolding race_of_rivals_def using won len that
      by (intro conjI disjI2 exI [of _ w]) (auto simp: nth_list_update)
    from step show ?thesis
    proof cases
      case (finds_none i d)
      then show ?thesis using find_user_run(1) [OF D finds_none(4)] won(3) runs(3) [OF finds_none(2) won(1)] by simp
    next
      case (finds_user i u d)
      have "i \<noteq> w" using finds_user(3) won(2) by auto
      then show ?thesis using go finds_user(1,2) find_user_run(2) [OF D finds_user(4)] by simp
    next
      case (adds i d)
      then show ?thesis using add_user_run [OF D adds(4)] won(3) runs(4) [OF adds(2) won(1)] by simp
    next
      case (breaks i e d)
      have "e = IntegrityError" "rows d = rows (dk_users s)"
        using add_user_run [OF D breaks(4)] won(3) runs(4) [OF breaks(2) won(1)] by auto
      moreover have "i \<noteq> w" using breaks(3) won(2) by auto
      ultimately show ?thesis using go breaks(1,2) by simp
    qed
  qed
qed

lemma race_of_rivals_reaches:
  assumes "user_table D rows" and "rivals n (rows d) F" and "register_reaches D F (desk_start d F) s"
  shows "race_of_rivals rows (rows d) F s"
  using assms(3)
proof (induction rule: rtranclp_induct)
  case base
  show ?case by (auto simp: race_of_rivals_def desk_start_def)
next
  case (step t v)
  show ?case by (rule race_of_rivals_step [OF assms(1,2) step.IH step.hyps(2)])
qed

section \<open>An interleaving without a 409\<close>

lemma finds_none_run:
  assumes D: "user_table D rows" and "rivals n (rows (dk_users s)) F" and "i < length F" "dk_attempts s ! i = Asking"
  obtains d where "rows d = rows (dk_users s)"
    and "register_step D F s \<lparr>dk_users = d, dk_attempts = (dk_attempts s)[i := Adding]\<rparr>"
proof -
  obtain r d where f: "db_find D (fm_username (F ! i)) (dk_users s) = (r, d)" by fastforce
  have "r = Inr None" using find_user_run(1) [OF D f] rival_runs(1) [OF assms(2,3)] by simp
  then show thesis
    using that [OF find_user_run(2) [OF D f]] register_step.finds_none [where D = D, OF assms(3,4)] f by simp
qed

lemma adds_run:
  assumes D: "user_table D rows" and "rivals n us F" and "rows (dk_users s) = us"
    and "i < length F" "dk_attempts s ! i = Adding"
  obtains d where "rows d = us @ [form_user (F ! i)]"
    and "register_step D F s \<lparr>dk_users = d, dk_attempts = (dk_attempts s)[i := Created]\<rparr>"
proof -
  obtain r d where f: "db_add D (form_user (F ! i)) (dk_users s) = (r, d)" by fastforce
  have "r = Inr ()" "rows d = us @ [form_user (F ! i)]"
    using add_user_run [OF D f] rival_runs(2) [OF assms(2,4)] assms(3) by auto
  then show thesis using that register_step.adds [where D = D, OF assms(4,5)] f by simp
qed

lemma breaks_run:
  assumes D: "user_table D rows" and "rivals n us F" and "rows (dk_users s) = us @ [form_user (F ! w)]" and "w < length F"
    and "i < length F" "dk_attempts s ! i = Adding"
  obtains d where "rows d = us @ [form_user (F ! w)]"
    and "register_step D F s \<lparr>dk_users = d, dk_attempts = (dk_attempts s)[i := Broken IntegrityError]\<rparr>"
proof -
  obtain r d where f: "db_add D (form_user (F ! i)) (dk_users s) = (r, d)" by fastforce
  have "r = Inl IntegrityError" "rows d = us @ [form_user (F ! w)]"
    using add_user_run [OF D f] rival_runs(4) [OF assms(2,5,4)] assms(3) by auto
  then show thesis using that register_step.breaks [where D = D, OF assms(5,6)] f by simp
qed

lemma all_find_none:
  assumes D: "user_table D rows" and rivals: "rivals n (rows d) F" and "k \<le> length F"
  shows "\<exists>d'. rows d' = rows d \<and> register_reaches D F (desk_start d F)
    \<lparr>dk_users = d', dk_attempts = replicate k Adding @ replicate (length F - k) Asking\<rparr>"
  using assms(3)
proof (induction k)
  case 0
  then show ?case by (auto simp: desk_start_def)
next
  case (Suc k)
  let ?s = "\<lambda>d'. \<lparr>dk_users = d', dk_attempts = replicate k Adding @ replicate (length F - k) Asking\<rparr>"
  obtain d1 where d1: "rows d1 = rows d" and r: "register_reaches D F (desk_start d F) (?s d1)" using Suc by auto
  obtain d2 where d2: "rows d2 = rows d1"
    and step: "register_step D F (?s d1) \<lparr>dk_users = d2, dk_attempts = (dk_attempts (?s d1))[k := Adding]\<rparr>"
    by (rule finds_none_run [OF D, of n "?s d1" F k]) (use rivals d1 Suc.prems in \<open>simp_all add: nth_append\<close>)
  have "dk_attempts (?s d1) = replicate k Adding @ replicate (length F - k) Asking" by simp
  then have "register_reaches D F (desk_start d F)
      \<lparr>dk_users = d2, dk_attempts = replicate (Suc k) Adding @ replicate (length F - Suc k) Asking\<rparr>"
    using rtranclp.rtrancl_into_rtrancl [OF r step] replicate_step [of k "length F" Adding Asking] Suc.prems by simp
  then show ?case using d1 d2 by (intro exI [of _ d2]) simp
qed

lemma all_break:
  assumes D: "user_table D rows" and rivals: "rivals n us F" and d: "rows d = us @ [form_user (F ! 0)]" and "Suc k \<le> length F"
  shows "\<exists>d'. rows d' = rows d \<and>
    register_reaches D F \<lparr>dk_users = d, dk_attempts = Created # replicate (length F - 1) Adding\<rparr>
      \<lparr>dk_users = d', dk_attempts = Created # replicate k (Broken IntegrityError) @ replicate (length F - 1 - k) Adding\<rparr>"
  using assms(4)
proof (induction k)
  case (Suc k)
  let ?s = "\<lambda>d'. \<lparr>dk_users = d', dk_attempts =
      Created # replicate k (Broken IntegrityError) @ replicate (length F - 1 - k) Adding\<rparr>"
  let ?start = "\<lparr>dk_users = d, dk_attempts = Created # replicate (length F - 1) Adding\<rparr>"
  obtain d1 where d1: "rows d1 = rows d" and r: "register_reaches D F ?start (?s d1)" using Suc by auto
  obtain d2 where d2: "rows d2 = us @ [form_user (F ! 0)]"
    and step: "register_step D F (?s d1) \<lparr>dk_users = d2, dk_attempts = (dk_attempts (?s d1))[Suc k := Broken IntegrityError]\<rparr>"
    by (rule breaks_run [OF D rivals, of "?s d1" 0 "Suc k"]) (use d d1 Suc.prems in \<open>auto simp: nth_append\<close>)
  have "k < length F - 1" using Suc.prems by simp
  note replicate_step [OF this, of "Broken IntegrityError" Adding]
  then have "(dk_attempts (?s d1))[Suc k := Broken IntegrityError] =
      Created # replicate (Suc k) (Broken IntegrityError) @ replicate (length F - 1 - Suc k) Adding" by simp
  then have "register_reaches D F ?start \<lparr>dk_users = d2, dk_attempts =
      Created # replicate (Suc k) (Broken IntegrityError) @ replicate (length F - 1 - Suc k) Adding\<rparr>"
    using rtranclp.rtrancl_into_rtrancl [OF r step] by simp
  then show ?case using d d2 by (intro exI [of _ d2]) simp
qed auto

section \<open>Properties\<close>

text \<open>
  C15. Of any number of registrations that run at the same time for one free name, exactly one is
  answered 201 and adds its row, whatever the interleaving; each other one is answered 409, or it
  looked the name up before that row was there and ends in the \<open>IntegrityError\<close> that no handler answers.
  An interleaving exists in which no 409 is sent at all.
\<close>

theorem concurrent_registrations:
  assumes "user_table D rows" and "rivals n (rows d) F" and "F \<noteq> []"
  shows "(\<forall>s. register_reaches D F (desk_start d F) s \<and> settled s \<longrightarrow>
            (\<exists>i < length F. dk_attempts s ! i = Created \<and> rows (dk_users s) = rows d @ [form_user (F ! i)] \<and>
               (\<forall>j < length F. j \<noteq> i \<longrightarrow> dk_attempts s ! j \<in> {Conflict, Broken IntegrityError}))) \<and>
         (\<exists>s. register_reaches D F (desk_start d F) s \<and>
            dk_attempts s = Created # replicate (length F - 1) (Broken IntegrityError))"
proof (intro conjI allI impI)
  fix s assume s: "register_reaches D F (desk_start d F) s \<and> settled s"
  have inv: "race_of_rivals rows (rows d) F s" using race_of_rivals_reaches [OF assms(1,2)] s by blast
  have over: "dk_attempts s ! j \<notin> {Asking, Adding}" if "j < length F" for j
    using s inv that by (metis insertE nth_mem race_of_rivals_def settled_def singletonD)
  have "\<not> set (dk_attempts s) \<subseteq> {Asking, Adding}"
    using over [of 0] assms(3) inv by (metis length_greater_0_conv nth_mem race_of_rivals_def subsetD)
  then show "\<exists>i < length F. dk_attempts s ! i = Created \<and> rows (dk_users s) = rows d @ [form_user (F ! i)] \<and>
      (\<forall>j < length F. j \<noteq> i \<longrightarrow> dk_attempts s ! j \<in> {Conflict, Broken IntegrityError})"
    using inv over unfolding race_of_rivals_def by blast
next
  have F: "0 < length F" using assms(3) by simp
  obtain d1 where d1: "rows d1 = rows d" and r1: "register_reaches D F (desk_start d F)
      \<lparr>dk_users = d1, dk_attempts = replicate (length F) Adding\<rparr>"
    using all_find_none [OF assms(1,2) order_refl] by auto
  let ?looked = "\<lparr>dk_users = d1, dk_attempts = replicate (length F) Adding\<rparr>"
  obtain d2 where d2: "rows d2 = rows d @ [form_user (F ! 0)]"
    and s2: "register_step D F ?looked \<lparr>dk_users = d2, dk_attempts = (dk_attempts ?looked)[0 := Created]\<rparr>"
    by (rule adds_run [OF assms(1,2), of ?looked 0]) (use d1 F in simp_all)
  have e: "(replicate (length F) Adding)[0 := Created] = Created # replicate (length F - 1) Adding"
    using F by (cases "length F") simp_all
  obtain d3 where "register_reaches D F \<lparr>dk_users = d2, dk_attempts = Created # replicate (length F - 1) Adding\<rparr>
      \<lparr>dk_users = d3, dk_attempts = Created # replicate (length F - 1) (Broken IntegrityError)\<rparr>"
    using all_break [OF assms(1,2) d2, of "length F - 1"] F by auto
  with r1 s2 have "register_reaches D F (desk_start d F)
      \<lparr>dk_users = d3, dk_attempts = Created # replicate (length F - 1) (Broken IntegrityError)\<rparr>"
    by (simp add: e)
  then show "\<exists>s. register_reaches D F (desk_start d F) s \<and>
      dk_attempts s = Created # replicate (length F - 1) (Broken IntegrityError)"
    by (intro exI conjI) auto
qed

definition demo_form :: "string \<Rightarrow> string \<Rightarrow> form" where
  "demo_form uid email = \<lparr>fm_readings = demo_readings\<lparr>rd_user_id := uid\<rparr>, fm_username = ''ann'', fm_email = email,
     fm_hashed = ''$2b$pw''\<rparr>"

theorem concurrent_registrations_witness:
  "\<exists>s. register_reaches list_users [demo_form ''u1'' ''a@x'', demo_form ''u2'' ''b@x'', demo_form ''u3'' ''c@x'']
       (desk_start [] [demo_form ''u1'' ''a@x'', demo_form ''u2'' ''b@x'', demo_form ''u3'' ''c@x'']) s \<and>
     dk_attempts s = [Created, Broken IntegrityError, Broken IntegrityError]"
  using conjunct2 [OF concurrent_registrations [OF user_table_list, where n = "''ann''" and d = "[]" and
      F = "[demo_form ''u1'' ''a@x'', demo_form ''u2'' ''b@x'', demo_form ''u3'' ''c@x'']"]]
  by (simp add: rivals_def demo_form_def fits_columns_def form_user_def numeral_2_eq_2)

end
