(* ===== verification/Migrations.thy ===== *)
theory Migrations
  imports Http
begin

text \<open>
  migrations/versions/: the five Alembic revisions as operations on a schema, with their parents.
  Alembic itself is not modelled; what is used of it is that an upgrade runs every missing revision
  once, each after its parents, and that a schema operation on a wrong state is a database error.
\<close>

section \<open>Schemas and operations\<close>

datatype sql_type = SqlString "nat option" | SqlBoolean | SqlDateTime bool

record sql_column =
  c_name :: string
  c_type :: sql_type
  c_nullable :: bool
  c_server_default :: "string option"

record sql_table =
  t_columns :: "sql_column list"
  t_primary :: string
  t_unique :: "string list"

type_synonym schema = "(string \<times> sql_table) list"

datatype schema_error = DuplicateTable | UndefinedTable | DuplicateColumn | UndefinedColumn

datatype schema_op =
    CreateTable string sql_table
  | DropTable string
  | AddColumn string sql_column
  | DropColumn string string

definition has_column :: "string \<Rightarrow> sql_table \<Rightarrow> bool" where
  "has_column n t \<longleftrightarrow> n \<in> set (map c_name (t_columns t))"

definition replace_table :: "string \<Rightarrow> sql_table \<Rightarrow> schema \<Rightarrow> schema" where
  "replace_table n t db = map (\<lambda>(m, u). (m, if m = n then t else u)) db"

fun run_schema_op :: "schema_op \<Rightarrow> schema \<Rightarrow> schema_error + schema" where
  "run_schema_op (CreateTable n t) db =
     (if map_of db n = None then Inr (db @ [(n, t)]) else Inl DuplicateTable)"
| "run_schema_op (DropTable n) db =
     (if map_of db n = None then Inl UndefinedTable else Inr (filter (\<lambda>(m, u). m \<noteq> n) db))"
| "run_schema_op (AddColumn n c) db =
     (case map_of db n of
        None \<Rightarrow> Inl UndefinedTable
      | Some t \<Rightarrow>
          (if has_column (c_name c) t then Inl DuplicateColumn
           else Inr (replace_table n (t\<lparr>t_columns := t_columns t @ [c]\<rparr>) db)))"
| "run_schema_op (DropColumn n c) db =
     (case map_of db n of
        None \<Rightarrow> Inl UndefinedTable
      | Some t \<Rightarrow>
          (if \<not> has_column c t then Inl UndefinedColumn
           else Inr (replace_table n (t\<lparr>t_columns := filter (\<lambda>k. c_name k \<noteq> c) (t_columns t)\<rparr>) db)))"

fun run_schema_ops :: "schema_op list \<Rightarrow> schema \<Rightarrow> schema_error + schema" where
  "run_schema_ops [] db = Inr db"
| "run_schema_ops (p # ps) db = (case run_schema_op p db of Inl e \<Rightarrow> Inl e | Inr db' \<Rightarrow> run_schema_ops ps db')"

section \<open>The revisions\<close>

record revision =
  rv_id :: string
  rv_down :: "string list"
  rv_upgrade :: "schema_op list"
  rv_downgrade :: "schema_op list"

definition column :: "string \<Rightarrow> sql_type \<Rightarrow> string option \<Rightarrow> sql_column" where
  "column n t d = \<lparr>c_name = n, c_type = t, c_nullable = False, c_server_default = d\<rparr>"

text \<open>\<open>op.create_table("users", ...)\<close> of the two first revisions, which differ in \<open>created_at\<close>.\<close>

definition users_table :: "sql_column \<Rightarrow> sql_table" where
  "users_table created_at =
     \<lparr>t_columns =
        [column ''id'' (SqlString None) None, column ''username'' (SqlString (Some 50)) None,
         column ''email'' (SqlString (Some 255)) None, column ''hashed_password'' (SqlString (Some 255)) None,
         column ''is_active'' SqlBoolean None, created_at],
      t_primary = ''id'', t_unique = [''email'', ''username'']\<rparr>"

definition create_users_table :: revision where
  "create_users_table =
     \<lparr>rv_id = ''4d6b8b0f3f62'', rv_down = [],
      rv_upgrade = [CreateTable ''users'' (users_table (column ''created_at'' (SqlDateTime False) None))],
      rv_downgrade = [DropTable ''users'']\<rparr>"

definition initial_schema :: revision where
  "initial_schema =
     \<lparr>rv_id = ''e5e33863a297'', rv_down = [],
      rv_upgrade = [CreateTable ''users'' (users_table (column ''created_at'' (SqlDateTime True) (Some ''now()'')))],
      rv_downgrade = [DropTable ''users'']\<rparr>"

definition add_role_column :: revision where
  "add_role_column =
     \<lparr>rv_id = ''df814258c022'', rv_down = [''e5e33863a297''],
      rv_upgrade = [AddColumn ''users'' (column ''role'' (SqlString (Some 20)) (Some ''user''))],
      rv_downgrade = [DropColumn ''users'' ''role'']\<rparr>"

definition merge_heads_1130 :: revision where
  "merge_heads_1130 =
     \<lparr>rv_id = ''1130f7259f8a'', rv_down = [''4d6b8b0f3f62'', ''df814258c022''], rv_upgrade = [], rv_downgrade = []\<rparr>"

definition merge_heads_cb35 :: revision where
  "merge_heads_cb35 =
     \<lparr>rv_id = ''cb354bae0bfe'', rv_down = [''1130f7259f8a''], rv_upgrade = [], rv_downgrade = []\<rparr>"

definition revisions :: "revision list" where
  "revisions = [create_users_table, initial_schema, add_role_column, merge_heads_1130, merge_heads_cb35]"

lemmas revision_defs = create_users_table_def initial_schema_def add_role_column_def merge_heads_1130_def
  merge_heads_cb35_def

text \<open>A plan: each revision after its parents, \<open>done\<close> are the ones the database already has.\<close>

fun plan_ok :: "string list \<Rightarrow> revision list \<Rightarrow> bool" where
  "plan_ok past [] = True"
| "plan_ok past (r # rs) =
     (list_all (\<lambda>d. d \<in> set past) (rv_down r) \<and> rv_id r \<notin> set past \<and> plan_ok (rv_id r # past) rs)"

fun upgrade :: "revision list \<Rightarrow> schema \<Rightarrow> schema_error + schema" where
  "upgrade [] db = Inr db"
| "upgrade (r # rs) db = (case run_schema_ops (rv_upgrade r) db of Inl e \<Rightarrow> Inl e | Inr db' \<Rightarrow> upgrade rs db')"

text \<open>A downgrade runs its revisions in the order given, the youngest first.\<close>

fun downgrade :: "revision list \<Rightarrow> schema \<Rightarrow> schema_error + schema" where
  "downgrade [] db = Inr db"
| "downgrade (r # rs) db = (case run_schema_ops (rv_downgrade r) db of Inl e \<Rightarrow> Inl e | Inr db' \<Rightarrow> downgrade rs db')"

text \<open>
  migrations/env.py, \<open>do_run_migrations\<close>: the whole plan in one transaction, so an error leaves the
  schema as it was (PostgreSQL rolls back schema operations too).
\<close>

definition do_run_migrations :: "revision list \<Rightarrow> schema \<Rightarrow> schema_error option \<times> schema" where
  "do_run_migrations plan db = (case upgrade plan db of Inl e \<Rightarrow> (Some e, db) | Inr db' \<Rightarrow> (None, db'))"

section \<open>The offline mode\<close>

text \<open>
  \<open>run_migrations_offline\<close> prints the plan as a script, one transaction around its statements (the
  statements of Alembic's own version table are left out). A statement that fails aborts the
  transaction of PostgreSQL: the rest is ignored and the commit is a rollback.
\<close>

datatype script_line = BeginTransaction | Statement schema_op | CommitTransaction

definition run_migrations_offline :: "revision list \<Rightarrow> script_line list" where
  "run_migrations_offline plan =
     BeginTransaction # map Statement (concat (map rv_upgrade plan)) @ [CommitTransaction]"

fun run_script :: "script_line list \<Rightarrow> (schema_error + schema) option \<Rightarrow> schema \<Rightarrow> schema" where
  "run_script [] tx db = db"
| "run_script (BeginTransaction # ls) tx db = run_script ls (Some (Inr db)) db"
| "run_script (CommitTransaction # ls) tx db =
     run_script ls None (case tx of Some (Inr db') \<Rightarrow> db' | _ \<Rightarrow> db)"
| "run_script (Statement p # ls) None db =
     run_script ls None (case run_schema_op p db of Inl e \<Rightarrow> db | Inr db' \<Rightarrow> db')"
| "run_script (Statement p # ls) (Some (Inl e)) db = run_script ls (Some (Inl e)) db"
| "run_script (Statement p # ls) (Some (Inr d)) db = run_script ls (Some (run_schema_op p d)) db"

lemma run_schema_ops_append:
  "run_schema_ops (ps @ qs) db = (case run_schema_ops ps db of Inl e \<Rightarrow> Inl e | Inr db' \<Rightarrow> run_schema_ops qs db')"
  by (induction ps arbitrary: db) (auto split: sum.splits)

lemma upgrade_concat: "upgrade plan db = run_schema_ops (concat (map rv_upgrade plan)) db"
  by (induction plan arbitrary: db) (auto simp: run_schema_ops_append split: sum.splits)

lemma script_statements:
  "run_script (map Statement ps @ ls) (Some tx) db =
     run_script ls (Some (case tx of Inl e \<Rightarrow> Inl e | Inr d \<Rightarrow> run_schema_ops ps d)) db"
  by (induction ps arbitrary: tx) (auto split: sum.splits)

text \<open>The printed script, run on a database, leaves what the online mode leaves.\<close>

lemma offline_script_does_the_same: "run_script (run_migrations_offline plan) None db = snd (do_run_migrations plan db)"
  by (simp add: run_migrations_offline_def script_statements do_run_migrations_def upgrade_concat split: sum.splits)

section \<open>A downgrade undoes its upgrade\<close>

lemma downgrade_append:
  "downgrade (rs @ qs) db = (case downgrade rs db of Inl e \<Rightarrow> Inl e | Inr db' \<Rightarrow> downgrade qs db')"
  by (induction rs arbitrary: db) (auto split: sum.splits)

lemma replace_table_keys [simp]: "map fst (replace_table n t db) = map fst db"
  by (simp add: replace_table_def case_prod_beta comp_def)

lemma map_of_replace_table: "map_of db n = Some u \<Longrightarrow> map_of (replace_table n t db) n = Some t"
  by (induction db) (auto simp: replace_table_def)

lemma replace_table_back:
  assumes "distinct (map fst db)" and "map_of db n = Some t"
  shows "replace_table n t (replace_table n u db) = db"
proof -
  have one: "(m, if m = n then t else v) = (m, v)" if "(m, v) \<in> set db" for m v
    using map_of_is_SomeI [OF assms(1) that] assms(2) by auto
  have "replace_table n t (replace_table n u db) = map (\<lambda>(m, v). (m, if m = n then t else v)) db"
    by (auto simp: replace_table_def)
  also have "\<dots> = map (\<lambda>x. x) db" by (rule map_cong [OF refl]) (use one in auto)
  finally show ?thesis by simp
qed

lemma create_then_drop:
  assumes "run_schema_op (CreateTable n t) db = Inr db'" and "distinct (map fst db)"
  shows "run_schema_op (DropTable n) db' = Inr db \<and> distinct (map fst db')"
proof -
  have new: "n \<notin> fst ` set db" and db': "db' = db @ [(n, t)]"
    using assms(1) by (auto simp: map_of_eq_None_iff split: if_splits)
  have "filter (\<lambda>(m, u). m \<noteq> n) db = db" using new by (force simp: filter_id_conv)
  then show ?thesis using new assms(2) by (auto simp: db' map_add_def split: option.splits)
qed

lemma add_then_drop_column:
  assumes "run_schema_op (AddColumn n c) db = Inr db'" and "distinct (map fst db)"
  shows "run_schema_op (DropColumn n (c_name c)) db' = Inr db \<and> distinct (map fst db')"
proof -
  obtain t where t: "map_of db n = Some t" "\<not> has_column (c_name c) t"
    and db': "db' = replace_table n (t\<lparr>t_columns := t_columns t @ [c]\<rparr>) db"
    using assms(1) by (auto split: option.splits if_splits)
  have "filter (\<lambda>k. c_name k \<noteq> c_name c) (t_columns t) = t_columns t"
    using t(2) unfolding has_column_def filter_id_conv set_map by (metis imageI)
  then show ?thesis
    using t assms(2) by (simp add: db' map_of_replace_table has_column_def replace_table_back)
qed

lemma revision_downgrade:
  assumes "r \<in> set revisions" and "run_schema_ops (rv_upgrade r) db = Inr db'" and "distinct (map fst db)"
  shows "run_schema_ops (rv_downgrade r) db' = Inr db \<and> distinct (map fst db')"
proof -
  have one: "run_schema_ops [p] x = Inr y \<longleftrightarrow> run_schema_op p x = Inr y" for p x y
    by (auto split: sum.splits)
  let ?c = "column ''role'' (SqlString (Some 20)) (Some ''user'')"
  have name: "c_name ?c = ''role''" by (simp add: column_def)
  consider t where "rv_upgrade r = [CreateTable ''users'' t]" "rv_downgrade r = [DropTable ''users'']"
    | "rv_upgrade r = [AddColumn ''users'' ?c]" "rv_downgrade r = [DropColumn ''users'' (c_name ?c)]"
    | "rv_upgrade r = []" "rv_downgrade r = []"
    using assms(1) unfolding revisions_def name by (auto simp: revision_defs)
  then show ?thesis
    by cases (use assms(2,3) create_then_drop add_then_drop_column in \<open>simp_all add: one del: run_schema_op.simps run_schema_ops.simps(2)\<close>)
qed

section \<open>Plans that create the table twice\<close>

definition roots :: "revision set" where "roots = {create_users_table, initial_schema}"

text \<open>Once the table is there, a plan with a root left ends in \<open>DuplicateTable\<close>.\<close>

lemma second_root_fails:
  assumes "map_of db ''users'' = Some t" and "has_column ''role'' t \<longrightarrow> ''df814258c022'' \<in> set past"
    and "plan_ok past rs" and "set rs \<subseteq> set revisions" and "set rs \<inter> roots \<noteq> {}"
  shows "upgrade rs db = Inl DuplicateTable"
  using assms
proof (induction rs arbitrary: db t past)
  case (Cons r rs)
  consider "r \<in> roots" | "r = add_role_column" | "r = merge_heads_1130 \<or> r = merge_heads_cb35"
    using Cons.prems(4) by (auto simp: revisions_def roots_def)
  then show ?case
  proof cases
    case 1
    then show ?thesis using Cons.prems(1) by (auto simp: roots_def revision_defs)
  next
    case 2
    let ?c = "column ''role'' (SqlString (Some 20)) (Some ''user'')"
    let ?t = "t\<lparr>t_columns := t_columns t @ [?c]\<rparr>"
    have no: "\<not> has_column ''role'' t" using Cons.prems(2,3) 2 by (simp add: add_role_column_def)
    have m: "map_of (replace_table ''users'' ?t db) ''users'' = Some ?t"
      using Cons.prems(1) unfolding replace_table_def by (induction db) (auto split: if_splits)
    have "upgrade rs (replace_table ''users'' ?t db) = Inl DuplicateTable"
      by (rule Cons.IH [OF m, of "''df814258c022'' # past"])
        (use Cons.prems(3-5) 2 in \<open>auto simp: add_role_column_def roots_def revision_defs\<close>)
    moreover have "c_name ?c = ''role''" by (simp add: column_def)
    ultimately show ?thesis using no Cons.prems(1) 2 by (simp add: add_role_column_def)
  next
    case 3
    have "upgrade rs db = Inl DuplicateTable"
      by (rule Cons.IH [OF Cons.prems(1), of "rv_id r # past"])
        (use Cons.prems(2-5) 3 in \<open>auto simp: roots_def revision_defs\<close>)
    then show ?thesis using 3 by (auto simp: revision_defs)
  qed
qed simp

section \<open>Properties\<close>

text \<open>
  C36. A fresh database cannot be migrated to the head: both first revisions create \<open>users\<close>, and the
  merge revision makes both ancestors of the head, so every plan that runs all five revisions, each
  after its parents, ends in a duplicate table. The branch of \<open>initial_schema\<close> alone does give the
  table of the model: its columns with the sizes of \<open>fits_columns\<close>, and \<open>role\<close> with its default. As
  the plan is one transaction, the failed migration leaves no table at all, and neither does the
  script that the offline mode prints.
\<close>

theorem fresh_database_cannot_reach_the_head:
  assumes "plan_ok [] rs" and "set rs = set revisions"
  shows "do_run_migrations rs [] = (Some DuplicateTable, []) \<and> run_script (run_migrations_offline rs) None [] = [] \<and>
    (\<exists>t. upgrade [initial_schema, add_role_column] [] = Inr [(''users'', t)] \<and>
       map c_name (t_columns t) =
         [''id'', ''username'', ''email'', ''hashed_password'', ''is_active'', ''created_at'', ''role''] \<and>
       (\<forall>u. fits_columns u \<longleftrightarrow>
          list_all (\<lambda>(n, v). \<forall>c \<in> set (t_columns t). c_name c = n \<longrightarrow> (\<exists>k. c_type c = SqlString (Some k) \<and> length v \<le> k))
            [(''username'', u_username u), (''email'', u_email u), (''hashed_password'', u_hashed_password u), (''role'', u_role u)]))"
proof (intro conjI)
  obtain r rest where rs: "rs = r # rest" using assms(2) by (cases rs) (auto simp: revisions_def)
  have "r \<in> set revisions" "rv_down r = []"
    using assms rs by (auto simp: list_all_iff)
  moreover have "rv_down add_role_column \<noteq> []" "rv_down merge_heads_1130 \<noteq> []" "rv_down merge_heads_cb35 \<noteq> []"
    by (simp_all add: revision_defs)
  ultimately have root: "r \<in> roots" unfolding revisions_def roots_def by auto
  have others: "set rest \<inter> roots \<noteq> {}"
  proof -
    have "rv_id create_users_table \<noteq> rv_id initial_schema" by (simp add: revision_defs)
    then have ne: "create_users_table \<noteq> initial_schema" by metis
    define x where "x = (if r = create_users_table then initial_schema else create_users_table)"
    have x: "x \<noteq> r" "x \<in> roots" using ne by (auto simp: x_def roots_def)
    have "roots \<subseteq> set rs" unfolding assms(2) roots_def revisions_def by simp
    then have "x \<in> set rest" using x rs by auto
    then show ?thesis using x(2) by blast
  qed
  obtain t where t: "run_schema_ops (rv_upgrade r) [] = Inr [(''users'', t)]" "\<not> has_column ''role'' t"
    using root by (auto simp: roots_def revision_defs users_table_def has_column_def column_def)
  have "upgrade rest [(''users'', t)] = Inl DuplicateTable"
    by (rule second_root_fails [where past = "[rv_id r]"])
      (use assms rs t(2) others in auto)
  then show "do_run_migrations rs [] = (Some DuplicateTable, [])" using rs t(1) by (simp add: do_run_migrations_def)
  then show "run_script (run_migrations_offline rs) None [] = []" by (simp add: offline_script_does_the_same)
  show "\<exists>t. upgrade [initial_schema, add_role_column] [] = Inr [(''users'', t)] \<and>
       map c_name (t_columns t) =
         [''id'', ''username'', ''email'', ''hashed_password'', ''is_active'', ''created_at'', ''role''] \<and>
       (\<forall>u. fits_columns u \<longleftrightarrow>
          list_all (\<lambda>(n, v). \<forall>c \<in> set (t_columns t). c_name c = n \<longrightarrow> (\<exists>k. c_type c = SqlString (Some k) \<and> length v \<le> k))
            [(''username'', u_username u), (''email'', u_email u), (''hashed_password'', u_hashed_password u), (''role'', u_role u)])"
    by (simp add: revision_defs users_table_def column_def has_column_def replace_table_def fits_columns_def)
qed

theorem fresh_database_cannot_reach_the_head_witness:
  "do_run_migrations [initial_schema, add_role_column, create_users_table, merge_heads_1130, merge_heads_cb35] [] =
     (Some DuplicateTable, [])"
  by (rule conjunct1 [OF fresh_database_cannot_reach_the_head]) (simp_all add: revision_defs, auto simp: revisions_def revision_defs)

text \<open>
  C37. Every revision's downgrade undoes its upgrade: whatever revisions an upgrade ran, in whatever
  order, on a database with any tables, downgrading through the same revisions backwards succeeds
  and gives back exactly the schema there was.
\<close>

theorem downgrade_undoes_upgrade:
  assumes "set rs \<subseteq> set revisions" and "distinct (map fst db)" and "upgrade rs db = Inr db'"
  shows "downgrade (rev rs) db' = Inr db"
  using assms
proof (induction rs arbitrary: db)
  case (Cons r rs)
  obtain db1 where 1: "run_schema_ops (rv_upgrade r) db = Inr db1" "upgrade rs db1 = Inr db'"
    using Cons.prems(3) by (auto split: sum.splits)
  have undo: "run_schema_ops (rv_downgrade r) db1 = Inr db" "distinct (map fst db1)"
    using revision_downgrade [OF _ 1(1) Cons.prems(2)] Cons.prems(1) by auto
  have "downgrade (rev rs) db' = Inr db1" using Cons.IH [OF _ undo(2) 1(2)] Cons.prems(1) by simp
  then show ?case using undo(1) by (simp add: downgrade_append)
qed simp

theorem downgrade_undoes_upgrade_witness:
  "\<exists>db. upgrade [initial_schema, add_role_column] [] = Inr db \<and> downgrade [add_role_column, initial_schema] db = Inr []"
proof -
  have "\<exists>db. upgrade [initial_schema, add_role_column] [] = Inr db"
    by (simp add: revision_defs users_table_def column_def has_column_def)
  then obtain db where db: "upgrade [initial_schema, add_role_column] [] = Inr db" by blast
  have "downgrade (rev [initial_schema, add_role_column]) db = Inr []"
    by (rule downgrade_undoes_upgrade [OF _ _ db]) (simp_all add: revisions_def)
  then show ?thesis using db by auto
qed

end
