(* ===== verification/Spec2Isabelle.thy ===== *)
theory Spec2Isabelle
  imports Registrations Database LoginRace RegisterRace Migrations
begin

text \<open>
  A verification library for the API gateway with abuse detection (AGAD): a FastAPI application in
  front of a proxied service. One request goes through six middleware classes and a router; the
  shared state is a Redis server and a table of users, the private state of a process its two Bloom
  filters.

  THE PROGRAM AND ITS MODEL. The code under app/ is one state and exception monad, \<open>('s, 'a) io\<close> of
  Prelude: a coroutine takes a state and returns a value or a Python exception with the state it
  leaves. Each theory models the file it names, definition by function, in the order of the code.

    Prelude             the exceptions, the monad, the parts of str, list and int the code uses
    PyFloat             binary64: correctly rounded division and square root, the two-decimals format
    Config              app/config.py, settings and defaults
    RedisModel          the client calls (parameter), their contract, a reference server
    RateLimiter         app/services/rate_limiter.py, Lua script included
    AbuseDetector       app/services/abuse_detector.py
    GraduatedResponse   app/services/graduated_response.py
    BloomFilterService  app/services/bloom_filter.py and app/workers/bloom_sync.py
    Json, ShadowLogger  json.dumps and json.loads, app/services/shadow_logger.py
    RedisClient         app/core/redis_client.py
    Security            app/core/security.py and app/core/exceptions.py
    Http                requests, responses, app/core/metrics.py, app/models/user.py, app/schemas/auth.py
    Middleware          the dispatch methods of app/middleware/
    Routers             app/routers/, app/dependencies.py and the endpoints of app/main.py
    Gateway             app/main.py: startup, order of the middleware, exception handlers
    Deployment          app/main.py's lifespan: processes that start, sync, serve and stop on one server
    Database            app/core/database.py: the engine's options; the session blocks of
                        app/routers/auth.py and get_db of app/dependencies.py
    Migrations          migrations/versions/, and the two modes of migrations/env.py

  \<open>Gateway.chain\<close> composes the dispatch methods as main.py adds them: request ID, authentication,
  Bloom filter, rate limit, abuse detection, shadow mode, exception handlers, route. A gateway state
  holds the node (server and filters), the users, the metrics recorded so far and the state of the
  request. \<open>handle_request\<close> answers one request and \<open>handle_requests\<close> a sequence of them. A \<open>deployment\<close>
  is any number of processes over one server and one table; \<open>dep_step\<close> is one event of it: a process
  starts (\<open>startup\<close>, then the worker's own filters), answers a request, ends a round of its worker
  or stops, or time passes. Time and
  chance come in as data: \<open>readings\<close> holds what one request reads from its clocks, the salt and the
  identifiers it draws; time on the server passes by \<open>e_elapse\<close>.

  PARAMETERS. Code outside the repository is a record of functions, its documented behaviour a
  locale over that record. Properties hold for every instance of the contract.

    redis, \<open>redis_server\<close>, \<open>timed_redis\<close>   redis-py on a server: the commands act on a view of the
        server as \<open>ks_redis\<close> acts on a keyspace with deadlines; interpreted by \<open>ks_redis\<close> itself
    bloom_lib, \<open>membership_filter\<close>         pybloom_live: what was added is found, nothing is in a new
        filter, an addition over the capacity is an IndexError; interpreted by the textbook filter. Its
        ValueError for a capacity or error rate out of range is raised where the startup first builds
        the filters (\<open>create_bloom_filter_service\<close>); the later ones have the same options
    jwt_lib, \<open>jwt_contract\<close>                python-jose: what was encoded decodes to itself until exp,
        and only JWTError is raised, for the claims the gateway itself writes (texts \<open>sub\<close> and \<open>role\<close>,
        number \<open>exp\<close>); interpreted by a reference encoding
    bcrypt_lib, \<open>bcrypt_contract\<close>          bcrypt 5: a hash accepts its password, over 72 bytes is an error,
        and only ValueError is raised; interpreted by a reference hash
    user_db, \<open>user_table\<close>                   the two transactions on users: find by name, insert with
        the unique columns and their sizes; interpreted by a list of users
    session_api, \<open>user_sessions\<close>             SQLAlchemy's sessions, one level below \<open>user_db\<close>: what is added,
        flushed and committed, and when a session holds a connection; interpreted by \<open>sv_api\<close>

  The operations are proved to simulate themselves on the reference server (the collection
  \<open>sim_intros\<close>), so each property is computed there and carried over to any healthy server.

  WHAT THE LEMMAS SHOW.
    RateLimiter: the script refines an abstract log of accepted requests for any interleaving of
    clients whose own requests read increasing milliseconds from clocks near the server's; hence the
    bound on every window, the bound on the storage, and what requests of one millisecond do.
    AbuseDetector: the counters are exact, so the stuffing test is a function of the burst; the
    entropy is the rounded deviation of the exact gaps, it never raises, and its threshold is bounded
    on regular and on irregular clients.
    GraduatedResponse, Enforcement: the score is a decision table on integers although the code
    divides floats, it is monotone, and the middleware's verdict is the table on the exact signals.
    BloomFilterService: no false negatives after a sync, a block reaches other instances after theirs,
    a failed sync, and the worker that reloads filters no request reads.
    Json, ShadowLogger: events survive printing and parsing; the statistics count what SCAN returned.
    RedisClient: the retry loop ends after at most five pings.
    Frames: a calculus for the whole chain. \<open>safe X P m\<close> says that \<open>m\<close> preserves the predicate \<open>P\<close> of the
    state, whether it returns or raises, and raises only exceptions in \<open>X\<close>; \<open>keeps\<close> is the case without
    a bound on the exceptions, \<open>hoare\<close> the one with a postcondition, and each dispatch method and
    handler has its rule. \<open>framed R K P\<close> says that a predicate of the server that only looks at keys
    outside \<open>K\<close> survives every service that writes in \<open>K\<close>. From them come the end-to-end
    properties: Access (who gets through and who may change the block lists), Accounts (the table,
    registration, login, number of guesses of logins one after the other) and Protection (tokens, shadow mode, limits, soft blocks,
    health, startup).
    ServerState: the schema of the server (\<open>server_ok\<close>: what kind of value lies under which key; a deadline
    at most its lifetime ahead for windows, counters, stamps, shadow events and soft blocks, and none
    for the flag and the two lists; the largest window, counter and number of stamps) is an invariant
    of every deployment; on such a server no service meets an error of Redis, so only four endpoints
    can end in the server's 500.
    Policy: one function of the token, the filters and the server's entries decides on every request;
    the chain of six middleware classes refuses it with that answer, or runs its handler on a state that
    differs only in the client's logs and a new block, and adds the policy's headers.
    Registrations: through the whole gateway the users table is the record of the registrations
    answered 201, row by row, and the status of a registration follows from the rows written before.
    Database: a session block does what the transaction of the model does, and gives its connection
    back however it ends; what /health reports stays within the engine's limit.
    Deployment: a hard block survives restarts and reaches a process with its next start, and nothing
    before that; Quota: the rate limit holds over all processes and events together, under the same
    conditions on the clocks, and requests that end in a 500 behind the limiter count.
    LoginRace: a step relation that interleaves the two Redis commands of concurrent logins; the
    guesses are bounded by the threshold plus the logins in flight, and the bound's excess is real.
    RegisterRace: the same for the two statements of concurrent registrations: one name has one winner,
    and the others may see a 500 in place of the 409.
    Migrations: no order of the five revisions migrates an empty database, whose schema then stays
    empty; the printed script of the offline mode does what the online mode does; every downgrade
    undoes its upgrade.
    Demo: a deployment of the reference instances, on which the properties are evaluated.

  BOUNDS AND FUEL. The JSON parser has fuel, twice the length of its input and one more, and
  is proved never to run out of it (\<open>json_loads_total\<close>); the worker's endless loop is run for any number \<open>n\<close>
  of rounds; the retries are the code's five. Redis counters are 64 bit, so bursts are bounded by
  \<open>2 ^ 60\<close> failures; thresholds up to \<open>2 ^ 49\<close> keep the ratio tests exact in binary64.

  WHAT IS ABSTRACTED. Floats are the rationals of finite binary64 values; the code makes no
  infinities or NaN. Strings are lists of code points below 256, so the em dashes in three detail
  texts (bloom_filter.py, abuse_detector.py, exceptions.py) are written as hyphens. A column takes
  a text up to its length: that PostgreSQL refuses the NUL character, and cuts spaces past the length
  instead of refusing them, is left out (\<open>fits_columns\<close>). Requests of \<open>handle_requests\<close> and the events of a deployment run one
  after the other; the interleaving of single commands is modelled for the rate limiter's script, for
  logins and for registrations. The throttle's sleep lets time pass on the server; the worker's sleep
  is time between two events. Stopping a process (cancelling the worker, closing the client) leaves
  the server as it is.

  NOT MODELLED. FastAPI's routing and validation (a request names its endpoint and its validated
  arguments; the framework's other paths are the parameter \<open>e_framework\<close>); the content of /metrics and the
  registration of the metrics with prometheus_client; logging (app/core/logging.py), which only
  configures structlog; the declarative base of app/core/database.py and \<open>User.__repr__\<close>, which hold no
  behaviour the gateway uses; the engine that migrations/env.py creates and Alembic's choice of a plan
  (the properties hold for every plan); other sessions that commit while a session block runs, except
  for the two statements of RegisterRace; the tests.
\<close>

end
